(* ===== verification/Prelude.thy ===== *)
theory Prelude
  imports Main "HOL-Library.Word" "HOL-Library.List_Lexorder"
begin

text \<open>
  What every component shares: the machine types, Rust's \<open>Result\<close> with the ways an operation
  can stop, the reader that \<open>std::io::Read\<close> gives on a byte buffer, and the lemma collections
  \<open>res_simps\<close> (results), \<open>codec_simps\<close> (encoders and decoders) and \<open>wf_simps\<close>
  (well-formedness predicates) that the component proofs pass to the simplifier.
\<close>

unbundle bit_operations_syntax

named_theorems res_simps \<open>rewriting of results and of the question-mark operator\<close>
named_theorems codec_simps \<open>decoders applied to what the encoders wrote\<close>
named_theorems wf_simps \<open>facts about well-formed component states\<close>

section \<open>Machine types\<close>

type_synonym u8 = "8 word"
type_synonym u32 = "32 word"
type_synonym u64 = "64 word"

text \<open>
  A \<open>Vec<u8>\<close>, a slice and the contents of a file are lists of bytes; so are strings, which
  Rust keeps as UTF-8. The order on byte vectors is the lexicographic one of \<open>List_Lexorder\<close>
  over unsigned bytes, which is Rust's \<open>Ord\<close> on slices.
\<close>

type_synonym bytes = "u8 list"

lemma unat_less_u8: "unat (w :: u8) < 2 ^ 8"
  using unsigned_less [of w, where 'a = nat] by simp

lemma unat_less_u32: "unat (w :: u32) < 2 ^ 32"
  using unsigned_less [of w, where 'a = nat] by simp

lemma unat_less_u64: "unat (w :: u64) < 2 ^ 64"
  using unsigned_less [of w, where 'a = nat] by simp

text \<open>The byte string literal \<open>b"..."\<close>.\<close>

definition str :: "string \<Rightarrow> bytes" where
  "str s = map of_char s"

lemma length_str [simp]: "length (str s) = length s"
  by (simp add: str_def)

section \<open>Results\<close>

datatype error_kind =
    UnexpectedEof
  | InvalidData
  | InvalidInput
  | AlreadyExists
  | NotFound
  | FileTooLarge
  | OtherKind

text \<open>An \<open>io::Error\<close>: its kind and what \<open>Display\<close> prints for it.\<close>

datatype io_error = IoError (kind: error_kind) (message: bytes)

text \<open>
  Why a computation stops early: an \<open>io::Error\<close> handed to the caller by the question-mark
  operator, a panic of the thread, or the death of the process.
\<close>

datatype stop = Io io_error | Panic | Killed

datatype 'a res = Ok 'a | Fail stop

abbreviation Err :: "error_kind \<Rightarrow> bytes \<Rightarrow> 'a res" where
  "Err k m \<equiv> Fail (Io (IoError k m))"

fun bind_res :: "'a res \<Rightarrow> ('a \<Rightarrow> 'b res) \<Rightarrow> 'b res" where
  "bind_res (Ok x) f = f x"
| "bind_res (Fail s) f = Fail s"

fun is_ok :: "'a res \<Rightarrow> bool" where
  "is_ok (Ok x) = True"
| "is_ok (Fail s) = False"

fun is_eof :: "stop \<Rightarrow> bool" where
  "is_eof (Io e) = (kind e = UnexpectedEof)"
| "is_eof Panic = False"
| "is_eof Killed = False"

lemma bind_res_cong [fundef_cong]:
  "m = m' \<Longrightarrow> (\<And>x. m' = Ok x \<Longrightarrow> f x = g x) \<Longrightarrow> bind_res m f = bind_res m' g"
  by (cases m') auto

lemma bind_res_eq_Ok [res_simps]:
  "bind_res m f = Ok y \<longleftrightarrow> (\<exists>x. m = Ok x \<and> f x = Ok y)"
  by (cases m) auto

lemma bind_res_eq_Fail [res_simps]:
  "bind_res m f = Fail s \<longleftrightarrow> m = Fail s \<or> (\<exists>x. m = Ok x \<and> f x = Fail s)"
  by (cases m) auto

lemma bind_res_Ok_right [simp]: "bind_res m Ok = m"
  by (cases m) auto

lemma bind_res_assoc: "bind_res (bind_res m f) g = bind_res m (\<lambda>x. bind_res (f x) g)"
  by (cases m) auto

lemma is_ok_iff [res_simps]: "is_ok m \<longleftrightarrow> (\<exists>x. m = Ok x)"
  by (cases m) auto

text \<open>A fold whose step can stop: a \<open>for\<close> loop with the question-mark operator in its body.\<close>

fun fold_res :: "('s \<Rightarrow> 'a \<Rightarrow> 's res) \<Rightarrow> 's \<Rightarrow> 'a list \<Rightarrow> 's res" where
  "fold_res f s [] = Ok s"
| "fold_res f s (x # xs) = bind_res (f s x) (\<lambda>s'. fold_res f s' xs)"

lemma fold_res_append:
  "fold_res f s (xs @ ys) = bind_res (fold_res f s xs) (\<lambda>s'. fold_res f s' ys)"
  by (induction xs arbitrary: s) (auto simp: bind_res_assoc)

lemma fold_res_invariant:
  assumes "fold_res f s xs = Ok s'" and "P [] s"
    and "\<And>ys x t t'. P ys t \<Longrightarrow> f t x = Ok t' \<Longrightarrow> x \<in> set xs \<Longrightarrow> P (ys @ [x]) t'"
  shows "P xs s'"
proof -
  have "P (ys @ xs) s'" if "fold_res f t xs = Ok s'" and "P ys t"
    and "\<And>ys x t t'. P ys t \<Longrightarrow> f t x = Ok t' \<Longrightarrow> x \<in> set xs \<Longrightarrow> P (ys @ [x]) t'" for ys t
    using that
  proof (induction xs arbitrary: ys t)
    case Nil
    then show ?case by simp
  next
    case (Cons x xs)
    then obtain t' where "f t x = Ok t'" and rest: "fold_res f t' xs = Ok s'"
      by (auto simp: res_simps)
    then have "P (ys @ [x]) t'" using Cons.prems by simp
    from Cons.IH [OF rest this] Cons.prems(3) show ?case by simp
  qed
  from this [of s "[]"] assms show ?thesis by simp
qed

section \<open>Reading from a buffer\<close>

text \<open>
  \<open>Read::read_exact\<close> on the bytes that are left: the filled buffer and what is left then, or
  \<open>UnexpectedEof\<close> when fewer bytes are left than the buffer holds.
\<close>

definition read_exact :: "nat \<Rightarrow> bytes \<Rightarrow> (bytes \<times> bytes) res" where
  "read_exact n r =
     (if n \<le> length r then Ok (take n r, drop n r)
      else Err UnexpectedEof (str ''failed to fill whole buffer''))"

lemma read_exact_append [codec_simps]: "length bs = n \<Longrightarrow> read_exact n (bs @ r) = Ok (bs, r)"
  by (simp add: read_exact_def)

lemma read_exact_eq_Ok [res_simps]:
  "read_exact n r = Ok (bs, r') \<longleftrightarrow> length bs = n \<and> r = bs @ r'"
  by (auto simp: read_exact_def)

lemma read_exact_short [simp]:
  "length r < n \<Longrightarrow> read_exact n r = Err UnexpectedEof (str ''failed to fill whole buffer'')"
  by (simp add: read_exact_def)

lemma read_exact_cases:
  obtains (full) bs r' where "read_exact n r = Ok (bs, r')" and "length bs = n" and "r = bs @ r'"
  | (short) "length r < n"
      and "read_exact n r = Err UnexpectedEof (str ''failed to fill whole buffer'')"
proof (cases "n \<le> length r")
  case True
  then show ?thesis using full [of "take n r" "drop n r"] by (simp add: read_exact_def)
next
  case False
  then show ?thesis using short by simp
qed

section \<open>Lists and association lists\<close>

lemma map_of_sorted_less:
  "sorted_wrt (<) (map fst ((k, v) # es)) \<Longrightarrow> x < (k::'a::linorder) \<Longrightarrow> map_of es x = None"
  by (induction es) fastforce+

lemma map_of_above:
  "(\<And>y. y \<in> fst ` set es \<Longrightarrow> y < (x::'a::linorder)) \<Longrightarrow> map_of es x = None"
  by (metis less_irrefl map_of_eq_None_iff)

lemma map_of_below:
  "(\<And>y. y \<in> fst ` set es \<Longrightarrow> (x::'a::linorder) < y) \<Longrightarrow> map_of es x = None"
  by (metis less_irrefl map_of_eq_None_iff)

lemma map_of_some_key: "map_of es x = Some y \<Longrightarrow> x \<in> fst ` set es"
  by (metis domI dom_map_of_conv_image_fst)

text \<open>Strictly sorted association lists are determined by the map they stand for.\<close>

lemma alist_by_keys:
  assumes "distinct (map fst xs)"
  shows "map (\<lambda>k. (k, the (map_of xs k))) (map fst xs) = xs"
proof -
  have "(fst p, the (map_of xs (fst p))) = p" if "p \<in> set xs" for p
    using map_of_is_SomeI [OF assms, of "fst p" "snd p"] that by simp
  then show ?thesis by (simp add: map_idI)
qed

lemma sorted_map_of_inject:
  fixes xs ys :: "('a::linorder \<times> 'b) list"
  assumes "sorted_wrt (<) (map fst xs)" and "sorted_wrt (<) (map fst ys)"
    and eq: "map_of xs = map_of ys"
  shows "xs = ys"
proof -
  have d: "distinct (map fst xs)" "distinct (map fst ys)"
    using assms(1,2) by (auto simp: strict_sorted_iff)
  have "fst ` set xs = fst ` set ys"
    using eq by (metis dom_map_of_conv_image_fst)
  then have "map fst xs = map fst ys"
    using assms(1,2) by (intro sorted_distinct_set_unique) (auto simp: strict_sorted_iff)
  then show ?thesis by (metis alist_by_keys d eq)
qed

end
