(* ===== verification/Codec.thy ===== *)
theory Codec
  imports Prelude
begin

text \<open>
  The byte formats that the log and the tables are built from: little-endian integers
  (\<open>to_le_bytes\<close>, \<open>from_le_bytes\<close>) and length-prefixed byte strings (\<open>read_prefixed\<close> of
  \<^verbatim>\<open>src/src/sstable.rs\<close>). The locale \<open>codec\<close> states what a reader owes to a writer; its
  lemmas (unique parsing, no encoding is a proper prefix of another, a stretch of encodings
  reads back as the list of values) are proved once and reach the formats by interpretation.
\<close>

section \<open>Little-endian integers\<close>

fun to_le :: "nat \<Rightarrow> nat \<Rightarrow> bytes" where
  "to_le 0 x = []"
| "to_le (Suc n) x = word_of_nat (x mod 256) # to_le n (x div 256)"

fun of_le :: "bytes \<Rightarrow> nat" where
  "of_le [] = 0"
| "of_le (b # bs) = unat b + 256 * of_le bs"

lemma length_to_le [simp]: "length (to_le n x) = n"
  by (induction n arbitrary: x) auto

lemma unat_byte_of_mod: "unat (word_of_nat (x mod 256) :: u8) = x mod 256"
  by (simp add: unat_of_nat)

lemma of_le_to_le: "of_le (to_le n x) = x mod 256 ^ n"
proof (induction n arbitrary: x)
  case 0
  then show ?case by simp
next
  case (Suc n)
  have "of_le (to_le (Suc n) x) = x mod 256 + 256 * (x div 256 mod 256 ^ n)"
    using Suc by (simp add: unat_byte_of_mod del: of_nat_mod)
  also have "\<dots> = x mod (256 * 256 ^ n)"
    by (simp add: mod_mult2_eq)
  finally show ?case by simp
qed

lemma of_le_bound: "of_le bs < 256 ^ length bs"
proof (induction bs)
  case Nil
  then show ?case by simp
next
  case (Cons b bs)
  have "unat b < 256" using unat_less_u8 [of b] by simp
  then have "unat b + 256 * of_le bs < 256 * (of_le bs + 1)" by simp
  also have "\<dots> \<le> 256 * 256 ^ length bs" using Cons by (intro mult_le_mono) auto
  finally show ?case by simp
qed

lemma to_le_of_le: "to_le (length bs) (of_le bs) = bs"
proof (induction bs)
  case Nil
  then show ?case by simp
next
  case (Cons b bs)
  have "unat b < 256" using unat_less_u8 [of b] by simp
  then have "(unat b + 256 * of_le bs) mod 256 = unat b"
    and "(unat b + 256 * of_le bs) div 256 = of_le bs" by auto
  then show ?case using Cons by simp
qed

definition u32_to_le :: "u32 \<Rightarrow> bytes" where
  "u32_to_le w = to_le 4 (unat w)"

definition u32_from_le :: "bytes \<Rightarrow> u32" where
  "u32_from_le bs = word_of_nat (of_le bs)"

definition u64_to_le :: "u64 \<Rightarrow> bytes" where
  "u64_to_le w = to_le 8 (unat w)"

definition u64_from_le :: "bytes \<Rightarrow> u64" where
  "u64_from_le bs = word_of_nat (of_le bs)"

lemma length_u32_to_le [simp]: "length (u32_to_le w) = 4"
  by (simp add: u32_to_le_def)

lemma length_u64_to_le [simp]: "length (u64_to_le w) = 8"
  by (simp add: u64_to_le_def)

lemma u32_from_to_le [codec_simps, simp]: "u32_from_le (u32_to_le w) = w"
proof -
  have "unat w < 2 ^ 32" by (rule unat_less_u32)
  then show ?thesis by (simp add: u32_from_le_def u32_to_le_def of_le_to_le)
qed

lemma u64_from_to_le [codec_simps, simp]: "u64_from_le (u64_to_le w) = w"
proof -
  have "unat w < 2 ^ 64" by (rule unat_less_u64)
  then show ?thesis by (simp add: u64_from_le_def u64_to_le_def of_le_to_le)
qed

lemma unat_u32_from_le: "length bs = 4 \<Longrightarrow> unat (u32_from_le bs) = of_le bs"
  using of_le_bound [of bs] by (simp add: u32_from_le_def unat_of_nat)

lemma u32_to_from_le: "length bs = 4 \<Longrightarrow> u32_to_le (u32_from_le bs) = bs"
  using to_le_of_le [of bs] by (simp add: u32_to_le_def unat_u32_from_le)

section \<open>Length-prefixed byte strings\<close>

text \<open>
  \<open>(bytes.len() as u32).to_le_bytes()\<close> and then the bytes: the cast keeps the low 32 bits of the
  length.
\<close>

definition prefixed :: "bytes \<Rightarrow> bytes" where
  "prefixed bs = u32_to_le (word_of_nat (length bs)) @ bs"

definition read_prefixed :: "bytes \<Rightarrow> (bytes \<times> bytes) res" where
  "read_prefixed r =
     bind_res (read_exact 4 r) (\<lambda>(len_buf, r1).
     bind_res (read_exact (unat (u32_from_le len_buf)) r1) (\<lambda>(buf, r2).
     Ok (buf, r2)))"

lemma length_prefixed [simp]: "length (prefixed bs) = 4 + length bs"
  by (simp add: prefixed_def)

lemma unat_of_nat_u32: "n < 2 ^ 32 \<Longrightarrow> unat (word_of_nat n :: u32) = n"
  by (simp add: unat_of_nat)

lemma unat_of_nat_u64: "n < 2 ^ 64 \<Longrightarrow> unat (word_of_nat n :: u64) = n"
  by (simp add: unat_of_nat)

lemma read_prefixed_prefixed [codec_simps]:
  "length bs < 2 ^ 32 \<Longrightarrow> read_prefixed (prefixed bs @ r) = Ok (bs, r)"
  by (simp add: read_prefixed_def prefixed_def read_exact_append unat_of_nat_u32)

lemma read_prefixed_eq_Ok:
  "read_prefixed r = Ok (buf, r') \<longleftrightarrow>
     (\<exists>lb. length lb = 4 \<and> length buf = of_le lb \<and> r = lb @ buf @ r')"
  by (auto simp: read_prefixed_def res_simps unat_u32_from_le split: prod.splits)

lemma read_prefixed_length:
  "read_prefixed r = Ok (buf, r') \<Longrightarrow> length r = 4 + length buf + length r'"
  by (auto simp: read_prefixed_eq_Ok)

section \<open>What a reader owes to a writer\<close>

locale codec =
  fixes enc :: "'a \<Rightarrow> bytes"
    and dec :: "bytes \<Rightarrow> ('a \<times> bytes) res"
    and fits :: "'a \<Rightarrow> bool"
  assumes dec_enc: "fits x \<Longrightarrow> dec (enc x @ r) = Ok (x, r)"
begin

lemma dec_enc_all: "fits x \<Longrightarrow> dec (enc x) = Ok (x, [])"
  using dec_enc [of x "[]"] by simp

lemma unique_parse:
  assumes "fits x" and "fits y" and "enc x @ r = enc y @ s"
  shows "x = y \<and> r = s"
proof -
  have "Ok (x, r) = Ok (y, s)" using dec_enc [OF assms(1)] dec_enc [OF assms(2)] assms(3) by metis
  then show ?thesis by simp
qed

lemma enc_inject: "fits x \<Longrightarrow> fits y \<Longrightarrow> enc x = enc y \<Longrightarrow> x = y"
  using unique_parse [of x y "[]" "[]"] by simp

lemma prefix_free: "fits x \<Longrightarrow> fits y \<Longrightarrow> enc y = enc x @ r \<Longrightarrow> r = []"
  using unique_parse [of x y r "[]"] by simp

end

text \<open>A format whose reader always consumes something: loops over it stop.\<close>

locale eager_codec = codec +
  assumes dec_shrinks: "dec r = Ok (x, r') \<Longrightarrow> length r' < length r"
begin

lemma enc_nonempty: "fits x \<Longrightarrow> enc x \<noteq> []"
  using dec_shrinks [OF dec_enc_all [of x]] by auto

text \<open>Streams of encodings have one reading: two lists with the same bytes are equal.\<close>

lemma stream_inject:
  assumes "\<forall>x \<in> set xs. fits x" and "\<forall>y \<in> set ys. fits y"
    and "concat (map enc xs) = concat (map enc ys)"
  shows "xs = ys"
  using assms
proof (induction xs arbitrary: ys)
  case Nil
  then show ?case by (cases ys) (simp_all add: enc_nonempty)
next
  case (Cons x xs)
  have "enc x \<noteq> []" using Cons.prems(1) by (intro enc_nonempty) simp
  then obtain y ys' where ys: "ys = y # ys'" using Cons.prems(3) by (cases ys) auto
  then have "x = y \<and> concat (map enc xs) = concat (map enc ys')"
    using Cons.prems by (intro unique_parse) simp_all
  moreover have "xs = ys'"
    using Cons.prems ys calculation by (intro Cons.IH) simp_all
  ultimately show ?case using ys by simp
qed

end

definition read_u32 :: "bytes \<Rightarrow> (u32 \<times> bytes) res" where
  "read_u32 r = bind_res (read_exact 4 r) (\<lambda>(b, r1). Ok (u32_from_le b, r1))"

definition read_u64 :: "bytes \<Rightarrow> (u64 \<times> bytes) res" where
  "read_u64 r = bind_res (read_exact 8 r) (\<lambda>(b, r1). Ok (u64_from_le b, r1))"

interpretation u32_codec: eager_codec u32_to_le read_u32 "\<lambda>_. True"
  by unfold_locales (auto simp: read_u32_def read_exact_append res_simps)

interpretation u64_codec: eager_codec u64_to_le read_u64 "\<lambda>_. True"
  by unfold_locales (auto simp: read_u64_def read_exact_append res_simps)

interpretation prefixed_codec: eager_codec prefixed read_prefixed "\<lambda>bs. length bs < 2 ^ 32"
  by unfold_locales (auto simp: read_prefixed_prefixed dest: read_prefixed_length)

end
