(* ===== verification/World.thy ===== *)
theory World
  imports Prelude "HOL-Library.AList"
begin

text \<open>
  The operating system as the store sees it: one data directory with the contents of its files,
  and an environment that decides how each system call that changes the directory ends. An
  operation is a function from the world to a result and the next world; the question-mark
  operator is \<open>io_bind\<close>.

  A call is \<open>Done\<close>, or it \<open>Fails\<close> with an error that is handed back to the program, or the
  process is \<open>Kill\<close>ed in the middle of it; a write that does not complete leaves a prefix of its
  data of any length in the file, every other call happens entirely or not at all. When the
  environment list is exhausted all further calls succeed, so that the empty list is the run
  without faults. Files that are open stay readable after their name is removed, so that a handle
  is the contents it was opened on (tables are never written again once they are published).

  A killed process leaves the directory as it is. A loss of power does not: what it may leave is the
  \<open>disk\<close>, where files are inodes. A directory may be found as it was at any moment since it was last
  synced (changes of names reach the disk in their order), and a file with anything it has had since it
  was last synced, whatever happens to the others.
\<close>

datatype sysres = Done | Fails io_error nat | Kill nat

datatype root_kind = Absent | RegularFile | Directory

type_synonym directory = "(bytes \<times> bytes) list"

record shadow =
  ino_names :: "(bytes \<times> nat) list"
  ino_former :: "(bytes \<times> nat) list list"
  ino_data :: "nat \<Rightarrow> bytes list"
  ino_fresh :: nat

record world =
  root :: root_kind
  dir :: directory
  env :: "sysres list"
  disk :: shadow

type_synonym 'a io = "world \<Rightarrow> 'a res \<times> world"

definition io_lift :: "'a res \<Rightarrow> 'a io" where
  "io_lift r w = (r, w)"

definition io_bind :: "'a io \<Rightarrow> ('a \<Rightarrow> 'b io) \<Rightarrow> 'b io" where
  "io_bind m f w = (case m w of (Ok x, w1) \<Rightarrow> f x w1 | (Fail s, w1) \<Rightarrow> (Fail s, w1))"

definition contents :: "directory \<Rightarrow> bytes \<Rightarrow> bytes" where
  "contents d n = (case map_of d n of None \<Rightarrow> [] | Some c \<Rightarrow> c)"

section \<open>What may be on the disk\<close>

definition sh_link :: "bytes \<Rightarrow> shadow \<Rightarrow> shadow" where
  "sh_link n D =
     (if map_of (ino_names D) n = None then
        D\<lparr>ino_names := AList.update n (ino_fresh D) (ino_names D), ino_former := ino_names D # ino_former D,
          ino_data := (ino_data D)(ino_fresh D := [[]]), ino_fresh := Suc (ino_fresh D)\<rparr>
      else D)"

text \<open>A file gets new contents, of which any may be found from now on.\<close>

definition sh_put :: "bytes \<Rightarrow> bytes list \<Rightarrow> shadow \<Rightarrow> shadow" where
  "sh_put n cs D =
     (let D1 = sh_link n D; i = the (map_of (ino_names D1) n)
      in D1\<lparr>ino_data := (ino_data D1)(i := ino_data D1 i @ cs)\<rparr>)"

definition sh_sync :: "bytes \<Rightarrow> bytes \<Rightarrow> shadow \<Rightarrow> shadow" where
  "sh_sync n c D =
     (case map_of (ino_names D) n of None \<Rightarrow> D | Some i \<Rightarrow> D\<lparr>ino_data := (ino_data D)(i := [c])\<rparr>)"

definition sh_sync_dir :: "shadow \<Rightarrow> shadow" where
  "sh_sync_dir D = D\<lparr>ino_former := []\<rparr>"

definition sh_names :: "((bytes \<times> nat) list \<Rightarrow> (bytes \<times> nat) list) \<Rightarrow> shadow \<Rightarrow> shadow" where
  "sh_names f D = D\<lparr>ino_names := f (ino_names D), ino_former := ino_names D # ino_former D\<rparr>"

definition sh_rename :: "bytes \<Rightarrow> bytes \<Rightarrow> shadow \<Rightarrow> shadow" where
  "sh_rename a b D = sh_names (\<lambda>ns. AList.update b (the (map_of ns a)) (AList.delete a ns)) D"

text \<open>The contents that a write goes through.\<close>

definition growing :: "bytes \<Rightarrow> bytes \<Rightarrow> bytes list" where
  "growing c data = map (\<lambda>k. c @ take k data) [0..<Suc (length data)]"

text \<open>A directory whose files and names are all on the disk.\<close>

definition settled :: "directory \<Rightarrow> shadow" where
  "settled d =
     \<lparr>ino_names = zip (map fst d) [0..<length d], ino_former = [],
      ino_data = (\<lambda>i. if i < length d then [snd (d ! i)] else []), ino_fresh = length d\<rparr>"

definition world_of :: "root_kind \<Rightarrow> directory \<Rightarrow> sysres list \<Rightarrow> world" where
  "world_of k d faults = \<lparr>root = k, dir = d, env = faults, disk = settled d\<rparr>"

lemma world_of_simps [simp]:
  "root (world_of k d faults) = k" "dir (world_of k d faults) = d" "env (world_of k d faults) = faults"
  "disk (world_of k d faults) = settled d"
  by (simp_all add: world_of_def)

text \<open>The directories that a loss of power may leave.\<close>

definition image_of :: "(nat \<Rightarrow> bytes list) \<Rightarrow> (bytes \<times> nat) list \<Rightarrow> directory \<Rightarrow> bool" where
  "image_of data = list_all2 (\<lambda>(n, i) (m, c). m = n \<and> c \<in> set (data i))"

definition may_remain :: "world \<Rightarrow> directory \<Rightarrow> bool" where
  "may_remain w d \<longleftrightarrow> (\<exists>ns \<in> set (ino_names (disk w) # ino_former (disk w)). image_of (ino_data (disk w)) ns d)"

section \<open>System calls\<close>

text \<open>One system call: what it does to the directory when it completes, and after \<open>n\<close> bytes, and what it
  does to the disk in both cases.\<close>

definition syscall :: "(directory \<Rightarrow> directory) \<Rightarrow> (nat \<Rightarrow> directory \<Rightarrow> directory) \<Rightarrow>
    (directory \<Rightarrow> shadow \<Rightarrow> shadow) \<Rightarrow> (directory \<Rightarrow> shadow \<Rightarrow> shadow) \<Rightarrow> unit io" where
  "syscall whole part sh shp w =
     (case env w of
        [] \<Rightarrow> (Ok (), w\<lparr>dir := whole (dir w), disk := sh (dir w) (disk w)\<rparr>)
      | Done # es \<Rightarrow> (Ok (), w\<lparr>dir := whole (dir w), env := es, disk := sh (dir w) (disk w)\<rparr>)
      | Fails e n # es \<Rightarrow> (Fail (Io e), w\<lparr>dir := part n (dir w), env := es, disk := shp (dir w) (disk w)\<rparr>)
      | Kill n # es \<Rightarrow> (Fail Killed, w\<lparr>dir := part n (dir w), env := es, disk := shp (dir w) (disk w)\<rparr>))"

definition syscall_atomic :: "(directory \<Rightarrow> directory) \<Rightarrow> (directory \<Rightarrow> shadow \<Rightarrow> shadow) \<Rightarrow> unit io" where
  "syscall_atomic f sh = syscall f (\<lambda>_ d. d) sh (\<lambda>_ D. D)"

text \<open>\<open>File::create\<close>: an empty file under the name, whatever was there.\<close>

definition sys_create :: "bytes \<Rightarrow> unit io" where
  "sys_create n = syscall_atomic (AList.update n []) (\<lambda>_. sh_put n [[]])"

text \<open>Opening with \<open>create(true)\<close>: an empty file only if there is none.\<close>

definition sys_open_create :: "bytes \<Rightarrow> unit io" where
  "sys_open_create n =
     syscall_atomic (\<lambda>d. if map_of d n = None then AList.update n [] d else d) (\<lambda>_. sh_link n)"

definition MAX_FILE_SIZE :: nat where
  "MAX_FILE_SIZE = 2 ^ 63 - 1"

text \<open>
  \<open>write_all\<close> at the end of a file. File offsets are signed 64-bit numbers, so that a file that
  would grow beyond \<open>MAX_FILE_SIZE\<close> makes the write fail at the limit.
\<close>

definition sys_append :: "bytes \<Rightarrow> bytes \<Rightarrow> unit io" where
  "sys_append n data w =
     (if MAX_FILE_SIZE < length (contents (dir w) n @ data)
      then (Err FileTooLarge (str ''File too large''),
            w\<lparr>dir := AList.update n
               (contents (dir w) n @ take (MAX_FILE_SIZE - length (contents (dir w) n)) data)
               (dir w),
              disk := sh_put n (growing (contents (dir w) n) data) (disk w)\<rparr>)
      else syscall (\<lambda>d. AList.update n (contents d n @ data) d)
                   (\<lambda>k d. AList.update n (contents d n @ take k data) d)
                   (\<lambda>d. sh_put n (growing (contents d n) data))
                   (\<lambda>d. sh_put n (growing (contents d n) data)) w)"

text \<open>
  \<open>sync_all\<close>, \<open>sync_data\<close> of a file, and of a directory: no change to what a reader sees, but the call can
  fail.
\<close>

definition sys_sync :: "bytes \<Rightarrow> unit io" where
  "sys_sync n = syscall_atomic (\<lambda>d. d) (\<lambda>d. sh_sync n (contents d n))"

definition sys_sync_dir :: "unit io" where
  "sys_sync_dir = syscall_atomic (\<lambda>d. d) (\<lambda>_. sh_sync_dir)"

text \<open>A call on a name that is not in the directory fails and changes nothing.\<close>

definition on_existing :: "bytes \<Rightarrow> unit io \<Rightarrow> unit io" where
  "on_existing n m w =
     (if map_of (dir w) n = None then (Err NotFound (str ''No such file or directory (os error 2)''), w)
      else m w)"

definition sys_rename :: "bytes \<Rightarrow> bytes \<Rightarrow> unit io" where
  "sys_rename a b =
     on_existing a (syscall_atomic (\<lambda>d. AList.update b (contents d a) (AList.delete a d)) (\<lambda>_. sh_rename a b))"

definition sys_remove :: "bytes \<Rightarrow> unit io" where
  "sys_remove n = on_existing n (syscall_atomic (AList.delete n) (\<lambda>_. sh_names (AList.delete n)))"

text \<open>\<open>File::set_len(0)\<close>.\<close>

definition sys_truncate :: "bytes \<Rightarrow> unit io" where
  "sys_truncate n = syscall_atomic (AList.update n []) (\<lambda>_. sh_put n [[]])"

section \<open>Rewriting of operations\<close>

lemma io_bind_eq:
  "io_bind m f w = (r, w2) \<longleftrightarrow>
     (\<exists>x w1. m w = (Ok x, w1) \<and> f x w1 = (r, w2)) \<or>
     (\<exists>s. m w = (Fail s, w2) \<and> r = Fail s)"
  by (auto simp: io_bind_def split: prod.splits res.splits)

lemma io_bind_Ok: "m w = (Ok x, w1) \<Longrightarrow> io_bind m f w = f x w1"
  by (simp add: io_bind_def)

lemma io_bind_Fail: "m w = (Fail s, w1) \<Longrightarrow> io_bind m f w = (Fail s, w1)"
  by (simp add: io_bind_def)

lemma io_lift_eq [simp]: "io_lift r w = (r, w)"
  by (simp add: io_lift_def)

text \<open>What a call can do, whatever the environment.\<close>

lemma syscall_cases:
  assumes "syscall whole part sh shp w = (r, w')"
  obtains (Done) "r = Ok ()" "dir w' = whole (dir w)" "root w' = root w" "disk w' = sh (dir w) (disk w)"
  | (Stopped) s n where "r = Fail s" "dir w' = part n (dir w)" "root w' = root w" "s \<noteq> Panic"
      "disk w' = shp (dir w) (disk w)"
proof (cases "env w")
  case Nil
  then show ?thesis using assms by (auto simp: syscall_def intro: Done)
next
  case (Cons e es)
  then show ?thesis
    using assms by (cases e) (auto simp: syscall_def intro: Done Stopped)
qed

lemma syscall_atomic_cases:
  assumes "syscall_atomic f sh w = (r, w')"
  obtains (Done) "r = Ok ()" "dir w' = f (dir w)" "root w' = root w" "disk w' = sh (dir w) (disk w)"
  | (Stopped) s where "r = Fail s" "dir w' = dir w" "root w' = root w" "s \<noteq> Panic" "disk w' = disk w"
  using assms unfolding syscall_atomic_def by (rule syscall_cases) (auto intro: Done Stopped)

lemma syscall_no_faults:
  "env w = [] \<Longrightarrow> syscall whole part sh shp w = (Ok (), w\<lparr>dir := whole (dir w), disk := sh (dir w) (disk w)\<rparr>)"
  by (simp add: syscall_def)

text \<open>A world whose environment injects no further faults.\<close>

definition calm :: "world \<Rightarrow> world" where
  "calm w = w\<lparr>env := []\<rparr>"

lemma calm_simps [simp]:
  "env (calm w) = []" "dir (calm w) = dir w" "root (calm w) = root w" "disk (calm w) = disk w"
  by (simp_all add: calm_def)

lemma contents_update: "contents (AList.update n c d) m = (if m = n then c else contents d m)"
  by (simp add: contents_def update_conv')

lemma contents_delete: "contents (AList.delete n d) m = (if m = n then [] else contents d m)"
  by (simp add: contents_def delete_conv')

section \<open>What the calls do to the names of the directory\<close>

text \<open>Only one name is touched; a directory keeps having each name once.\<close>

definition same_except :: "bytes \<Rightarrow> world \<Rightarrow> world \<Rightarrow> bool" where
  "same_except n w w' \<longleftrightarrow>
     (\<forall>m. m \<noteq> n \<longrightarrow> map_of (dir w') m = map_of (dir w) m) \<and> root w' = root w \<and>
     (distinct (map fst (dir w)) \<longrightarrow> distinct (map fst (dir w')))"

lemma same_except_refl: "dir w' = dir w \<Longrightarrow> root w' = root w \<Longrightarrow> same_except n w w'"
  by (simp add: same_except_def)

lemma same_except_update:
  "dir w' = AList.update n c (dir w) \<Longrightarrow> root w' = root w \<Longrightarrow> same_except n w w'"
  by (simp add: same_except_def update_conv' distinct_update)

lemma same_except_trans: "same_except n w w1 \<Longrightarrow> same_except n w1 w2 \<Longrightarrow> same_except n w w2"
  by (auto simp: same_except_def)

lemma sys_create_effect:
  assumes "sys_create n w = (r, w')"
  shows "same_except n w w'" and "r = Ok () \<Longrightarrow> map_of (dir w') n = Some []"
  using assms unfolding sys_create_def
  by (auto elim!: syscall_atomic_cases simp: update_conv'
      intro: same_except_refl same_except_update)

lemma sys_append_effect:
  assumes "sys_append n data w = (r, w')"
  shows "same_except n w w'"
    and "r = Ok () \<Longrightarrow> map_of (dir w') n = Some (contents (dir w) n @ data) \<and>
      length (contents (dir w) n @ data) \<le> MAX_FILE_SIZE"
  using assms unfolding sys_append_def
  by (auto elim!: syscall_cases simp: update_conv' split: if_splits intro: same_except_update)

lemma sys_append_prefix:
  assumes "sys_append n data w = (r, w')"
  obtains k where "contents (dir w') n = contents (dir w) n @ take k data"
proof (cases "MAX_FILE_SIZE < length (contents (dir w) n @ data)")
  case True
  then show ?thesis using assms that
    by (auto simp: sys_append_def contents_update)
next
  case False
  then have "syscall (\<lambda>d. AList.update n (contents d n @ data) d)
      (\<lambda>k d. AList.update n (contents d n @ take k data) d)
      (\<lambda>d. sh_put n (growing (contents d n) data)) (\<lambda>d. sh_put n (growing (contents d n) data)) w = (r, w')"
    using assms by (simp add: sys_append_def)
  then show ?thesis
    by (rule syscall_cases) (use that [of "length data"] that in \<open>auto simp: contents_update\<close>)
qed

lemma sys_sync_effect:
  assumes "sys_sync n w = (r, w')"
  shows "dir w' = dir w" "root w' = root w"
  using assms unfolding sys_sync_def by (auto elim!: syscall_atomic_cases)

lemma sys_sync_dir_effect:
  assumes "sys_sync_dir w = (r, w')"
  shows "dir w' = dir w" "root w' = root w"
  using assms unfolding sys_sync_dir_def by (auto elim!: syscall_atomic_cases)

lemma sys_rename_effect:
  assumes "sys_rename a b w = (r, w')" and "map_of (dir w) a = Some c"
  obtains (renamed) "r = Ok ()" "map_of (dir w') = (map_of (dir w))(a := None, b \<mapsto> c)"
      "root w' = root w" "distinct (map fst (dir w)) \<Longrightarrow> distinct (map fst (dir w'))"
  | (failed) s where "r = Fail s" "dir w' = dir w" "root w' = root w"
  using assms unfolding sys_rename_def on_existing_def
  by (auto elim!: syscall_atomic_cases simp: update_conv' delete_conv' contents_def
      distinct_update distinct_delete)

lemma sys_remove_effect:
  assumes "sys_remove n w = (r, w')" and "map_of (dir w) n \<noteq> None"
  obtains (removed) "r = Ok ()" "dir w' = AList.delete n (dir w)" "root w' = root w"
  | (failed) s where "r = Fail s" "dir w' = dir w" "root w' = root w"
  using assms unfolding sys_remove_def on_existing_def by (auto elim!: syscall_atomic_cases)

text \<open>Without faults every call is done.\<close>

lemma sys_calm:
  assumes "env w = []"
  shows "sys_create n w = (Ok (), w\<lparr>dir := AList.update n [] (dir w), disk := sh_put n [[]] (disk w)\<rparr>)"
    and "length (contents (dir w) n @ data) \<le> MAX_FILE_SIZE \<Longrightarrow>
      sys_append n data w = (Ok (), w\<lparr>dir := AList.update n (contents (dir w) n @ data) (dir w),
        disk := sh_put n (growing (contents (dir w) n) data) (disk w)\<rparr>)"
    and "sys_sync n w = (Ok (), w\<lparr>disk := sh_sync n (contents (dir w) n) (disk w)\<rparr>)"
    and "sys_sync_dir w = (Ok (), w\<lparr>disk := sh_sync_dir (disk w)\<rparr>)"
    and "map_of (dir w) a = Some c \<Longrightarrow> sys_rename a b w =
      (Ok (), w\<lparr>dir := AList.update b c (AList.delete a (dir w)), disk := sh_rename a b (disk w)\<rparr>)"
    and "map_of (dir w) n \<noteq> None \<Longrightarrow>
      sys_remove n w = (Ok (), w\<lparr>dir := AList.delete n (dir w), disk := sh_names (AList.delete n) (disk w)\<rparr>)"
    and "sys_truncate n w = (Ok (), w\<lparr>dir := AList.update n [] (dir w), disk := sh_put n [[]] (disk w)\<rparr>)"
    and "map_of (dir w) n \<noteq> None \<Longrightarrow> sys_open_create n w = (Ok (), w\<lparr>disk := sh_link n (disk w)\<rparr>)"
    and "map_of (dir w) n = None \<Longrightarrow>
      sys_open_create n w = (Ok (), w\<lparr>dir := AList.update n [] (dir w), disk := sh_link n (disk w)\<rparr>)"
  using assms
  by (auto simp: sys_create_def sys_append_def sys_sync_def sys_sync_dir_def sys_rename_def sys_remove_def
      sys_truncate_def sys_open_create_def syscall_atomic_def on_existing_def syscall_no_faults
      contents_def)

end
