(* ===== verification/Wal.thy ===== *)
theory Wal
  imports Codec World
begin

text \<open>
  \<^verbatim>\<open>src/src/wal.rs\<close>: the write-ahead log, a file of checksummed frames that is only ever appended
  to, replayed on start and emptied after a flush. The checksum \<open>crc32fast::hash\<close> is the
  parameter \<open>crc\<close> of every definition that computes or checks one.
\<close>

definition CRC_SIZE :: u32 where
  "CRC_SIZE = 4"

datatype operation = Insert | Delete

fun op_to_u8 :: "operation \<Rightarrow> u8" where
  "op_to_u8 Insert = 0"
| "op_to_u8 Delete = 1"

definition op_try_from :: "u8 \<Rightarrow> operation res" where
  "op_try_from value =
     (if value = 0 then Ok Insert
      else if value = 1 then Ok Delete
      else Err InvalidData (str ''Invalid operation byte''))"

record wal_record =
  wkey :: bytes
  wvalue :: bytes
  woperation :: operation

record wal =
  wfile :: bytes
  wsync :: bool

definition wal_open :: "bytes \<Rightarrow> bool \<Rightarrow> wal io" where
  "wal_open path sync =
     io_bind (sys_open_create path) (\<lambda>_. io_lift (Ok \<lparr>wfile = path, wsync = sync\<rparr>))"

definition create_payload :: "bytes \<Rightarrow> bytes \<Rightarrow> operation \<Rightarrow> bytes" where
  "create_payload key val operation = prefixed key @ prefixed val @ [op_to_u8 operation]"

text \<open>The sum \<open>CRC_SIZE + payload.len() as u32\<close> is checked for overflow.\<close>

definition create_body :: "(bytes \<Rightarrow> u32) \<Rightarrow> bytes \<Rightarrow> bytes \<Rightarrow> operation \<Rightarrow> bytes res" where
  "create_body crc key val operation =
     (let payload = create_payload key val operation;
          checksum = crc payload;
          payload_len = word_of_nat (length payload) :: u32
      in if 2 ^ 32 \<le> unat CRC_SIZE + unat payload_len then Fail Panic
         else Ok (u32_to_le (CRC_SIZE + payload_len) @ u32_to_le checksum @ payload))"

definition wal_append :: "(bytes \<Rightarrow> u32) \<Rightarrow> wal \<Rightarrow> bytes \<Rightarrow> bytes \<Rightarrow> operation \<Rightarrow> unit io" where
  "wal_append crc l key val operation =
     io_bind (io_lift (create_body crc key val operation)) (\<lambda>body.
     io_bind (sys_append (wfile l) body) (\<lambda>_.
     if wsync l then sys_sync (wfile l) else io_lift (Ok ())))"

definition wal_insert :: "(bytes \<Rightarrow> u32) \<Rightarrow> wal \<Rightarrow> bytes \<Rightarrow> bytes \<Rightarrow> unit io" where
  "wal_insert crc l key val = wal_append crc l key val Insert"

definition wal_delete :: "(bytes \<Rightarrow> u32) \<Rightarrow> wal \<Rightarrow> bytes \<Rightarrow> unit io" where
  "wal_delete crc l key = wal_append crc l key [] Delete"

text \<open>\<open>payload[i..i + n]\<close> panics when the range leaves the payload.\<close>

definition slice :: "bytes \<Rightarrow> nat \<Rightarrow> nat \<Rightarrow> bytes res" where
  "slice p i n = (if i + n \<le> length p then Ok (take n (drop i p)) else Fail Panic)"

definition parse_record :: "bytes \<Rightarrow> wal_record res" where
  "parse_record payload =
     bind_res (slice payload 0 4) (\<lambda>b1.
     let key_len = unat (u32_from_le b1); cursor1 = 4 in
     bind_res (slice payload cursor1 key_len) (\<lambda>key.
     let cursor2 = cursor1 + key_len in
     bind_res (slice payload cursor2 4) (\<lambda>b2.
     let value_len = unat (u32_from_le b2); cursor3 = cursor2 + 4 in
     bind_res (slice payload cursor3 value_len) (\<lambda>val.
     let cursor4 = cursor3 + value_len in
     bind_res (slice payload cursor4 1) (\<lambda>b3.
     bind_res (op_try_from (hd b3)) (\<lambda>operation.
     Ok \<lparr>wkey = key, wvalue = val, woperation = operation\<rparr>))))))"

function read_loop :: "(bytes \<Rightarrow> u32) \<Rightarrow> bytes \<Rightarrow> wal_record list \<Rightarrow> wal_record list res" where
  "read_loop crc reader records =
     (case read_exact 4 reader of
        Fail s \<Rightarrow> if is_eof s then Ok records else Fail s
      | Ok (length_bytes, reader1) \<Rightarrow>
          let len = u32_from_le length_bytes in
          if len < CRC_SIZE then Ok records
          else
            (case read_exact 4 reader1 of
               Fail s \<Rightarrow> if is_eof s then Ok records else Fail s
             | Ok (checksum_bytes, reader2) \<Rightarrow>
                 let checksum = u32_from_le checksum_bytes in
                 (case read_exact (unat len - unat CRC_SIZE) reader2 of
                    Fail s \<Rightarrow> if is_eof s then Ok records else Fail s
                  | Ok (payload, reader3) \<Rightarrow>
                      if crc payload \<noteq> checksum
                      then Err InvalidData (str ''Checksum mismatch'')
                      else
                        (case parse_record payload of
                           Fail s \<Rightarrow> Fail s
                         | Ok r \<Rightarrow> read_loop crc reader3 (records @ [r])))))"
  by pat_completeness auto
termination
  by (relation "measure (\<lambda>(crc, reader, records). length reader)") (auto simp: res_simps)

declare read_loop.simps [simp del]

definition wal_read :: "(bytes \<Rightarrow> u32) \<Rightarrow> wal \<Rightarrow> wal_record list io" where
  "wal_read crc l w = (read_loop crc (contents (dir w) (wfile l)) [], w)"

definition wal_truncate :: "wal \<Rightarrow> unit io" where
  "wal_truncate l = io_bind (sys_truncate (wfile l)) (\<lambda>_. sys_sync (wfile l))"

section \<open>Frames\<close>

text \<open>
  A record that fits: its frame length is a \<open>u32\<close>. Everything larger would be framed with a
  truncated length, or panics.
\<close>

definition record_fits :: "wal_record \<Rightarrow> bool" where
  "record_fits r \<longleftrightarrow> length (wkey r) + length (wvalue r) + 13 < 2 ^ 32"

definition payload_of :: "wal_record \<Rightarrow> bytes" where
  "payload_of r = create_payload (wkey r) (wvalue r) (woperation r)"

definition frame :: "(bytes \<Rightarrow> u32) \<Rightarrow> wal_record \<Rightarrow> bytes" where
  "frame crc r =
     u32_to_le (word_of_nat (4 + length (payload_of r))) @ u32_to_le (crc (payload_of r)) @
     payload_of r"

definition frames :: "(bytes \<Rightarrow> u32) \<Rightarrow> wal_record list \<Rightarrow> bytes" where
  "frames crc rs = concat (map (frame crc) rs)"

lemma length_payload_of [simp]: "length (payload_of r) = length (wkey r) + length (wvalue r) + 9"
  by (simp add: payload_of_def create_payload_def)

lemma length_frame [simp]: "length (frame crc r) = 17 + length (wkey r) + length (wvalue r)"
  by (simp add: frame_def)

lemma frames_simps [simp]:
  "frames crc [] = []" "frames crc (r # rs) = frame crc r @ frames crc rs"
  "frames crc (rs @ rs') = frames crc rs @ frames crc rs'"
  by (simp_all add: frames_def)

lemma create_body_frame:
  assumes "record_fits r"
  shows "create_body crc (wkey r) (wvalue r) (woperation r) = Ok (frame crc r)"
proof -
  have n: "4 + length (payload_of r) < 2 ^ 32" using assms by (simp add: record_fits_def)
  then have "unat (word_of_nat (length (payload_of r)) :: u32) = length (payload_of r)"
    by (intro unat_of_nat_u32) simp
  then show ?thesis
    using n by (simp add: create_body_def CRC_SIZE_def Let_def frame_def
        flip: payload_of_def del: length_payload_of)
qed

lemma op_try_from_to_u8 [codec_simps]: "op_try_from (op_to_u8 x) = Ok x"
  by (cases x) (simp_all add: op_try_from_def)

lemma parse_record_payload_of [codec_simps]:
  assumes "record_fits r"
  shows "parse_record (payload_of r) = Ok r"
proof -
  have "unat (word_of_nat (length (wkey r)) :: u32) = length (wkey r)"
    and "unat (word_of_nat (length (wvalue r)) :: u32) = length (wvalue r)"
    using assms by (auto simp: record_fits_def intro: unat_of_nat_u32)
  then show ?thesis
    by (simp add: parse_record_def payload_of_def create_payload_def prefixed_def slice_def
        Let_def op_try_from_to_u8)
qed

text \<open>One turn of the replay loop, seen from the bytes.\<close>

lemma read_loop_eof: "length reader < 4 \<Longrightarrow> read_loop crc reader acc = Ok acc"
  by (subst read_loop.simps) simp

lemma unat_CRC_SIZE [simp]: "unat CRC_SIZE = 4"
  by (simp add: CRC_SIZE_def)

lemma not_below_CRC_SIZE: "\<not> w < CRC_SIZE \<longleftrightarrow> 4 \<le> unat w"
  by (simp add: word_less_nat_alt not_less)

lemma read_loop_torn:
  assumes "4 \<le> unat len" and "length rest < unat len"
  shows "read_loop crc (u32_to_le len @ rest) acc = Ok acc"
proof (cases "length rest < 4")
  case True
  then show ?thesis
    by (subst read_loop.simps) (simp add: read_exact_append Let_def)
next
  case False
  then obtain cb rest' where rest: "rest = cb @ rest'" "length cb = 4"
    by (metis append_take_drop_id length_take min.absorb2 not_le)
  then have "length rest' < unat len - 4" using assms by simp
  then show ?thesis using rest
    by (subst read_loop.simps) (simp add: read_exact_append Let_def)
qed

lemma read_loop_full:
  assumes "unat len = 4 + length payload"
  shows "read_loop crc (u32_to_le len @ u32_to_le c @ payload @ rest) acc =
     (if crc payload \<noteq> c then Err InvalidData (str ''Checksum mismatch'')
      else bind_res (parse_record payload) (\<lambda>r. read_loop crc rest (acc @ [r])))"
proof -
  have "\<not> len < CRC_SIZE" using assms by (simp add: not_below_CRC_SIZE)
  then show ?thesis using assms
    by (subst read_loop.simps)
      (simp add: read_exact_append Let_def split: res.split)
qed

lemma read_loop_frame:
  assumes "record_fits r"
  shows "read_loop crc (frame crc r @ rest) acc = read_loop crc rest (acc @ [r])"
proof -
  have "unat (word_of_nat (4 + length (payload_of r)) :: u32) = 4 + length (payload_of r)"
    using assms by (intro unat_of_nat_u32) (simp add: record_fits_def)
  then show ?thesis
    using read_loop_full [of "word_of_nat (4 + length (payload_of r))" "payload_of r" crc
        "crc (payload_of r)" rest acc] assms
    by (simp add: frame_def parse_record_payload_of)
qed

lemma read_loop_frames:
  "\<forall>r \<in> set rs. record_fits r \<Longrightarrow>
     read_loop crc (frames crc rs @ rest) acc = read_loop crc rest (acc @ rs)"
  by (induction rs arbitrary: acc) (simp_all add: read_loop_frame)

text \<open>Replay is lazy in its accumulator: it only ever appends to it.\<close>

lemma read_loop_frame_prefix:
  assumes "record_fits r" and "n < length (frame crc r)"
  shows "read_loop crc (take n (frame crc r)) acc = Ok acc"
proof (cases "n < 4")
  case True
  then show ?thesis by (intro read_loop_eof) simp
next
  case False
  let ?len = "word_of_nat (4 + length (payload_of r)) :: u32"
  have len: "unat ?len = 4 + length (payload_of r)"
    using assms(1) by (intro unat_of_nat_u32) (simp add: record_fits_def)
  have "take n (frame crc r) =
      u32_to_le ?len @ take (n - 4) (u32_to_le (crc (payload_of r)) @ payload_of r)"
    using False by (simp add: frame_def)
  moreover have "n - 4 < unat ?len" using assms(2) False len by simp
  ultimately show ?thesis
    using len read_loop_torn [of ?len "take (n - 4) (u32_to_le (crc (payload_of r)) @ payload_of r)"]
    by simp
qed

section \<open>Operations under faults\<close>

lemma wal_append_effect:
  assumes op: "wal_append crc l (wkey x) (wvalue x) (woperation x) w = (r, w')" and fits: "record_fits x"
  shows "same_except (wfile l) w w'"
    and "\<exists>n. contents (dir w') (wfile l) = contents (dir w) (wfile l) @ take n (frame crc x)"
    and "r = Ok () \<Longrightarrow>
      map_of (dir w') (wfile l) = Some (contents (dir w) (wfile l) @ frame crc x)"
proof -
  obtain q w1 where a: "sys_append (wfile l) (frame crc x) w = (q, w1)" by force
  then have op': "(r, w') = (case q of Fail s \<Rightarrow> (Fail s, w1)
      | Ok u \<Rightarrow> if wsync l then sys_sync (wfile l) w1 else (Ok (), w1))"
    using op create_body_frame [OF fits, of crc]
    by (cases q) (auto simp: wal_append_def io_bind_def split: if_splits)
  have dirs: "dir w' = dir w1 \<and> root w' = root w1"
    using op' sys_sync_effect [of "wfile l" w1 r w'] by (cases q) (auto split: if_splits)
  show "same_except (wfile l) w w'"
    using sys_append_effect(1) [OF a] dirs by (simp add: same_except_def)
  show "\<exists>n. contents (dir w') (wfile l) = contents (dir w) (wfile l) @ take n (frame crc x)"
    using sys_append_prefix [OF a] dirs by metis
  show "map_of (dir w') (wfile l) = Some (contents (dir w) (wfile l) @ frame crc x)" if "r = Ok ()"
    using sys_append_effect(2) [OF a] dirs op' that by (cases q) (auto split: if_splits)
qed

lemma wal_truncate_effect:
  assumes "wal_truncate l w = (r, w')"
  shows "same_except (wfile l) w w'"
    and "dir w' = dir w \<or> map_of (dir w') (wfile l) = Some []"
    and "r = Ok () \<Longrightarrow> map_of (dir w') (wfile l) = Some []"
proof -
  obtain q w1 where t: "sys_truncate (wfile l) w = (q, w1)" by force
  have t1: "same_except (wfile l) w w1 \<and> (q = Ok () \<longrightarrow> map_of (dir w1) (wfile l) = Some []) \<and>
      (\<forall>s. q = Fail s \<longrightarrow> dir w1 = dir w)"
    using t unfolding sys_truncate_def
    by (auto elim!: syscall_atomic_cases simp: update_conv' intro: same_except_update same_except_refl)
  have op: "(r, w') = (case q of Fail s \<Rightarrow> (Fail s, w1) | Ok u \<Rightarrow> sys_sync (wfile l) w1)"
    using assms t by (cases q) (auto simp: wal_truncate_def io_bind_def)
  have dirs: "dir w' = dir w1 \<and> root w' = root w1"
    using op sys_sync_effect [of "wfile l" w1 r w'] by (cases q) auto
  show "same_except (wfile l) w w'" using t1 dirs by (simp add: same_except_def)
  show "dir w' = dir w \<or> map_of (dir w') (wfile l) = Some []" using t1 dirs by (cases q) auto
  show "r = Ok () \<Longrightarrow> map_of (dir w') (wfile l) = Some []" using t1 dirs op by (cases q) auto
qed

text \<open>A torn record with its length intact also swallows what follows it.\<close>

lemma read_loop_torn_append:
  assumes "\<forall>r \<in> set rs. record_fits r" and "record_fits x" and "4 \<le> n"
    and "n + length added < length (frame crc x)"
  shows "read_loop crc (frames crc rs @ take n (frame crc x) @ added) [] = Ok rs"
proof -
  let ?len = "word_of_nat (4 + length (payload_of x)) :: u32"
  let ?rest = "take (n - 4) (u32_to_le (crc (payload_of x)) @ payload_of x) @ added"
  have len: "unat ?len = 4 + length (payload_of x)"
    using assms(2) by (intro unat_of_nat_u32) (simp add: record_fits_def)
  have "take n (frame crc x) @ added = u32_to_le ?len @ ?rest"
    using assms(3) by (simp add: frame_def)
  moreover have "length ?rest < unat ?len" using assms(3,4) len by simp
  ultimately show ?thesis
    using len read_loop_torn [of ?len ?rest crc rs] assms(1) by (simp add: read_loop_frames)
qed

section \<open>Properties\<close>

text \<open>C12: what was appended reads back: a log of whole records, possibly followed by a prefix of one
  more that a crash cut off, replays to exactly the whole records, in order.\<close>

theorem wal_replay_recovers:
  assumes "\<forall>r \<in> set rs. record_fits r" and "record_fits x" and "n < length (frame crc x)"
    and "contents (dir w) (wfile l) = frames crc rs @ take n (frame crc x)"
  shows "wal_read crc l w = (Ok rs, w)"
  using assms by (simp add: wal_read_def read_loop_frames read_loop_frame_prefix)

theorem wal_replay_recovers_witness:
  "fst (wal_read (\<lambda>bs. of_nat (length bs)) \<lparr>wfile = [1], wsync = True\<rparr>
     (world_of Directory [([1], frames (\<lambda>bs. of_nat (length bs))
        [\<lparr>wkey = [107], wvalue = [118], woperation = Insert\<rparr>] @
        take 5 (frame (\<lambda>bs. of_nat (length bs)) \<lparr>wkey = [107], wvalue = [], woperation = Delete\<rparr>))] [])) = Ok [\<lparr>wkey = [107], wvalue = [118], woperation = Insert\<rparr>]"
  by (subst wal_replay_recovers [where rs = "[\<lparr>wkey = [107], wvalue = [118], woperation = Insert\<rparr>]"
        and x = "\<lparr>wkey = [107], wvalue = [], woperation = Delete\<rparr>" and n = 5])
    (simp_all add: record_fits_def contents_def)

text \<open>C13: a record of the log whose payload does not have the stored checksum is reported as invalid
  data, whatever follows it and however many good records precede it.\<close>

theorem wal_corruption_detected:
  assumes "\<forall>r \<in> set rs. record_fits r" and "length payload + 4 < 2 ^ 32" and "crc payload \<noteq> c"
    and "contents (dir w) (wfile l) =
      frames crc rs @ u32_to_le (word_of_nat (4 + length payload)) @ u32_to_le c @ payload @ rest"
  shows "wal_read crc l w = (Err InvalidData (str ''Checksum mismatch''), w)"
proof -
  have "unat (word_of_nat (4 + length payload) :: u32) = 4 + length payload"
    using assms(2) by (intro unat_of_nat_u32) simp
  from read_loop_full [OF this, of crc c rest rs] show ?thesis
    using assms by (simp add: wal_read_def read_loop_frames)
qed

theorem wal_corruption_detected_witness:
  "fst (wal_read (\<lambda>bs. of_nat (length bs)) \<lparr>wfile = [1], wsync = True\<rparr>
     (world_of Directory [([1], u32_to_le (word_of_nat (4 + length [9 :: u8])) @ u32_to_le 5 @ [9] @ [1, 2])] [])) = Err InvalidData (str ''Checksum mismatch'')"
  by (subst wal_corruption_detected [where rs = "[]" and payload = "[9]" and c = 5 and rest = "[1, 2]"])
    (simp_all add: contents_def)

text \<open>An append that reports success has put the whole record at the end of the log, and nothing
  else; whatever happens, what it leaves is the old log and a prefix of the record.\<close>

lemma wal_insert_appends:
  assumes "length key + length val + 13 < 2 ^ 32" and "wal_insert crc l key val w = (r, w')"
  shows "(\<exists>n. contents (dir w') (wfile l) = contents (dir w) (wfile l) @
      take n (frame crc \<lparr>wkey = key, wvalue = val, woperation = Insert\<rparr>)) \<and>
    (r = Ok () \<longrightarrow> contents (dir w') (wfile l) = contents (dir w) (wfile l) @
      frame crc \<lparr>wkey = key, wvalue = val, woperation = Insert\<rparr>) \<and>
    (\<forall>n. n \<noteq> wfile l \<longrightarrow> map_of (dir w') n = map_of (dir w) n)"
  using wal_append_effect [of crc l "\<lparr>wkey = key, wvalue = val, woperation = Insert\<rparr>" w r w'] assms
  by (auto simp: wal_insert_def record_fits_def contents_def same_except_def)

text \<open>A torn record that was left in the log swallows what is appended after it, as long as that
  is shorter than what the torn record still claims: replay ends silently before the new record.\<close>

theorem wal_torn_tail_hides_appends:
  assumes "\<forall>r \<in> set rs. record_fits r" and "record_fits x" and "4 \<le> n"
    and "n + length added < length (frame crc x)"
    and "contents (dir w) (wfile l) = frames crc rs @ take n (frame crc x) @ added"
  shows "wal_read crc l w = (Ok rs, w)"
  using read_loop_torn_append [OF assms(1-4)] assms(5) by (simp add: wal_read_def)

theorem wal_torn_tail_hides_appends_witness:
  "fst (wal_read (\<lambda>bs. 0) \<lparr>wfile = [1], wsync = True\<rparr>
     (world_of Directory [([1], take 4 (frame (\<lambda>bs. 0) \<lparr>wkey = [1, 2, 3, 4], wvalue = [5], woperation = Insert\<rparr>) @
        frame (\<lambda>bs. 0) \<lparr>wkey = [], wvalue = [], woperation = Delete\<rparr>)] [])) = Ok []"
  by (subst wal_torn_tail_hides_appends [where rs = "[]" and n = 4
        and x = "\<lparr>wkey = [1, 2, 3, 4], wvalue = [5], woperation = Insert\<rparr>"
        and added = "frame (\<lambda>bs. 0) \<lparr>wkey = [], wvalue = [], woperation = Delete\<rparr>"])
    (simp_all add: record_fits_def contents_def)

end
