(* ===== verification/Hash.thy ===== *)
theory Hash
  imports Prelude
begin

text \<open>
  \<^verbatim>\<open>src/src/hash.rs\<close>: FNV-1a over the bytes of a key, then the MurmurHash3 finaliser. The
  64-bit products wrap, as \<open>wrapping_mul\<close> does.
\<close>

definition FNV_OFFSET_BASIS :: u64 where
  "FNV_OFFSET_BASIS = 0xcbf29ce484222325"

definition FNV_PRIME :: u64 where
  "FNV_PRIME = 0x00000100000001b3"

definition mix :: "u64 \<Rightarrow> u64" where
  "mix hash0 =
     (let hash1 = hash0 XOR drop_bit 33 hash0;
          hash2 = hash1 * 0xff51afd7ed558ccd;
          hash3 = hash2 XOR drop_bit 33 hash2;
          hash4 = hash3 * 0xc4ceb9fe1a85ec53;
          hash5 = hash4 XOR drop_bit 33 hash4
      in hash5)"

definition hash_step :: "u64 \<Rightarrow> u8 \<Rightarrow> u64" where
  "hash_step hash byte = (hash XOR ucast byte) * FNV_PRIME"

definition hash64 :: "bytes \<Rightarrow> u64" where
  "hash64 bs = mix (foldl hash_step FNV_OFFSET_BASIS bs)"

section \<open>The finaliser and the steps lose nothing\<close>

definition xorshift33 :: "u64 \<Rightarrow> u64" where
  "xorshift33 h = h XOR drop_bit 33 h"

lemma xorshift33_involution: "xorshift33 (xorshift33 h) = h"
  unfolding xorshift33_def
  by (rule bit_word_eqI) (auto simp: bit_xor_iff bit_drop_bit_eq dest: bit_imp_le_length)

lemma mul_inverse_cancel: "(c::u64) * d = 1 \<Longrightarrow> x * c * d = x"
  by (simp add: mult.assoc)

lemma mix_steps:
  "mix h = xorshift33 (xorshift33 (xorshift33 h * 0xff51afd7ed558ccd) * 0xc4ceb9fe1a85ec53)"
  by (simp only: mix_def xorshift33_def Let_def)

definition unmix :: "u64 \<Rightarrow> u64" where
  "unmix h =
     xorshift33 (xorshift33 (xorshift33 h * 0x9cb4b2f8129337db) * 0x4f74430c22a54005)"

lemma finaliser_inverses:
  "(0xff51afd7ed558ccd :: u64) * 0x4f74430c22a54005 = 1"
  "(0xc4ceb9fe1a85ec53 :: u64) * 0x9cb4b2f8129337db = 1"
  "(0x4f74430c22a54005 :: u64) * 0xff51afd7ed558ccd = 1"
  "(0x9cb4b2f8129337db :: u64) * 0xc4ceb9fe1a85ec53 = 1"
  by simp_all

lemma unmix_mix: "unmix (mix h) = h"
  unfolding unmix_def mix_steps
  by (simp only: xorshift33_involution mul_inverse_cancel finaliser_inverses)

lemma mix_unmix: "mix (unmix h) = h"
  unfolding unmix_def mix_steps
  by (simp only: xorshift33_involution mul_inverse_cancel finaliser_inverses)

lemma mix_inject: "mix g = mix h \<longleftrightarrow> g = h"
  by (metis unmix_mix)

lemma hash_step_inject: "hash_step g b = hash_step h b \<longleftrightarrow> g = h"
proof -
  have "FNV_PRIME * 0xce965057aff6957b = 1" by (simp add: FNV_PRIME_def)
  then have undo: "hash_step h b * 0xce965057aff6957b = h XOR ucast b" for h
    unfolding hash_step_def by (rule mul_inverse_cancel)
  show ?thesis
  proof
    assume "hash_step g b = hash_step h b"
    then have "g XOR ucast b = h XOR ucast b" using undo [of g] undo [of h] by simp
    then have "(g XOR ucast b) XOR ucast b = (h XOR ucast b) XOR ucast b" by simp
    then show "g = h" by (simp only: xor.assoc xor_self_eq xor.right_neutral)
  qed simp
qed

lemma ucast_eq_ucast_u8: "(ucast (b :: u8) :: u64) = ucast c \<longleftrightarrow> b = c"
proof
  assume "(ucast b :: u64) = ucast c"
  then have "unat (ucast b :: u64) = unat (ucast c :: u64)" by simp
  then show "b = c"
    using unat_less_u8 [of b] unat_less_u8 [of c]
    by (simp add: unsigned_ucast_eq take_bit_nat_eq_self_iff word_unat_eq_iff take_bit_nat_eq_self)
qed simp

section \<open>Properties\<close>

text \<open>The finaliser of the hash is a bijection on 64-bit words, with \<open>unmix\<close> as its inverse: no two
  FNV states are merged by it.\<close>

lemma mix_bijective: "bij mix \<and> (\<forall>h. unmix (mix h) = h \<and> mix (unmix h) = h)"
  using unmix_mix mix_unmix by (metis bijI')

text \<open>Two keys of the same length that differ in their last byte only never hash alike.\<close>

theorem hash64_last_byte: "hash64 (bs @ [b]) = hash64 (bs @ [c]) \<longleftrightarrow> b = c"
proof
  assume "hash64 (bs @ [b]) = hash64 (bs @ [c])"
  then have step: "hash_step (foldl hash_step FNV_OFFSET_BASIS bs) b =
      hash_step (foldl hash_step FNV_OFFSET_BASIS bs) c"
    by (simp add: hash64_def mix_inject)
  have "FNV_PRIME * 0xce965057aff6957b = 1" by (simp add: FNV_PRIME_def)
  then have "h * FNV_PRIME * 0xce965057aff6957b = h" for h by (rule mul_inverse_cancel)
  then have "foldl hash_step FNV_OFFSET_BASIS bs XOR ucast b = foldl hash_step FNV_OFFSET_BASIS bs XOR ucast c"
    using step unfolding hash_step_def by metis
  then have "(ucast b :: u64) = ucast c"
  proof -
    let ?a = "foldl hash_step FNV_OFFSET_BASIS bs"
    assume "?a XOR ucast b = ?a XOR ucast c"
    then have "?a XOR (?a XOR ucast b) = ?a XOR (?a XOR ucast c)" by simp
    then show ?thesis by (simp flip: xor.assoc)
  qed
  then show "b = c" by (simp add: ucast_eq_ucast_u8)
qed simp

text \<open>The values that the tests of the repository pin: of nothing, \<open>a\<close>, \<open>cat\<close> and \<open>key00000042\<close>.\<close>

lemma hash64_pinned:
  "hash64 [] = 0xefd01f60ba992926" "hash64 [97] = 0x82a2a958a9bece5b"
  "hash64 [99, 97, 116] = 0x98e25a302c6eb1d4"
  "hash64 [107, 101, 121, 48, 48, 48, 48, 48, 48, 52, 50] = 0x2b413d9fa190dbb1"
  by (simp_all add: hash64_def hash_step_def mix_def FNV_OFFSET_BASIS_def FNV_PRIME_def Let_def)

end
