(* ===== verification/Float64.thy ===== *)
theory Float64
  imports Prelude
begin

text \<open>
  The little floating point the store does: \<open>as f64\<close>, one multiplication, \<open>round\<close>, \<open>as u32\<close>
  and one comparison, in the filter's probe count and in the choice of a run to compact. A finite
  double is \<open>m * 2 ^ e\<close> with an integer mantissa; conversions and products round to 53 bits, to
  nearest, ties to even. Exponents are unbounded. The products made here are of an integer below
  \<open>2 ^ 64\<close> and a finite double and are only compared with integers below \<open>2 ^ 64\<close> or cast to
  \<open>u32\<close>, so that neither overflow to infinity nor underflow would change an answer.
\<close>

datatype f64 = F64 (mant: int) (expo: int)

fun bit_len :: "nat \<Rightarrow> nat" where
  "bit_len n = (if n = 0 then 0 else Suc (bit_len (n div 2)))"

declare bit_len.simps [simp del]

text \<open>\<open>n / 2 ^ s\<close> to the nearest integer, ties to even.\<close>

definition round_even :: "nat \<Rightarrow> nat \<Rightarrow> nat" where
  "round_even n s =
     (let q = n div 2 ^ s; r = n mod 2 ^ s
      in if 2 * r < 2 ^ s \<or> (2 * r = 2 ^ s \<and> even q) then q else Suc q)"

definition f64_nearest :: "int \<Rightarrow> int \<Rightarrow> f64" where
  "f64_nearest m e =
     (let n = nat \<bar>m\<bar>; s = bit_len n - 53
      in F64 (sgn m * int (round_even n s)) (e + int s))"

definition f64_of_nat :: "nat \<Rightarrow> f64" where
  "f64_of_nat n = f64_nearest (int n) 0"

definition f64_mult :: "f64 \<Rightarrow> f64 \<Rightarrow> f64" where
  "f64_mult x y = f64_nearest (mant x * mant y) (expo x + expo y)"

definition f64_less :: "f64 \<Rightarrow> f64 \<Rightarrow> bool" where
  "f64_less x y \<longleftrightarrow>
     (let e = min (expo x) (expo y)
      in mant x * 2 ^ nat (expo x - e) < mant y * 2 ^ nat (expo y - e))"

text \<open>\<open>x.round() as u32\<close>: to the nearest integer, ties away from zero, then a saturating cast.\<close>

definition f64_round_u32 :: "f64 \<Rightarrow> nat" where
  "f64_round_u32 x =
     (let n = nat (mant x)
      in min (2 ^ 32 - 1)
           (if 0 \<le> expo x then n * 2 ^ nat (expo x)
            else (2 * n + 2 ^ nat (- expo x)) div (2 * 2 ^ nat (- expo x))))"

text \<open>\<open>std::f64::consts::LN_2\<close>.\<close>

definition LN_2 :: f64 where
  "LN_2 = F64 6243314768165359 (-53)"

lemma bit_len_0 [simp]: "bit_len 0 = 0"
  by (simp add: bit_len.simps)

lemma bit_len_less: "n < 2 ^ k \<Longrightarrow> bit_len n \<le> k"
proof (induction k arbitrary: n)
  case 0
  then show ?case by simp
next
  case (Suc k)
  then have "bit_len (n div 2) \<le> k" by (intro Suc.IH) auto
  then show ?case by (subst bit_len.simps) simp
qed

lemma round_even_0 [simp]: "round_even n 0 = n"
  by (simp add: round_even_def)

text \<open>Integers of up to 53 bits convert exactly.\<close>

lemma f64_of_nat_exact: "n < 2 ^ 53 \<Longrightarrow> f64_of_nat n = F64 (int n) 0"
  using bit_len_less [of n 53] by (simp add: f64_of_nat_def f64_nearest_def sgn_if)

end
