(* ===== verification/Bloom.thy ===== *)
theory Bloom
  imports Float64
begin

text \<open>
  \<^verbatim>\<open>src/src/bloom.rs\<close>: the filter of a table, as the words of its bit array with the two
  parameters that are stored beside them. A filter read from a file can carry any parameters, so
  that the remainder by \<open>num_bits\<close> and the index into \<open>bits\<close> can panic; \<open>wf_bloom\<close> says
  when they do not, and every filter that \<open>bloom_new\<close> makes satisfies it for good.
\<close>

record bloom =
  bits :: "u64 list"
  num_bits :: u64
  num_probes :: u32

definition bloom_new :: "nat \<Rightarrow> nat \<Rightarrow> bloom res" where
  "bloom_new num_keys bits_per_key =
     (let requested = max (min (num_keys * bits_per_key) (2 ^ 64 - 1)) 64;
          words = (requested + 63) div 64
      in if 2 ^ 64 \<le> words * 64 then Fail Panic
         else
           let num_bits = word_of_nat (words * 64);
               num_probes = word_of_nat
                 (min 30 (max 1 (f64_round_u32 (f64_mult (f64_of_nat bits_per_key) LN_2))))
           in Ok \<lparr>bits = replicate words 0, num_bits = num_bits, num_probes = num_probes\<rparr>)"

definition bloom_from_parts :: "u64 list \<Rightarrow> u64 \<Rightarrow> u32 \<Rightarrow> bloom" where
  "bloom_from_parts words nb np = \<lparr>bits = words, num_bits = nb, num_probes = np\<rparr>"

definition probe_start :: "u64 \<Rightarrow> u64" where
  "probe_start hash = ucast (ucast hash :: u32)"

definition probe_stride :: "u64 \<Rightarrow> u64" where
  "probe_stride hash = ucast ((ucast (drop_bit 32 hash) :: u32) OR 1)"

definition probe :: "bloom \<Rightarrow> u64 \<Rightarrow> u32 \<Rightarrow> u64 res" where
  "probe f hash i =
     (let start = probe_start hash; stride = probe_stride hash
      in if num_bits f = 0 then Fail Panic
         else Ok ((start + ucast i * stride) mod num_bits f))"

definition probe_indices :: "bloom \<Rightarrow> u32 list" where
  "probe_indices f = map word_of_nat [0..<unat (num_probes f)]"

definition set_probe :: "u64 \<Rightarrow> bloom \<Rightarrow> u32 \<Rightarrow> bloom res" where
  "set_probe hash f i =
     bind_res (probe f hash i) (\<lambda>bit.
       let j = unat (bit div 64)
       in if j < length (bits f)
          then Ok (f\<lparr>bits := (bits f)[j := bits f ! j OR push_bit (unat (bit mod 64)) 1]\<rparr>)
          else Fail Panic)"

definition bloom_insert :: "bloom \<Rightarrow> u64 \<Rightarrow> bloom res" where
  "bloom_insert f hash = fold_res (set_probe hash) f (probe_indices f)"

definition test_probe :: "bloom \<Rightarrow> u64 \<Rightarrow> u32 \<Rightarrow> bool res" where
  "test_probe f hash i =
     bind_res (probe f hash i) (\<lambda>bit.
       let j = unat (bit div 64)
       in if j < length (bits f)
          then Ok (drop_bit (unat (bit mod 64)) (bits f ! j) AND 1 = 1)
          else Fail Panic)"

text \<open>\<open>Iterator::all\<close> with a predicate that can panic: stops at the first \<open>False\<close>.\<close>

fun all_res :: "('a \<Rightarrow> bool res) \<Rightarrow> 'a list \<Rightarrow> bool res" where
  "all_res p [] = Ok True"
| "all_res p (x # xs) = bind_res (p x) (\<lambda>b. if b then all_res p xs else Ok False)"

definition bloom_contains :: "bloom \<Rightarrow> u64 \<Rightarrow> bool res" where
  "bloom_contains f hash = all_res (test_probe f hash) (probe_indices f)"

section \<open>Well-formed filters never panic\<close>

definition wf_bloom :: "bloom \<Rightarrow> bool" where
  "wf_bloom f \<longleftrightarrow> 0 < num_bits f \<and> unat (num_bits f) = 64 * length (bits f)"

text \<open>The position that probe \<open>i\<close> of a hash visits, and the bit that is there.\<close>

definition probe_pos :: "bloom \<Rightarrow> u64 \<Rightarrow> u32 \<Rightarrow> nat" where
  "probe_pos f hash i =
     (unat (probe_start hash) + unat i * unat (probe_stride hash)) mod unat (num_bits f)"

definition bit_at :: "bloom \<Rightarrow> nat \<Rightarrow> bool" where
  "bit_at f n = bit (bits f ! (n div 64)) (n mod 64)"

lemma probe_start_bound: "unat (probe_start h) < 2 ^ 32"
  by (simp add: probe_start_def unsigned_ucast_eq unsigned_take_bit_eq take_bit_nat_def)

lemma probe_stride_bound: "unat (probe_stride h) < 2 ^ 32"
  using unat_less_u32 [of "ucast (drop_bit 32 h) OR 1"]
  by (simp add: probe_stride_def unsigned_ucast_eq
      le_less_trans [OF take_bit_nat_less_eq_self])

text \<open>The walk of a filter stays below \<open>2 ^ 64\<close>, whatever the number of probes.\<close>

lemma probe_walk_bound:
  "unat (probe_start h) + unat (i :: u32) * unat (probe_stride h) < 2 ^ 64"
proof -
  have "unat i \<le> 2 ^ 32 - 1" using unat_less_u32 [of i] by simp
  moreover have "unat (probe_stride h) \<le> 2 ^ 32 - 1" using probe_stride_bound [of h] by simp
  ultimately have "unat i * unat (probe_stride h) \<le> (2 ^ 32 - 1) * (2 ^ 32 - 1)"
    by (rule mult_le_mono)
  then show ?thesis using probe_start_bound [of h] by simp
qed

lemma probe_walk_exact:
  "unat (probe_start h + ucast i * probe_stride h) =
     unat (probe_start h) + unat (i :: u32) * unat (probe_stride h)"
proof -
  have i: "unat (ucast i :: u64) = unat i"
    using unat_less_u32 [of i] by (simp add: unsigned_ucast_eq take_bit_nat_eq_self_iff)
  have "unat i * unat (probe_stride h) < 2 ^ 64"
    using probe_walk_bound [of h i] by simp
  then have "unat (ucast i * probe_stride h) = unat i * unat (probe_stride h)"
    by (simp add: unat_word_ariths i)
  then show ?thesis using probe_walk_bound [of h i] by (simp add: unat_word_ariths)
qed

lemma probe_wf [wf_simps]:
  assumes "wf_bloom f"
  shows "probe f h i = Ok (word_of_nat (probe_pos f h i))"
    and "probe_pos f h i < 64 * length (bits f)"
    and "unat (word_of_nat (probe_pos f h i) :: u64) = probe_pos f h i"
proof -
  have "num_bits f \<noteq> 0" using assms by (auto simp: wf_bloom_def)
  then have pos: "0 < unat (num_bits f)" by (simp only: unat_gt_0 not_False_eq_True)
  then have "probe_pos f h i < unat (num_bits f)" by (simp add: probe_pos_def)
  then show bound: "probe_pos f h i < 64 * length (bits f)"
    using assms by (simp add: wf_bloom_def)
  have "probe_pos f h i < 2 ^ 64"
    using bound assms unat_less_u64 [of "num_bits f"] by (simp add: wf_bloom_def)
  then show "unat (word_of_nat (probe_pos f h i) :: u64) = probe_pos f h i"
    by (simp add: unat_of_nat)
  have "num_bits f \<noteq> 0" using assms by (auto simp: wf_bloom_def)
  then show "probe f h i = Ok (word_of_nat (probe_pos f h i))"
    by (simp add: probe_def probe_pos_def Let_def word_of_nat_eq_iff
        flip: probe_walk_exact unat_mod word_unat_eq_iff)
qed

lemma bit_and_1: "drop_bit n (w :: u64) AND 1 = 1 \<longleftrightarrow> bit w n"
  by (simp add: and_one_eq mod_2_eq_odd bit_iff_odd_drop_bit)

lemma unat_div_64: "unat (word_of_nat n div 64 :: u64) = unat (word_of_nat n :: u64) div 64"
  by (simp add: unat_div)

lemma unat_mod_64: "unat (word_of_nat n mod 64 :: u64) = unat (word_of_nat n :: u64) mod 64"
  by (simp add: unat_mod)

lemma set_probe_wf:
  assumes "wf_bloom f"
  shows "\<exists>g. set_probe h f i = Ok g \<and> wf_bloom g \<and> num_bits g = num_bits f \<and>
    num_probes g = num_probes f \<and> length (bits g) = length (bits f) \<and>
    (\<forall>n < 64 * length (bits f). bit_at g n \<longleftrightarrow> n = probe_pos f h i \<or> bit_at f n)"
proof -
  define p where "p = probe_pos f h i"
  note pw = probe_wf [OF assms, of h i, folded p_def]
  define g where
    "g = f\<lparr>bits := (bits f)[p div 64 := bits f ! (p div 64) OR push_bit (p mod 64) 1]\<rparr>"
  have j: "p div 64 < length (bits f)" using pw(2) by simp
  have "set_probe h f i = Ok g"
    using j by (simp add: set_probe_def pw g_def unat_div_64 unat_mod_64 Let_def)
  moreover have "bit_at g n \<longleftrightarrow> n = p \<or> bit_at f n" if "n < 64 * length (bits f)" for n
  proof (cases "n div 64 = p div 64")
    case True
    then have "n mod 64 = p mod 64 \<longleftrightarrow> n = p" by (metis div_mult_mod_eq)
    moreover have "bit (bits g ! (n div 64)) (n mod 64) \<longleftrightarrow>
        bit (bits f ! (n div 64)) (n mod 64) \<or> n mod 64 = p mod 64"
      using True j by (auto simp: g_def bit_or_iff bit_exp_iff)
    ultimately show ?thesis by (auto simp: bit_at_def)
  next
    case False
    then show ?thesis by (auto simp: bit_at_def g_def)
  qed
  moreover have "wf_bloom g" using assms by (simp add: wf_bloom_def g_def)
  ultimately show ?thesis by (auto simp: g_def p_def)
qed

lemma probe_pos_cong: "num_bits g = num_bits f \<Longrightarrow> probe_pos g h i = probe_pos f h i"
  by (simp add: probe_pos_def)

lemma probe_indices_cong: "num_probes g = num_probes f \<Longrightarrow> probe_indices g = probe_indices f"
  by (simp add: probe_indices_def)

lemma fold_set_probe_wf:
  assumes "wf_bloom f"
  shows "\<exists>g. fold_res (set_probe h) f js = Ok g \<and> wf_bloom g \<and> num_bits g = num_bits f \<and>
    num_probes g = num_probes f \<and> length (bits g) = length (bits f) \<and>
    (\<forall>n < 64 * length (bits f).
       bit_at g n \<longleftrightarrow> (\<exists>i \<in> set js. n = probe_pos f h i) \<or> bit_at f n)"
  using assms
proof (induction js arbitrary: f)
  case Nil
  then show ?case by simp
next
  case (Cons i js)
  from set_probe_wf [OF Cons.prems, of h i] obtain f' where
    f': "set_probe h f i = Ok f'" "wf_bloom f'" "num_bits f' = num_bits f"
      "num_probes f' = num_probes f" "length (bits f') = length (bits f)"
    and b': "\<forall>n < 64 * length (bits f). bit_at f' n \<longleftrightarrow> n = probe_pos f h i \<or> bit_at f n"
    by auto
  from Cons.IH [OF f'(2)] f' b' show ?case
    by (auto simp: probe_pos_cong [of f' f])
qed

lemma bloom_insert_wf:
  assumes "wf_bloom f"
  obtains g where "bloom_insert f h = Ok g" "wf_bloom g" "num_bits g = num_bits f"
    "num_probes g = num_probes f" "length (bits g) = length (bits f)"
    "\<And>n. n < 64 * length (bits f) \<Longrightarrow>
       bit_at g n \<longleftrightarrow> (\<exists>i \<in> set (probe_indices f). n = probe_pos f h i) \<or> bit_at f n"
  using fold_set_probe_wf [OF assms, of h "probe_indices f"] by (auto simp: bloom_insert_def)

lemma test_probe_wf:
  assumes "wf_bloom f"
  shows "test_probe f h i = Ok (bit_at f (probe_pos f h i))"
proof -
  note pw = probe_wf [OF assms, of h i]
  have "probe_pos f h i div 64 < length (bits f)" using pw(2) by simp
  then show ?thesis
    by (simp add: test_probe_def pw unat_div_64 unat_mod_64 bit_and_1 bit_at_def Let_def)
qed

lemma all_res_Ok: "(\<And>x. x \<in> set xs \<Longrightarrow> p x = Ok (q x)) \<Longrightarrow> all_res p xs = Ok (\<forall>x \<in> set xs. q x)"
  by (induction xs) auto

lemma bloom_contains_wf:
  "wf_bloom f \<Longrightarrow>
     bloom_contains f h = Ok (\<forall>i \<in> set (probe_indices f). bit_at f (probe_pos f h i))"
  unfolding bloom_contains_def by (intro all_res_Ok test_probe_wf)

section \<open>What a table relies on\<close>

text \<open>
  The contract of an approximate set: operations are total on its invariant, an inserted hash is
  reported from then on. A table needs nothing else of its filter.
\<close>

locale approx_set =
  fixes ins :: "'f \<Rightarrow> 'h \<Rightarrow> 'f res"
    and mem :: "'f \<Rightarrow> 'h \<Rightarrow> bool res"
    and inv :: "'f \<Rightarrow> bool"
  assumes ins_total: "inv f \<Longrightarrow> \<exists>g. ins f h = Ok g \<and> inv g"
    and mem_total: "inv f \<Longrightarrow> \<exists>b. mem f h = Ok b"
    and mem_ins: "inv f \<Longrightarrow> ins f h = Ok g \<Longrightarrow> mem g h = Ok True"
    and mem_mono: "inv f \<Longrightarrow> ins f h = Ok g \<Longrightarrow> mem f k = Ok True \<Longrightarrow> mem g k = Ok True"
begin

lemma ins_inv: "inv f \<Longrightarrow> ins f h = Ok g \<Longrightarrow> inv g"
  using ins_total [of f h] by auto

lemma fold_total: "inv f \<Longrightarrow> \<exists>g. fold_res ins f hs = Ok g \<and> inv g"
proof (induction hs arbitrary: f)
  case Nil
  then show ?case by simp
next
  case (Cons h hs)
  from ins_total [OF Cons.prems, of h] obtain f' where "ins f h = Ok f'" "inv f'" by auto
  then show ?case using Cons.IH by simp
qed

lemma fold_mono: "inv f \<Longrightarrow> fold_res ins f hs = Ok g \<Longrightarrow> mem f k = Ok True \<Longrightarrow> mem g k = Ok True"
proof (induction hs arbitrary: f)
  case Nil
  then show ?case by simp
next
  case (Cons h hs)
  then obtain f' where "ins f h = Ok f'" "fold_res ins f' hs = Ok g"
    by (auto simp: res_simps)
  then show ?case using Cons ins_inv mem_mono by blast
qed

lemma fold_mem: "inv f \<Longrightarrow> fold_res ins f hs = Ok g \<Longrightarrow> h \<in> set hs \<Longrightarrow> mem g h = Ok True"
proof (induction hs arbitrary: f)
  case Nil
  then show ?case by simp
next
  case (Cons h' hs)
  then obtain f' where f': "ins f h' = Ok f'" "fold_res ins f' hs = Ok g"
    by (auto simp: res_simps)
  have "inv f'" using Cons.prems(1) f'(1) by (rule ins_inv)
  then show ?case
    using Cons f' by (cases "h = h'") (auto intro: fold_mono mem_ins)
qed

end

lemma bloom_mem_ins:
  assumes "wf_bloom f" and "bloom_insert f h = Ok g"
  shows "bloom_contains g h = Ok True"
proof -
  from bloom_insert_wf [OF assms(1), of h] assms(2)
  have g: "wf_bloom g" "num_bits g = num_bits f" "num_probes g = num_probes f"
    and b: "\<And>n. n < 64 * length (bits f) \<Longrightarrow>
       bit_at g n \<longleftrightarrow> (\<exists>i \<in> set (probe_indices f). n = probe_pos f h i) \<or> bit_at f n"
    by auto
  then show ?thesis
    using probe_wf(2) [OF assms(1)]
    by (auto simp: bloom_contains_wf probe_pos_cong [of g f] probe_indices_cong [of g f])
qed

lemma bloom_mem_mono:
  assumes "wf_bloom f" and "bloom_insert f h = Ok g" and "bloom_contains f k = Ok True"
  shows "bloom_contains g k = Ok True"
proof -
  from bloom_insert_wf [OF assms(1), of h] assms(2)
  have g: "wf_bloom g" "num_bits g = num_bits f" "num_probes g = num_probes f"
    and b: "\<And>n. n < 64 * length (bits f) \<Longrightarrow>
       bit_at g n \<longleftrightarrow> (\<exists>i \<in> set (probe_indices f). n = probe_pos f h i) \<or> bit_at f n"
    by auto
  then show ?thesis
    using probe_wf(2) [OF assms(1)] assms(3)
    by (auto simp: bloom_contains_wf [OF assms(1)] bloom_contains_wf [OF g(1)]
        probe_pos_cong [of g f] probe_indices_cong [of g f])
qed

interpretation bloom_filter: approx_set bloom_insert bloom_contains wf_bloom
proof
  fix f :: bloom and g :: bloom and h k :: u64
  assume f: "wf_bloom f"
  show "\<exists>g. bloom_insert f h = Ok g \<and> wf_bloom g"
    by (rule bloom_insert_wf [OF f, of h]) blast
  show "\<exists>b. bloom_contains f h = Ok b" using bloom_contains_wf [OF f] by blast
  assume g: "bloom_insert f h = Ok g"
  show "bloom_contains g h = Ok True" using f g by (rule bloom_mem_ins)
  assume "bloom_contains f k = Ok True"
  with f g show "bloom_contains g k = Ok True" by (rule bloom_mem_mono)
qed

section \<open>New filters\<close>

lemma unat_words_mult: "n < 2 ^ 64 \<Longrightarrow> unat (word_of_nat n :: u64) = n"
  by (simp add: unat_of_nat)

lemma bloom_new_wf:
  assumes "bloom_new n b = Ok f"
  shows "wf_bloom f" and "\<forall>w \<in> set (bits f). w = 0"
    and "1 \<le> num_probes f" and "num_probes f \<le> 30"
    and "min (n * b) (2 ^ 64 - 1) \<le> 64 * length (bits f)"
proof -
  define w where "w = (max (min (n * b) (2 ^ 64 - 1)) 64 + 63) div 64"
  define p where "p = min 30 (max 1 (f64_round_u32 (f64_mult (f64_of_nat b) LN_2)))"
  have small: "w * 64 < 2 ^ 64"
    and f: "f = \<lparr>bits = replicate w 0, num_bits = word_of_nat (w * 64), num_probes = word_of_nat p\<rparr>"
    using assms by (auto simp: bloom_new_def Let_def w_def p_def split: if_splits)
  have "1 \<le> w" by (simp add: w_def)
  moreover have nb: "unat (word_of_nat (w * 64) :: u64) = w * 64"
    using small by (rule unat_words_mult)
  ultimately show "wf_bloom f"
    by (simp add: wf_bloom_def f word_gt_0 flip: unat_gt_0)
  show "\<forall>x \<in> set (bits f). x = 0" by (simp add: f)
  have p: "1 \<le> p" "p \<le> 30" by (auto simp: p_def)
  then have "unat (word_of_nat p :: u32) = p" by (simp add: unat_of_nat)
  then show "1 \<le> num_probes f" and "num_probes f \<le> 30"
    using p by (simp_all add: f word_le_nat_alt)
  have "max (min (n * b) (2 ^ 64 - 1)) 64 \<le> 64 * w" unfolding w_def by linarith
  then show "min (n * b) (2 ^ 64 - 1) \<le> 64 * length (bits f)" by (simp add: f)
qed

text \<open>Only an absurd number of keys makes the constructor overflow; its size is what was asked for.\<close>

lemma bloom_new_total:
  assumes "n * b + 127 < 2 ^ 64"
  shows "\<exists>f. bloom_new n b = Ok f \<and> 64 * length (bits f) \<le> n * b + 127"
proof -
  define w where "w = (max (min (n * b) (2 ^ 64 - 1)) 64 + 63) div 64"
  have le: "w * 64 \<le> n * b + 127" unfolding w_def by linarith
  then have "\<not> 2 ^ 64 \<le> w * 64" using assms by linarith
  moreover have "bloom_new n b = (if 2 ^ 64 \<le> w * 64 then Fail Panic
      else Ok \<lparr>bits = replicate w 0, num_bits = word_of_nat (w * 64), num_probes = word_of_nat
        (min 30 (max 1 (f64_round_u32 (f64_mult (f64_of_nat b) LN_2))))\<rparr>)"
    unfolding bloom_new_def w_def Let_def by (rule refl)
  ultimately show ?thesis using le by simp
qed

lemma bloom_new_empty:
  assumes "bloom_new n b = Ok f"
  shows "bloom_contains f h = Ok False"
proof -
  note new = bloom_new_wf [OF assms]
  have "0 < unat (num_probes f)" using new(3) by (auto simp: word_le_nat_alt)
  then have "0 \<in> set [0..<unat (num_probes f)]" by simp
  then have mem: "word_of_nat 0 \<in> set (probe_indices f)"
    unfolding probe_indices_def set_map by (rule imageI)
  have "\<not> bit_at f (probe_pos f h (word_of_nat 0))"
  proof -
    have "probe_pos f h (word_of_nat 0) div 64 < length (bits f)"
      using probe_wf(2) [OF new(1), of h "word_of_nat 0"] by simp
    then have "bits f ! (probe_pos f h (word_of_nat 0) div 64) = 0" using new(2) by simp
    then show ?thesis by (simp add: bit_at_def)
  qed
  then show ?thesis using mem by (auto simp: bloom_contains_wf [OF new(1)])
qed

section \<open>Properties\<close>

text \<open>C22: no false negatives: a filter from the constructor into which any sequence of hashes was
  inserted without a panic answers yes for each of them, and the inserts do not panic.\<close>

theorem bloom_no_false_negatives:
  assumes "bloom_new n b = Ok f"
  shows "\<exists>g. fold_res bloom_insert f hs = Ok g \<and> (\<forall>h \<in> set hs. bloom_contains g h = Ok True)"
proof -
  have wf: "wf_bloom f" by (rule bloom_new_wf(1) [OF assms])
  then obtain g where "fold_res bloom_insert f hs = Ok g" using bloom_filter.fold_total by blast
  then show ?thesis using bloom_filter.fold_mem [OF wf] by blast
qed

theorem bloom_no_false_negatives_witness:
  "\<exists>f g. bloom_new 2 10 = Ok f \<and> fold_res bloom_insert f [3, 2 ^ 40 + 1] = Ok g \<and>
     bloom_contains g 3 = Ok True \<and> bloom_contains g (2 ^ 40 + 1) = Ok True"
proof -
  obtain f where f: "bloom_new 2 10 = Ok f" using bloom_new_total [of 2 10] by auto
  show ?thesis using bloom_no_false_negatives [OF f, of "[3, 2 ^ 40 + 1]"] f by auto
qed

text \<open>A new filter has the requested number of bits, rounded up to whole words, between 1 and 30
  probes, and contains nothing.\<close>

lemma bloom_new_sized_and_empty:
  assumes "n * b + 127 < 2 ^ 64"
  shows "\<exists>f. bloom_new n b = Ok f \<and> n * b \<le> unat (num_bits f) \<and> unat (num_bits f) \<le> n * b + 127 \<and>
    unat (num_bits f) = 64 * length (bits f) \<and> 1 \<le> num_probes f \<and> num_probes f \<le> 30 \<and>
    (\<forall>h. bloom_contains f h = Ok False)"
proof -
  obtain f where f: "bloom_new n b = Ok f" "64 * length (bits f) \<le> n * b + 127"
    using bloom_new_total [OF assms] by blast
  note wf = bloom_new_wf [OF f(1)]
  have "unat (num_bits f) = 64 * length (bits f)" using wf(1) by (simp add: wf_bloom_def)
  then show ?thesis
    using f wf(3-5) assms bloom_new_empty [OF f(1)] by (intro exI [of _ f]) auto
qed

theorem bloom_new_sized_and_empty_witness:
  "(1000 :: nat) * 10 + 127 < 2 ^ 64 \<and> (\<exists>f. bloom_new 1000 10 = Ok f \<and> 10000 \<le> unat (num_bits f) \<and>
     bloom_contains f 12345 = Ok False)"
  using bloom_new_sized_and_empty [of 1000 10] by auto

text \<open>The walk of the probes never wraps: for every hash and every probe number the 64-bit sum
  \<open>start + i * stride\<close> is the exact one, so that the debug build does not overflow, and on a
  well-formed filter the probe is a position inside the bit array.\<close>

lemma bloom_probe_exact:
  assumes "wf_bloom f"
  shows "\<exists>bit. probe f h i = Ok bit \<and> unat bit < 64 * length (bits f) \<and>
    unat bit = (unat (probe_start h) + unat i * unat (probe_stride h)) mod unat (num_bits f) \<and>
    unat (probe_start h) + unat i * unat (probe_stride h) < 2 ^ 64"
  using probe_wf [OF assms, of h i] probe_walk_bound [of h i] by (auto simp: probe_pos_def)

lemma bloom_probe_exact_witness:
  "wf_bloom \<lparr>bits = [0, 0], num_bits = 128, num_probes = 7\<rparr> \<and>
   (\<exists>bit. probe \<lparr>bits = [0, 0], num_bits = 128, num_probes = 7\<rparr> 0xffffffffffffffff 0xffffffff = Ok bit \<and>
      unat bit < 128)"
  using bloom_probe_exact [of "\<lparr>bits = [0, 0], num_bits = 128, num_probes = 7\<rparr>" "0xffffffffffffffff" "0xffffffff"]
  by (auto simp: wf_bloom_def)

end
