(* ===== verification/Memtable.thy ===== *)
theory Memtable
  imports Prelude
begin

text \<open>
  The memtable of \<^verbatim>\<open>src/src/db.rs\<close> and of a flush: a \<open>BTreeMap\<close> from keys to values or
  tombstones (\<open>None\<close>). It is kept as the list of its entries in key order, which is what
  iteration over the tree gives; the locale \<open>ordered_map\<close> is the contract of the tree that the
  store relies on.
\<close>

type_synonym entry = "bytes \<times> bytes option"
type_synonym memtable = "entry list"

fun bt_insert :: "'k::linorder \<Rightarrow> 'v \<Rightarrow> ('k \<times> 'v) list \<Rightarrow> ('k \<times> 'v) list" where
  "bt_insert k v [] = [(k, v)]"
| "bt_insert k v (e # m) =
     (if fst e < k then e # bt_insert k v m
      else if fst e = k then (k, v) # m
      else (k, v) # e # m)"

definition bt_get :: "('k \<times> 'v) list \<Rightarrow> 'k \<Rightarrow> 'v option" where
  "bt_get m k = map_of m k"

definition key_sorted :: "('k::linorder \<times> 'v) list \<Rightarrow> bool" where
  "key_sorted m \<longleftrightarrow> sorted_wrt (<) (map fst m)"

lemma key_sorted_Nil [simp]: "key_sorted []"
  by (simp add: key_sorted_def)

lemma key_sorted_Cons [simp]:
  "key_sorted (e # m) \<longleftrightarrow> (\<forall>k \<in> fst ` set m. fst e < k) \<and> key_sorted m"
  by (auto simp: key_sorted_def)

lemma key_sorted_append:
  "key_sorted (m @ m') \<longleftrightarrow>
     key_sorted m \<and> key_sorted m' \<and> (\<forall>k \<in> fst ` set m. \<forall>k' \<in> fst ` set m'. k < k')"
  by (auto simp: key_sorted_def sorted_wrt_append)

lemma key_sorted_distinct: "key_sorted m \<Longrightarrow> distinct (map fst m)"
  by (simp add: key_sorted_def strict_sorted_iff)

lemma key_sorted_unique:
  "key_sorted xs \<Longrightarrow> key_sorted ys \<Longrightarrow> map_of xs = map_of ys \<Longrightarrow> xs = ys"
  unfolding key_sorted_def by (rule sorted_map_of_inject)

lemma keys_bt_insert: "fst ` set (bt_insert k v m) = insert k (fst ` set m)"
  by (induction m) auto

lemma key_sorted_bt_insert: "key_sorted m \<Longrightarrow> key_sorted (bt_insert k v m)"
  by (induction m) (auto simp: keys_bt_insert)

lemma map_of_bt_insert: "key_sorted m \<Longrightarrow> map_of (bt_insert k v m) = (map_of m)(k \<mapsto> v)"
proof (induction m)
  case Nil
  then show ?case by simp
next
  case (Cons e m)
  have "fst e \<notin> fst ` set m" using Cons.prems by auto
  then show ?case using Cons by (cases e) (auto simp: fun_eq_iff)
qed

section \<open>The contract of the tree\<close>

locale ordered_map =
  fixes empty :: 'm
    and insert_entry :: "'k::linorder \<Rightarrow> 'v \<Rightarrow> 'm \<Rightarrow> 'm"
    and lookup :: "'m \<Rightarrow> 'k \<Rightarrow> 'v option"
    and iter :: "'m \<Rightarrow> ('k \<times> 'v) list"
    and ordered :: "'m \<Rightarrow> bool"
  assumes ordered_empty: "ordered empty"
    and lookup_empty: "lookup empty k = None"
    and ordered_insert: "ordered m \<Longrightarrow> ordered (insert_entry k v m)"
    and lookup_insert: "ordered m \<Longrightarrow>
      lookup (insert_entry k v m) k' = (if k' = k then Some v else lookup m k')"
    and iter_sorted: "ordered m \<Longrightarrow> key_sorted (iter m)"
    and iter_lookup: "ordered m \<Longrightarrow> map_of (iter m) k = lookup m k"
begin

text \<open>Replaying a list of writes: the last write of a key decides.\<close>

lemma ordered_fold: "ordered m \<Longrightarrow> ordered (fold (\<lambda>(k, v). insert_entry k v) ws m)"
  by (induction ws arbitrary: m) (auto simp: ordered_insert)

lemma lookup_fold:
  "ordered m \<Longrightarrow> lookup (fold (\<lambda>(k, v). insert_entry k v) ws m) k =
     (case map_of (rev ws) k of Some v \<Rightarrow> Some v | None \<Rightarrow> lookup m k)"
  by (induction ws arbitrary: m)
    (auto simp: ordered_insert lookup_insert map_add_def split: option.splits)

text \<open>Maps with the same lookups iterate over the same entries.\<close>

lemma iter_determined:
  assumes "ordered m" and "ordered m'" and "\<And>k. lookup m k = lookup m' k"
  shows "iter m = iter m'"
  using assms by (intro key_sorted_unique) (auto simp: iter_sorted iter_lookup fun_eq_iff)

lemma insert_twice:
  "ordered m \<Longrightarrow> iter (insert_entry k v (insert_entry k u m)) = iter (insert_entry k v m)"
  by (intro iter_determined) (auto simp: ordered_insert lookup_insert)

end

interpretation btree: ordered_map "[]" bt_insert bt_get "\<lambda>m. m" key_sorted
  by unfold_locales (auto simp: bt_get_def key_sorted_bt_insert map_of_bt_insert)

end
