(* ===== verification/Text.thy ===== *)
theory Text
  imports Prelude
begin

text \<open>
  The text that the store prints and parses: decimal numbers as \<open>Display\<close> writes them and
  \<open>FromStr\<close> reads them, ASCII case, and the names of the files in the data directory
  (\<open>parse_span\<close> and the name format of \<open>write_table\<close> in \<^verbatim>\<open>src/src/sstable.rs\<close>).
\<close>

section \<open>Decimal numbers\<close>

fun dec_nat :: "nat \<Rightarrow> bytes" where
  "dec_nat n =
     (if n < 10 then [word_of_nat (48 + n)] else dec_nat (n div 10) @ [word_of_nat (48 + n mod 10)])"

declare dec_nat.simps [simp del]

definition is_digit :: "u8 \<Rightarrow> bool" where
  "is_digit b \<longleftrightarrow> 48 \<le> b \<and> b \<le> 57"

text \<open>The digits of \<open>from_str_radix\<close> in base 10, on unbounded numbers.\<close>

fun parse_digits :: "nat \<Rightarrow> bytes \<Rightarrow> nat option" where
  "parse_digits acc [] = Some acc"
| "parse_digits acc (b # bs) =
     (if is_digit b then parse_digits (10 * acc + (unat b - 48)) bs else None)"

text \<open>
  \<open>str::parse::<u64>\<close>: one leading plus sign is accepted; no digits, another character and a
  value beyond the type are errors.
\<close>

definition parse_u64 :: "bytes \<Rightarrow> nat option" where
  "parse_u64 bs =
     (let ds = (case bs of [] \<Rightarrow> [] | b # rest \<Rightarrow> if b = 43 then rest else bs)
      in if ds = [] then None
         else (case parse_digits 0 ds of
                 None \<Rightarrow> None
               | Some n \<Rightarrow> if n < 2 ^ 64 then Some n else None))"

text \<open>\<open>str::parse::<i64>\<close>.\<close>

definition parse_i64 :: "bytes \<Rightarrow> int option" where
  "parse_i64 bs =
     (let neg = (bs \<noteq> [] \<and> hd bs = 45);
          ds = (case bs of [] \<Rightarrow> [] | b # rest \<Rightarrow> if b = 43 \<or> b = 45 then rest else bs)
      in if ds = [] then None
         else (case parse_digits 0 ds of
                 None \<Rightarrow> None
               | Some n \<Rightarrow>
                   if neg then (if n \<le> 2 ^ 63 then Some (- int n) else None)
                   else (if n < 2 ^ 63 then Some (int n) else None)))"

lemma parse_digits_append:
  "parse_digits acc (xs @ ys) =
     (case parse_digits acc xs of None \<Rightarrow> None | Some n \<Rightarrow> parse_digits n ys)"
  by (induction xs arbitrary: acc) auto

lemma digit_byte:
  assumes "n < 10"
  shows "is_digit (word_of_nat (48 + n))" and "unat (word_of_nat (48 + n) :: u8) = 48 + n"
proof -
  show u: "unat (word_of_nat (48 + n) :: u8) = 48 + n"
    using assms by (simp add: unat_of_nat del: of_nat_add)
  show "is_digit (word_of_nat (48 + n))"
    unfolding is_digit_def word_le_nat_alt u using assms by simp
qed

lemma parse_digits_dec_nat: "parse_digits 0 (dec_nat n) = Some n"
proof (induction n rule: dec_nat.induct)
  case (1 n)
  show ?case
  proof (cases "n < 10")
    case True
    then show ?thesis
      using digit_byte [of n] by (subst dec_nat.simps) (simp del: of_nat_add)
  next
    case False
    have "n mod 10 < 10" by simp
    from digit_byte [OF this] 1 False show ?thesis
      by (subst dec_nat.simps) (simp add: parse_digits_append del: of_nat_add)
  qed
qed

lemma parse_digits_zeros: "parse_digits 0 (replicate k 48 @ ds) = parse_digits 0 ds"
  by (induction k) (auto simp: is_digit_def)

lemma dec_nat_digits: "\<forall>b \<in> set (dec_nat n). is_digit b"
proof (induction n rule: dec_nat.induct)
  case (1 n)
  show ?case
  proof (cases "n < 10")
    case True
    then show ?thesis using digit_byte(1) by (subst dec_nat.simps) (simp del: of_nat_add)
  next
    case False
    have "n mod 10 < 10" by simp
    with False 1 show ?thesis
      using digit_byte(1) by (subst dec_nat.simps) (auto simp del: of_nat_add)
  qed
qed

lemma dec_nat_nonempty [simp]: "dec_nat n \<noteq> []"
  by (subst dec_nat.simps) simp

lemma is_digit_neq [simp]: "is_digit b \<Longrightarrow> b \<noteq> 43" "is_digit b \<Longrightarrow> b \<noteq> 45" "is_digit b \<Longrightarrow> b \<noteq> 46"
  by (auto simp: is_digit_def)

lemma parse_u64_digits:
  assumes "ds \<noteq> []" and "\<forall>b \<in> set ds. is_digit b"
  shows "parse_u64 ds =
    (case parse_digits 0 ds of None \<Rightarrow> None | Some n \<Rightarrow> if n < 2 ^ 64 then Some n else None)"
  using assms by (cases ds) (auto simp: parse_u64_def Let_def)

section \<open>File names\<close>

text \<open>
  \<open>Path::file_stem\<close> and \<open>Path::extension\<close>: the name is split at its last dot, unless that dot is
  its first character.
\<close>

definition split_name :: "bytes \<Rightarrow> bytes \<times> bytes option" where
  "split_name name =
     (let after = rev (takeWhile (\<lambda>b. b \<noteq> 46) (rev name));
          before = take (length name - length after - 1) name
      in if name = str ''..'' \<or> length after = length name \<or> before = [] then (name, None)
         else (before, Some after))"

definition file_stem :: "bytes \<Rightarrow> bytes" where
  "file_stem name = fst (split_name name)"

definition extension :: "bytes \<Rightarrow> bytes option" where
  "extension name = snd (split_name name)"

text \<open>\<open>Path::with_extension\<close>.\<close>

definition with_extension :: "bytes \<Rightarrow> bytes \<Rightarrow> bytes" where
  "with_extension name ext = file_stem name @ str ''.'' @ ext"

text \<open>\<open>Path::join\<close> of the data directory and a file name.\<close>

definition join :: "bytes \<Rightarrow> bytes \<Rightarrow> bytes" where
  "join d name = (if d = [] \<or> last d = 47 then d @ name else d @ str ''/'' @ name)"

definition strip_prefix :: "bytes \<Rightarrow> bytes \<Rightarrow> bytes option" where
  "strip_prefix p s = (if take (length p) s = p then Some (drop (length p) s) else None)"

text \<open>\<open>split_once\<close> at the first occurrence of a character.\<close>

definition split_once :: "u8 \<Rightarrow> bytes \<Rightarrow> (bytes \<times> bytes) option" where
  "split_once c s =
     (let a = takeWhile (\<lambda>b. b \<noteq> c) s
      in if length a = length s then None else Some (a, drop (Suc (length a)) s))"

definition parse_span :: "bytes \<Rightarrow> (nat \<times> nat) option" where
  "parse_span name =
     (case strip_prefix (str ''sstable-'') (file_stem name) of
        None \<Rightarrow> None
      | Some s \<Rightarrow>
          (case split_once 45 s of
             None \<Rightarrow> None
           | Some (a, b) \<Rightarrow>
               (case parse_u64 a of
                  None \<Rightarrow> None
                | Some f \<Rightarrow> (case parse_u64 b of None \<Rightarrow> None | Some l \<Rightarrow> Some (f, l)))))"

text \<open>The format specification \<open>{:06}\<close>.\<close>

definition pad6 :: "nat \<Rightarrow> bytes" where
  "pad6 n = replicate (6 - length (dec_nat n)) 48 @ dec_nat n"

definition sst_name :: "nat \<times> nat \<Rightarrow> bytes" where
  "sst_name span =
     str ''sstable-'' @ pad6 (fst span) @ str ''-'' @ pad6 (snd span) @ str ''.sst''"

definition tmp_name :: "nat \<times> nat \<Rightarrow> bytes" where
  "tmp_name span = with_extension (sst_name span) (str ''sst.tmp'')"

lemma pad6_digits: "\<forall>b \<in> set (pad6 n). is_digit b" "pad6 n \<noteq> []"
  using dec_nat_digits [of n] by (auto simp: pad6_def is_digit_def)

lemma parse_u64_pad6: "n < 2 ^ 64 \<Longrightarrow> parse_u64 (pad6 n) = Some n"
  using pad6_digits [of n]
  by (simp add: parse_u64_digits) (simp add: pad6_def parse_digits_zeros parse_digits_dec_nat)

lemma split_name_dot:
  assumes "46 \<notin> set after" and "before \<noteq> []" and "before @ 46 # after \<noteq> str ''..''"
  shows "split_name (before @ 46 # after) = (before, Some after)"
proof -
  have "takeWhile (\<lambda>b. b \<noteq> 46) (rev (before @ 46 # after)) = rev after"
    using assms(1) by (auto simp: takeWhile_append)
  then show ?thesis using assms by (simp add: split_name_def Let_def)
qed

lemma split_once_first:
  "c \<notin> set a \<Longrightarrow> split_once c (a @ c # b) = Some (a, b)"
  by (auto simp: split_once_def Let_def takeWhile_append)

lemma str_simps [simp]: "str [] = []" "str (c # s) = of_char c # str s"
  by (simp_all add: str_def)

lemma sst_name_stem:
  "split_name (sst_name span) =
     (str ''sstable-'' @ pad6 (fst span) @ str ''-'' @ pad6 (snd span), Some (str ''sst''))"
  using split_name_dot [of "str ''sst''" "str ''sstable-'' @ pad6 (fst span) @ str ''-'' @ pad6 (snd span)"]
  by (simp add: sst_name_def)

lemma tmp_name_split:
  "split_name (tmp_name span) =
     (str ''sstable-'' @ pad6 (fst span) @ str ''-'' @ pad6 (snd span) @ str ''.sst'', Some (str ''tmp''))"
  using split_name_dot [of "str ''tmp''"
      "str ''sstable-'' @ pad6 (fst span) @ str ''-'' @ pad6 (snd span) @ str ''.sst''"]
  by (simp add: tmp_name_def with_extension_def file_stem_def sst_name_stem)

lemma extension_sst_name: "extension (sst_name span) = Some (str ''sst'')"
  by (simp add: extension_def sst_name_stem)

lemma extension_tmp_name: "extension (tmp_name span) = Some (str ''tmp'')"
  by (simp add: extension_def tmp_name_split)

lemma parse_span_sst_name_eq:
  assumes "fst span < 2 ^ 64" and "snd span < 2 ^ 64"
  shows "parse_span (sst_name span) = Some span"
proof -
  have "45 \<notin> set (pad6 (fst span))"
    using pad6_digits(1) [of "fst span"] is_digit_neq(2) by blast
  then have "split_once 45 (pad6 (fst span) @ 45 # pad6 (snd span)) =
      Some (pad6 (fst span), pad6 (snd span))" by (rule split_once_first)
  then show ?thesis
    using assms by (simp add: parse_span_def file_stem_def sst_name_stem strip_prefix_def parse_u64_pad6)
qed

lemma sst_name_inject:
  "fst s < 2 ^ 64 \<Longrightarrow> snd s < 2 ^ 64 \<Longrightarrow> fst t < 2 ^ 64 \<Longrightarrow> snd t < 2 ^ 64 \<Longrightarrow>
     sst_name s = sst_name t \<Longrightarrow> s = t"
  by (metis option.inject parse_span_sst_name_eq)

lemma tmp_name_inject:
  assumes "fst s < 2 ^ 64" and "snd s < 2 ^ 64" and "fst t < 2 ^ 64" and "snd t < 2 ^ 64"
    and "tmp_name s = tmp_name t"
  shows "s = t"
proof -
  have "split_name (tmp_name s) = split_name (tmp_name t)" using assms(5) by simp
  then have "sst_name s = sst_name t" unfolding tmp_name_split sst_name_def by simp
  then show ?thesis using sst_name_inject assms(1-4) by blast
qed

lemma sst_name_neq_tmp_name [simp]: "sst_name s \<noteq> tmp_name t"
proof
  assume "sst_name s = tmp_name t"
  then have "Some (str ''sst'') = Some (str ''tmp'')"
    by (simp only: flip: extension_sst_name [of s] extension_tmp_name [of t])
  then show False by simp
qed

section \<open>Properties\<close>

text \<open>The name of a table's file reads back as its span, is taken for a table by \<open>open\<close>, and the
  temporary name that the file has before it is published is not.\<close>

lemma sst_name_round_trip:
  assumes "first < 2 ^ 64" and "last' < 2 ^ 64"
  shows "parse_span (sst_name (first, last')) = Some (first, last') \<and>
    extension (sst_name (first, last')) = Some (str ''sst'') \<and>
    extension (tmp_name (first, last')) = Some (str ''tmp'')"
  using parse_span_sst_name_eq [of "(first, last')"] assms extension_sst_name extension_tmp_name
  by (simp del: str_simps)

lemma sst_name_round_trip_witness:
  "(7 :: nat) < 2 ^ 64 \<and> parse_span (sst_name (7, 1234567)) = Some (7, 1234567)"
  using sst_name_round_trip [of 7 1234567] by simp

end
