(* ===== verification/SSTable.thy ===== *)
theory SSTable
  imports Codec Hash Bloom Memtable Text
begin

text \<open>
  The table format of \<^verbatim>\<open>src/src/sstable.rs\<close>: the loop of \<open>write_table\<close> that lays out records,
  sparse index, filter, key range and trailer, and \<open>SSTable::open\<close> that parses them back. A
  table in memory carries the contents of its file, which the open descriptor keeps readable.
\<close>

definition BLOCK_SIZE :: nat where
  "BLOCK_SIZE = 1024 * 4"

definition MAGIC :: bytes where
  "MAGIC = str ''LSMRS'' @ [0]"

definition FORMAT_VERSION :: u8 where
  "FORMAT_VERSION = 1"

definition TRAILER_SIZE :: nat where
  "TRAILER_SIZE = 32"

record sstable =
  path :: bytes
  file_data :: bytes
  first_seq :: nat
  last_seq :: nat
  sparse_index :: "(bytes \<times> u64) list"
  index_start :: u64
  min_key :: bytes
  max_key :: bytes
  key_filter :: bloom

definition span_of :: "sstable \<Rightarrow> nat \<times> nat" where
  "span_of t = (first_seq t, last_seq t)"

section \<open>Writing\<close>

text \<open>The local variables of the loop over the entries.\<close>

record writer =
  written :: bytes
  w_index :: "(bytes \<times> u64) list"
  w_filter :: bloom
  w_min_key :: bytes
  w_max_key :: bytes
  current_offset :: nat
  block_start_offset :: nat

definition value_bytes :: "bytes option \<Rightarrow> bytes" where
  "value_bytes v = (case v of Some b \<Rightarrow> b | None \<Rightarrow> [])"

definition op_type :: "bytes option \<Rightarrow> u8" where
  "op_type v = (case v of Some b \<Rightarrow> 0 | None \<Rightarrow> 1)"

definition enc_record :: "entry \<Rightarrow> bytes" where
  "enc_record e = prefixed (fst e) @ prefixed (value_bytes (snd e)) @ [op_type (snd e)]"

definition write_entry :: "writer \<Rightarrow> entry \<Rightarrow> writer res" where
  "write_entry st e =
     (let key = fst e;
          min' = (if current_offset st = 0 then key else w_min_key st)
      in bind_res (bloom_insert (w_filter st) (hash64 key)) (\<lambda>filter'.
         let index' = (if block_start_offset st = current_offset st
                       then w_index st @ [(key, word_of_nat (current_offset st))]
                       else w_index st);
             offset' = current_offset st + (9 + length key + length (value_bytes (snd e)));
             start' = (if BLOCK_SIZE \<le> offset' - block_start_offset st then offset'
                       else block_start_offset st)
         in Ok \<lparr>written = written st @ enc_record e, w_index = index', w_filter = filter',
                w_min_key = min', w_max_key = key, current_offset = offset',
                block_start_offset = start'\<rparr>))"

definition enc_index_entry :: "bytes \<times> u64 \<Rightarrow> bytes" where
  "enc_index_entry e = prefixed (fst e) @ u64_to_le (snd e)"

definition enc_filter :: "bloom \<Rightarrow> bytes" where
  "enc_filter f =
     u64_to_le (num_bits f) @ u32_to_le (num_probes f) @ concat (map u64_to_le (bits f))"

definition enc_trailer :: "nat \<Rightarrow> nat \<Rightarrow> nat \<Rightarrow> bytes" where
  "enc_trailer i f m =
     u64_to_le (word_of_nat i) @ u64_to_le (word_of_nat f) @ u64_to_le (word_of_nat m) @
     MAGIC @ [FORMAT_VERSION, 0]"

text \<open>
  Everything \<open>write_table\<close> computes before it touches the final name: the table it will return,
  whose \<open>file_data\<close> is what it has written.
\<close>

definition build_table :: "nat \<times> nat \<Rightarrow> nat \<Rightarrow> nat \<Rightarrow> entry list \<Rightarrow> sstable res" where
  "build_table span num_keys bits_per_key entries =
     bind_res (bloom_new num_keys bits_per_key) (\<lambda>filter0.
     bind_res (fold_res write_entry
        \<lparr>written = [], w_index = [], w_filter = filter0, w_min_key = [], w_max_key = [],
         current_offset = 0, block_start_offset = 0\<rparr> entries) (\<lambda>st.
     let index_start_offset = current_offset st;
         filter_start_offset =
           index_start_offset + sum_list (map (\<lambda>e. 4 + length (fst e) + 8) (w_index st));
         meta_start_offset = filter_start_offset + 12 + length (bits (w_filter st)) * 8
     in Ok \<lparr>path = sst_name span,
            file_data = written st @ concat (map enc_index_entry (w_index st)) @
              enc_filter (w_filter st) @ prefixed (w_min_key st) @ prefixed (w_max_key st) @
              enc_trailer index_start_offset filter_start_offset meta_start_offset,
            first_seq = fst span, last_seq = snd span, sparse_index = w_index st,
            index_start = word_of_nat index_start_offset,
            min_key = w_min_key st, max_key = w_max_key st, key_filter = w_filter st\<rparr>))"

section \<open>Opening\<close>

text \<open>
  \<open>seek\<close> from the start of a file, giving the bytes from there on: offsets are signed 64-bit
  numbers, positions beyond the end are allowed. \<open>seek\<close> from the end cannot go before the start.
\<close>

definition seek_start :: "bytes \<Rightarrow> nat \<Rightarrow> bytes res" where
  "seek_start f off =
     (if off < 2 ^ 63 then Ok (drop off f)
      else Err InvalidInput (str ''Invalid argument (os error 22)''))"

definition seek_end :: "bytes \<Rightarrow> nat \<Rightarrow> bytes res" where
  "seek_end f n =
     (if n \<le> length f then Ok (drop (length f - n) f)
      else Err InvalidInput (str ''Invalid argument (os error 22)''))"

fun read_words :: "nat \<Rightarrow> bytes \<Rightarrow> (u64 list \<times> bytes) res" where
  "read_words 0 r = Ok ([], r)"
| "read_words (Suc n) r =
     bind_res (read_exact 8 r) (\<lambda>(buf, r1).
     bind_res (read_words n r1) (\<lambda>(ws, r2).
     Ok (u64_from_le buf # ws, r2)))"

function read_index :: "nat \<Rightarrow> nat \<Rightarrow> bytes \<Rightarrow> (bytes \<times> u64) list \<Rightarrow> (bytes \<times> u64) list res" where
  "read_index pos filter_start r acc =
     (if pos < filter_start then
        bind_res (read_prefixed r) (\<lambda>(key, r1).
        bind_res (read_exact 8 r1) (\<lambda>(offset_buf, r2).
        read_index (pos + 4 + length key + 8) filter_start r2
          (acc @ [(key, u64_from_le offset_buf)])))
      else Ok acc)"
  by pat_completeness auto
termination
  by (relation "measure (\<lambda>(pos, filter_start, r, acc). filter_start - pos)") auto

declare read_index.simps [simp del]

definition sst_open :: "bytes \<Rightarrow> bytes \<Rightarrow> bytes \<Rightarrow> nat \<Rightarrow> nat \<Rightarrow> sstable res" where
  "sst_open data_dir name f seq_lo seq_hi =
     bind_res (seek_end f TRAILER_SIZE) (\<lambda>r.
     bind_res (read_exact TRAILER_SIZE r) (\<lambda>(trailer, _).
     if take 6 (drop 24 trailer) \<noteq> MAGIC then
       Err InvalidData (join data_dir name @ str '' is not an lsmrs SSTable'')
     else if trailer ! 30 \<noteq> FORMAT_VERSION then
       Err InvalidData (join data_dir name @ str '' has SSTable format version '' @
         dec_nat (unat (trailer ! 30)) @ str '', expected '' @ dec_nat (unat FORMAT_VERSION))
     else
       let index_start = u64_from_le (take 8 trailer);
           filter_start = u64_from_le (take 8 (drop 8 trailer));
           meta_start = u64_from_le (take 8 (drop 16 trailer))
       in bind_res (seek_start f (unat meta_start)) (\<lambda>m0.
          bind_res (read_prefixed m0) (\<lambda>(min_key, m1).
          bind_res (read_prefixed m1) (\<lambda>(max_key, m2).
          bind_res (seek_start f (unat filter_start)) (\<lambda>f0.
          bind_res (read_exact 12 f0) (\<lambda>(header, f1).
          let num_bits = u64_from_le (take 8 header);
              num_probes = u32_from_le (drop 8 header)
          in bind_res (read_words (unat num_bits div 64) f1) (\<lambda>(words, f2).
             bind_res (seek_start f (unat index_start)) (\<lambda>i0.
             bind_res (read_index (unat index_start) (unat filter_start) i0 []) (\<lambda>index.
             Ok \<lparr>path = name, file_data = f, first_seq = seq_lo, last_seq = seq_hi,
                 sparse_index = index, index_start = index_start,
                 min_key = min_key, max_key = max_key,
                 key_filter = bloom_from_parts words num_bits num_probes\<rparr>))))))))))"

section \<open>Blocks\<close>

text \<open>
  What the loop makes of a list of entries: blocks \<open>bs\<close>, each not empty, that partition it, one
  index entry per block with the first key and the offset of the block.
\<close>

definition rsize :: "entry list \<Rightarrow> nat" where
  "rsize es = sum_list (map (\<lambda>e. 9 + length (fst e) + length (value_bytes (snd e))) es)"

definition enc_records :: "entry list \<Rightarrow> bytes" where
  "enc_records es = concat (map enc_record es)"

fun index_of :: "nat \<Rightarrow> entry list list \<Rightarrow> (bytes \<times> u64) list" where
  "index_of off [] = []"
| "index_of off (b # bs) = (fst (hd b), word_of_nat off) # index_of (off + rsize b) bs"

lemma length_enc_record [simp]:
  "length (enc_record e) = 9 + length (fst e) + length (value_bytes (snd e))"
  by (simp add: enc_record_def)

lemma rsize_simps [simp]:
  "rsize [] = 0" "rsize (e # es) = 9 + length (fst e) + length (value_bytes (snd e)) + rsize es"
  "rsize (es @ es') = rsize es + rsize es'"
  by (simp_all add: rsize_def)

lemma enc_records_simps [simp]:
  "enc_records [] = []" "enc_records (e # es) = enc_record e @ enc_records es"
  "enc_records (es @ es') = enc_records es @ enc_records es'"
  by (simp_all add: enc_records_def)

lemma length_enc_records [simp]: "length (enc_records es) = rsize es"
  by (induction es) auto

lemma rsize_0_iff [simp]: "rsize es = 0 \<longleftrightarrow> es = []"
  by (cases es) auto

lemma index_of_append:
  "index_of off (bs @ bs') = index_of off bs @ index_of (off + rsize (concat bs)) bs'"
  by (induction bs arbitrary: off) (auto simp: add.assoc)

lemma length_index_of [simp]: "length (index_of off bs) = length bs"
  by (induction bs arbitrary: off) auto

lemma nth_index_of:
  "i < length bs \<Longrightarrow>
     index_of off bs ! i = (fst (hd (bs ! i)), word_of_nat (off + rsize (concat (take i bs))))"
  by (induction bs arbitrary: off i) (auto simp: nth_Cons' take_Cons' add.assoc)

text \<open>The state of the loop after the entries \<open>es\<close>.\<close>

definition wf_writer :: "bloom \<Rightarrow> entry list \<Rightarrow> writer \<Rightarrow> bool" where
  "wf_writer f0 es st \<longleftrightarrow>
     written st = enc_records es \<and> current_offset st = rsize es \<and>
     fold_res bloom_insert f0 (map (\<lambda>e. hash64 (fst e)) es) = Ok (w_filter st) \<and>
     (es \<noteq> [] \<longrightarrow> w_min_key st = fst (hd es) \<and> w_max_key st = fst (last es)) \<and>
     block_start_offset st \<le> current_offset st \<and>
     (\<exists>bs. concat bs = es \<and> [] \<notin> set bs \<and> w_index st = index_of 0 bs \<and>
       (block_start_offset st = current_offset st \<or> bs \<noteq> []))"

lemma write_entry_wf:
  assumes wf: "wf_writer f0 es st" and step: "write_entry st e = Ok st'"
  shows "wf_writer f0 (es @ [e]) st'"
proof -
  from wf obtain bs where bs: "concat bs = es" "[] \<notin> set bs" "w_index st = index_of 0 bs"
      "block_start_offset st = current_offset st \<or> bs \<noteq> []"
    unfolding wf_writer_def by blast
  from wf have st: "written st = enc_records es" "current_offset st = rsize es"
      "fold_res bloom_insert f0 (map (\<lambda>e. hash64 (fst e)) es) = Ok (w_filter st)"
      "es \<noteq> [] \<longrightarrow> w_min_key st = fst (hd es) \<and> w_max_key st = fst (last es)"
      "block_start_offset st \<le> current_offset st"
    unfolding wf_writer_def by blast+
  define bs' where "bs' = (if block_start_offset st = current_offset st then bs @ [[e]]
    else butlast bs @ [last bs @ [e]])"
  have idx: "concat bs' = es @ [e] \<and> [] \<notin> set bs' \<and> bs' \<noteq> [] \<and> index_of 0 bs' =
      (if block_start_offset st = current_offset st
       then w_index st @ [(fst e, word_of_nat (current_offset st))] else w_index st)"
  proof (cases "block_start_offset st = current_offset st")
    case True
    then show ?thesis using bs st by (simp add: bs'_def index_of_append)
  next
    case False
    then have "bs \<noteq> []" using bs(4) by simp
    then obtain cs c where cs: "bs = cs @ [c]" by (metis rev_exhaust)
    then have "c \<noteq> []" using bs(2) by auto
    then show ?thesis using False bs cs by (auto simp: bs'_def index_of_append)
  qed
  from step obtain f where f: "bloom_insert (w_filter st) (hash64 (fst e)) = Ok f"
    and st': "st' = \<lparr>written = written st @ enc_record e, w_index = index_of 0 bs', w_filter = f,
      w_min_key = (if current_offset st = 0 then fst e else w_min_key st), w_max_key = fst e,
      current_offset = current_offset st + (9 + length (fst e) + length (value_bytes (snd e))),
      block_start_offset =
        (if BLOCK_SIZE \<le> current_offset st + (9 + length (fst e) + length (value_bytes (snd e)))
              - block_start_offset st
         then current_offset st + (9 + length (fst e) + length (value_bytes (snd e)))
         else block_start_offset st)\<rparr>"
    using idx by (auto simp: write_entry_def Let_def res_simps)
  have "\<exists>bs. concat bs = es @ [e] \<and> [] \<notin> set bs \<and> w_index st' = index_of 0 bs \<and>
      (block_start_offset st' = current_offset st' \<or> bs \<noteq> [])"
    using idx by (intro exI [of _ bs']) (simp add: st')
  moreover have "es \<noteq> [] \<longrightarrow> current_offset st \<noteq> 0" using st(2) by simp
  ultimately show ?thesis
    using st f unfolding wf_writer_def
    by (simp add: st' fold_res_append)
qed

lemma fold_write_entry_wf:
  assumes "fold_res write_entry \<lparr>written = [], w_index = [], w_filter = f0, w_min_key = [],
      w_max_key = [], current_offset = 0, block_start_offset = 0\<rparr> es = Ok st"
  shows "wf_writer f0 es st"
proof (rule fold_res_invariant [OF assms, where P = "wf_writer f0"])
  show "wf_writer f0 [] \<lparr>written = [], w_index = [], w_filter = f0, w_min_key = [],
      w_max_key = [], current_offset = 0, block_start_offset = 0\<rparr>"
    by (auto simp: wf_writer_def intro!: exI [of _ "[]"])
qed (rule write_entry_wf)

text \<open>With a filter from \<open>bloom_new\<close> the loop always runs to its end.\<close>

lemma write_entry_total:
  assumes "wf_bloom (w_filter st)"
  shows "\<exists>st'. write_entry st e = Ok st' \<and> wf_bloom (w_filter st')"
  using bloom_filter.ins_total [OF assms, of "hash64 (fst e)"]
  by (auto simp: write_entry_def Let_def)

lemma fold_write_entry_total:
  "wf_bloom (w_filter st) \<Longrightarrow> \<exists>st'. fold_res write_entry st es = Ok st'"
proof (induction es arbitrary: st)
  case Nil
  then show ?case by simp
next
  case (Cons e es)
  from write_entry_total [OF Cons.prems, of e] obtain st' where
    "write_entry st e = Ok st'" "wf_bloom (w_filter st')" by auto
  with Cons.IH [of st'] show ?case by simp
qed

section \<open>A table stands for its entries\<close>

definition entry_fits :: "entry \<Rightarrow> bool" where
  "entry_fits e \<longleftrightarrow> length (fst e) < 2 ^ 32 \<and> length (value_bytes (snd e)) < 2 ^ 32"

definition wf_table :: "sstable \<Rightarrow> entry list \<Rightarrow> bool" where
  "wf_table t es \<longleftrightarrow>
     es \<noteq> [] \<and> key_sorted es \<and> (\<forall>e \<in> set es. entry_fits e) \<and>
     length (file_data t) < 2 ^ 63 \<and>
     (\<exists>bs. concat bs = es \<and> [] \<notin> set bs \<and> sparse_index t = index_of 0 bs) \<and>
     index_start t = word_of_nat (rsize es) \<and>
     take (rsize es) (file_data t) = enc_records es \<and>
     min_key t = fst (hd es) \<and> max_key t = fst (last es) \<and>
     wf_bloom (key_filter t) \<and>
     (\<forall>e \<in> set es. bloom_contains (key_filter t) (hash64 (fst e)) = Ok True)"

lemma build_table_writer:
  assumes "build_table span n b es = Ok t"
  obtains f0 st where "bloom_new n b = Ok f0" "wf_writer f0 es st" "wf_bloom (w_filter st)"
    "path t = sst_name span" "span_of t = span"
    "sparse_index t = w_index st" "index_start t = word_of_nat (rsize es)"
    "min_key t = w_min_key st" "max_key t = w_max_key st" "key_filter t = w_filter st"
    "file_data t = enc_records es @ concat (map enc_index_entry (w_index st)) @
       enc_filter (w_filter st) @ prefixed (w_min_key st) @ prefixed (w_max_key st) @
       enc_trailer (rsize es)
         (rsize es + sum_list (map (\<lambda>e. 4 + length (fst e) + 8) (w_index st)))
         (rsize es + sum_list (map (\<lambda>e. 4 + length (fst e) + 8) (w_index st)) + 12 +
           length (bits (w_filter st)) * 8)"
proof -
  from assms obtain f0 st where f0: "bloom_new n b = Ok f0"
    and st: "fold_res write_entry \<lparr>written = [], w_index = [], w_filter = f0, w_min_key = [],
      w_max_key = [], current_offset = 0, block_start_offset = 0\<rparr> es = Ok st"
    by (auto simp: build_table_def res_simps)
  have wf: "wf_writer f0 es st" using st by (rule fold_write_entry_wf)
  then have w: "written st = enc_records es" "current_offset st = rsize es"
      "fold_res bloom_insert f0 (map (\<lambda>e. hash64 (fst e)) es) = Ok (w_filter st)"
    unfolding wf_writer_def by blast+
  have "wf_bloom (w_filter st)"
    using bloom_filter.fold_total [OF bloom_new_wf(1) [OF f0], of "map (\<lambda>e. hash64 (fst e)) es"]
      w(3) by auto
  then show ?thesis
    using assms f0 st wf w that [of f0 st] by (auto simp: build_table_def span_of_def Let_def)
qed

lemma build_table_total:
  assumes "bloom_new n b = Ok f"
  shows "\<exists>t. build_table span n b es = Ok t"
proof -
  have "\<exists>st. fold_res write_entry \<lparr>written = [], w_index = [], w_filter = f, w_min_key = [],
      w_max_key = [], current_offset = 0, block_start_offset = 0\<rparr> es = Ok st"
    using bloom_new_wf(1) [OF assms] by (intro fold_write_entry_total) simp
  then show ?thesis using assms by (auto simp: build_table_def Let_def)
qed

lemma build_table_wf:
  assumes build: "build_table span n b es = Ok t"
    and es: "es \<noteq> []" "key_sorted es" "\<forall>e \<in> set es. entry_fits e"
    and size: "length (file_data t) < 2 ^ 63"
  shows "wf_table t es"
proof (rule build_table_writer [OF build])
  fix f0 st
  assume f0: "bloom_new n b = Ok f0" and wf: "wf_writer f0 es st"
    and fl: "wf_bloom (w_filter st)" "key_filter t = w_filter st"
    and t: "sparse_index t = w_index st" "index_start t = word_of_nat (rsize es)"
      "min_key t = w_min_key st" "max_key t = w_max_key st"
    and fd: "file_data t = enc_records es @ concat (map enc_index_entry (w_index st)) @
       enc_filter (w_filter st) @ prefixed (w_min_key st) @ prefixed (w_max_key st) @
       enc_trailer (rsize es)
         (rsize es + sum_list (map (\<lambda>e. 4 + length (fst e) + 8) (w_index st)))
         (rsize es + sum_list (map (\<lambda>e. 4 + length (fst e) + 8) (w_index st)) + 12 +
           length (bits (w_filter st)) * 8)"
  from wf have w: "fold_res bloom_insert f0 (map (\<lambda>e. hash64 (fst e)) es) = Ok (w_filter st)"
      "es \<noteq> [] \<longrightarrow> w_min_key st = fst (hd es) \<and> w_max_key st = fst (last es)"
      "\<exists>bs. concat bs = es \<and> [] \<notin> set bs \<and> w_index st = index_of 0 bs"
    unfolding wf_writer_def by blast+
  have "bloom_contains (key_filter t) (hash64 (fst e)) = Ok True" if "e \<in> set es" for e
    using bloom_filter.fold_mem [OF bloom_new_wf(1) [OF f0] w(1)] that fl(2) by simp
  then show ?thesis using es size fl t fd w by (simp add: wf_table_def)
qed

lemma length_enc_index:
  "length (concat (map enc_index_entry idx)) = sum_list (map (\<lambda>e. 4 + length (fst e) + 8) idx)"
  by (induction idx) (simp_all add: enc_index_entry_def)

lemma length_concat_u64: "length (concat (map u64_to_le ws)) = 8 * length ws"
  by (induction ws) simp_all

lemma length_enc_trailer [simp]: "length (enc_trailer i f m) = 32"
  by (simp add: enc_trailer_def MAGIC_def)

lemma set_probe_length: "set_probe h f i = Ok g \<Longrightarrow> length (bits g) = length (bits f)"
  by (auto simp: set_probe_def res_simps Let_def split: if_splits)

lemma fold_set_probe_length:
  "fold_res (set_probe h) f ps = Ok g \<Longrightarrow> length (bits g) = length (bits f)"
  by (induction ps arbitrary: f) (auto simp: res_simps dest!: set_probe_length)

lemma fold_bloom_length:
  "fold_res bloom_insert f hs = Ok g \<Longrightarrow> length (bits g) = length (bits f)"
  by (induction hs arbitrary: f) (auto simp: res_simps bloom_insert_def dest!: fold_set_probe_length)

text \<open>How large a file can get, in terms of what is written to it.\<close>

lemma rsize_length: "9 * length es \<le> rsize es"
  by (induction es) simp_all

lemma index_size:
  "[] \<notin> set bs \<Longrightarrow> sum_list (map (\<lambda>e. 4 + length (fst e) + 8) (index_of off bs)) \<le> 2 * rsize (concat bs)"
proof (induction bs arbitrary: off)
  case Nil
  then show ?case by simp
next
  case (Cons b bs)
  then obtain e b' where b: "b = e # b'" by (cases b) auto
  then show ?case using Cons.IH [of "off + rsize b"] Cons.prems by simp
qed

lemma build_table_size:
  assumes build: "build_table span n b es = Ok t" and es: "es \<noteq> []" and nb: "n * b + 127 < 2 ^ 64"
  shows "length (file_data t) \<le> 5 * rsize es + n * b + 179"
proof (rule build_table_writer [OF build])
  fix f0 st
  assume f0: "bloom_new n b = Ok f0" and wf: "wf_writer f0 es st"
    and fd: "file_data t = enc_records es @ concat (map enc_index_entry (w_index st)) @
       enc_filter (w_filter st) @ prefixed (w_min_key st) @ prefixed (w_max_key st) @
       enc_trailer (rsize es)
         (rsize es + sum_list (map (\<lambda>e. 4 + length (fst e) + 8) (w_index st)))
         (rsize es + sum_list (map (\<lambda>e. 4 + length (fst e) + 8) (w_index st)) + 12 +
           length (bits (w_filter st)) * 8)"
  from wf have w: "w_min_key st = fst (hd es)" "w_max_key st = fst (last es)"
      "fold_res bloom_insert f0 (map (\<lambda>e. hash64 (fst e)) es) = Ok (w_filter st)"
      "\<exists>bs. concat bs = es \<and> [] \<notin> set bs \<and> w_index st = index_of 0 bs"
    using es unfolding wf_writer_def by blast+
  have "length (bits (w_filter st)) = length (bits f0)"
    by (rule fold_bloom_length [OF w(3)])
  moreover have "64 * length (bits f0) \<le> n * b + 127"
    using bloom_new_total [OF nb] f0 by auto
  ultimately have filter: "length (enc_filter (w_filter st)) \<le> n * b + 139"
    by (simp add: enc_filter_def length_concat_u64)
  have key: "length (fst e) \<le> rsize es" if "e \<in> set es" for e
    using that by (induction es) auto
  have "length (concat (map enc_index_entry (w_index st))) \<le> 2 * rsize es"
    using w(4) index_size length_enc_index by metis
  then show ?thesis
    using filter key [of "hd es"] key [of "last es"] es
    by (simp add: fd w(1,2) length_enc_trailer)
qed

section \<open>Opening what was written\<close>

lemma read_words_concat:
  "read_words (length ws) (concat (map u64_to_le ws) @ r) = Ok (ws, r)"
  by (induction ws) (simp_all add: read_exact_append)

lemma read_index_concat:
  "\<forall>e \<in> set idx. length (fst e) < 2 ^ 32 \<Longrightarrow>
     read_index pos (pos + sum_list (map (\<lambda>e. 4 + length (fst e) + 8) idx))
       (concat (map enc_index_entry idx) @ r) acc = Ok (acc @ idx)"
proof (induction idx arbitrary: pos acc)
  case Nil
  then show ?case by (subst read_index.simps) simp
next
  case (Cons e idx)
  have "read_index (pos + 4 + length (fst e) + 8)
      (pos + 4 + length (fst e) + 8 + sum_list (map (\<lambda>e. 4 + length (fst e) + 8) idx))
      (concat (map enc_index_entry idx) @ r) (acc @ [e]) = Ok (acc @ e # idx)"
    using Cons by simp
  then show ?case using Cons.prems
    by (subst read_index.simps)
      (simp add: enc_index_entry_def read_prefixed_prefixed read_exact_append add_ac)
qed

lemma enc_trailer_fields:
  "take 6 (drop 24 (enc_trailer i f m)) = MAGIC" "enc_trailer i f m ! 30 = FORMAT_VERSION"
  "take 8 (enc_trailer i f m) = u64_to_le (word_of_nat i)"
  "take 8 (drop 8 (enc_trailer i f m)) = u64_to_le (word_of_nat f)"
  "take 8 (drop 16 (enc_trailer i f m)) = u64_to_le (word_of_nat m)"
  by (simp_all add: enc_trailer_def MAGIC_def nth_append)

lemma bloom_parts [simp]: "bloom_from_parts (bits f) (num_bits f) (num_probes f) = f"
  by (simp add: bloom_from_parts_def)

lemma index_of_keys: "[] \<notin> set bs \<Longrightarrow> e \<in> set (index_of off bs) \<Longrightarrow> fst e \<in> fst ` set (concat bs)"
  by (induction bs arbitrary: off) (force dest: hd_in_set)+

lemma sst_open_build_table:
  assumes build: "build_table span n b es = Ok t"
    and es: "es \<noteq> []" "\<forall>e \<in> set es. entry_fits e"
    and size: "length (file_data t) < 2 ^ 63"
  shows "sst_open d name (file_data t) lo hi =
    Ok (t\<lparr>path := name, first_seq := lo, last_seq := hi\<rparr>)"
proof (rule build_table_writer [OF build])
  fix f0 st
  assume wf: "wf_writer f0 es st"
    and fl: "wf_bloom (w_filter st)" "key_filter t = w_filter st"
    and t: "sparse_index t = w_index st" "index_start t = word_of_nat (rsize es)"
      "min_key t = w_min_key st" "max_key t = w_max_key st"
  define i where "i = rsize es"
  define f where "f = i + sum_list (map (\<lambda>e. 4 + length (fst e) + 8) (w_index st))"
  define m where "m = f + 12 + length (bits (w_filter st)) * 8"
  define T where "T = enc_trailer i f m"
  define M where "M = prefixed (w_min_key st) @ prefixed (w_max_key st)"
  define F where "F = enc_filter (w_filter st)"
  define I where "I = concat (map enc_index_entry (w_index st))"
  assume "file_data t = enc_records es @ concat (map enc_index_entry (w_index st)) @
       enc_filter (w_filter st) @ prefixed (w_min_key st) @ prefixed (w_max_key st) @
       enc_trailer (rsize es)
         (rsize es + sum_list (map (\<lambda>e. 4 + length (fst e) + 8) (w_index st)))
         (rsize es + sum_list (map (\<lambda>e. 4 + length (fst e) + 8) (w_index st)) + 12 +
           length (bits (w_filter st)) * 8)"
  then have fd: "file_data t = enc_records es @ I @ F @ M @ T"
    by (simp add: I_def F_def M_def T_def i_def f_def m_def)
  have len: "length (enc_records es) = i" "length (enc_records es @ I) = f"
      "length (enc_records es @ I @ F) = m"
    by (simp_all add: i_def I_def f_def length_enc_index F_def enc_filter_def length_concat_u64 m_def)
  have bound: "m < 2 ^ 63" using size fd len by simp
  then have small: "i < 2 ^ 63" "f < 2 ^ 63" by (simp_all add: f_def m_def)
  have conv: "unat (word_of_nat i :: u64) = i" "unat (word_of_nat f :: u64) = f"
      "unat (word_of_nat m :: u64) = m"
    using bound small by (simp_all add: unat_of_nat_u64)
  have seeks: "drop i (file_data t) = I @ F @ M @ T" "drop f (file_data t) = F @ M @ T"
      "drop m (file_data t) = M @ T"
    using len by (simp_all add: fd flip: append_assoc)
  from wf have w: "w_min_key st = fst (hd es)" "w_max_key st = fst (last es)"
      "\<exists>bs. concat bs = es \<and> [] \<notin> set bs \<and> w_index st = index_of 0 bs"
    using es(1) unfolding wf_writer_def by blast+
  then have keys: "length (w_min_key st) < 2 ^ 32" "length (w_max_key st) < 2 ^ 32"
    using es by (simp_all add: entry_fits_def)
  have idx: "\<forall>e \<in> set (w_index st). length (fst e) < 2 ^ 32"
    using w(3) es(2) index_of_keys by (fastforce simp: entry_fits_def)
  have "read_index i f (I @ F @ M @ T) [] = Ok (w_index st)"
    using read_index_concat [OF idx, of i "F @ M @ T" "[]"] by (simp add: I_def f_def)
  moreover have "read_exact 12 (F @ M @ T) =
      Ok (u64_to_le (num_bits (w_filter st)) @ u32_to_le (num_probes (w_filter st)),
          concat (map u64_to_le (bits (w_filter st))) @ M @ T)"
    using read_exact_append [of "u64_to_le (num_bits (w_filter st)) @ u32_to_le (num_probes (w_filter st))" 12]
    by (simp add: F_def enc_filter_def)
  moreover have "unat (num_bits (w_filter st)) div 64 = length (bits (w_filter st))"
    using fl(1) by (simp add: wf_bloom_def)
  moreover have "seek_end (file_data t) TRAILER_SIZE = Ok T"
    using fd by (simp add: seek_end_def TRAILER_SIZE_def T_def)
  moreover have "read_exact TRAILER_SIZE T = Ok (T, [])"
    using read_exact_append [of T TRAILER_SIZE "[]"] by (simp add: TRAILER_SIZE_def T_def)
  moreover have "read_prefixed (M @ T) = Ok (w_min_key st, prefixed (w_max_key st) @ T)"
    and "read_prefixed (prefixed (w_max_key st) @ T) = Ok (w_max_key st, T)"
    using keys by (simp_all add: M_def read_prefixed_prefixed)
  moreover have "take 6 (drop 24 T) = MAGIC" "T ! 30 = FORMAT_VERSION"
    "u64_from_le (take 8 T) = word_of_nat i" "u64_from_le (take 8 (drop 8 T)) = word_of_nat f"
    "u64_from_le (take 8 (drop 16 T)) = word_of_nat m"
    by (simp_all add: T_def enc_trailer_fields)
  moreover have "t\<lparr>path := name, first_seq := lo, last_seq := hi\<rparr> =
      \<lparr>path = name, file_data = file_data t, first_seq = lo, last_seq = hi,
       sparse_index = w_index st, index_start = word_of_nat i, min_key = w_min_key st,
       max_key = w_max_key st, key_filter = w_filter st\<rparr>"
    using t fl i_def by simp
  ultimately show ?thesis
    using bound small
    by (simp add: sst_open_def Let_def seek_start_def seeks conv read_words_concat)
qed

end
