(* ===== verification/Table_Read.thy ===== *)
theory Table_Read
  imports SSTable
begin

text \<open>
  Reading a table (\<^verbatim>\<open>src/src/sstable.rs\<close>): the point lookup \<open>SSTable::get\<close>, which rejects by key
  range and filter, finds the one block by the sparse index and scans it, and the iterator
  \<open>Records\<close> over all entries. Offsets come from the file: the difference of two of them is
  checked (\<open>sub_u64\<close> panics where Rust's checked subtraction does), a read past the end is
  \<open>UnexpectedEof\<close>.
\<close>

datatype found = Value bytes | Tombstone

definition sub_u64 :: "u64 \<Rightarrow> u64 \<Rightarrow> u64 res" where
  "sub_u64 a b = (if b \<le> a then Ok (a - b) else Fail Panic)"

text \<open>\<open>FileExt::read_exact_at\<close>; an empty buffer is filled without a system call.\<close>

definition read_exact_at :: "bytes \<Rightarrow> nat \<Rightarrow> nat \<Rightarrow> bytes res" where
  "read_exact_at f n off =
     (if n = 0 then Ok []
      else if 2 ^ 63 \<le> off then Err InvalidInput (str ''Invalid argument (os error 22)'')
      else if off + n \<le> length f then Ok (take n (drop off f))
      else Err UnexpectedEof (str ''failed to fill whole buffer''))"

text \<open>The number of leading elements that satisfy the predicate of \<open>partition_point\<close>.\<close>

definition partition_point :: "('a \<Rightarrow> bool) \<Rightarrow> 'a list \<Rightarrow> nat" where
  "partition_point p xs = length (takeWhile p xs)"

definition block_start_of :: "sstable \<Rightarrow> nat \<Rightarrow> u64" where
  "block_start_of t i = snd (sparse_index t ! i)"

definition block_end_of :: "sstable \<Rightarrow> nat \<Rightarrow> u64" where
  "block_end_of t i =
     (if i + 1 < length (sparse_index t) then snd (sparse_index t ! (i + 1)) else index_start t)"

definition read_block :: "sstable \<Rightarrow> nat \<Rightarrow> bytes res" where
  "read_block t i =
     bind_res (sub_u64 (block_end_of t i) (block_start_of t i)) (\<lambda>n.
     read_exact_at (file_data t) (unat n) (unat (block_start_of t i)))"

function scan_block :: "bytes \<Rightarrow> nat \<Rightarrow> nat \<Rightarrow> bytes \<Rightarrow> found option res" where
  "scan_block key pos block_end reader =
     (if pos < block_end then
        bind_res (read_prefixed reader) (\<lambda>(record_key, r1).
        bind_res (read_prefixed r1) (\<lambda>(val, r2).
        bind_res (read_exact 1 r2) (\<lambda>(op, r3).
        let pos' = pos + (9 + length record_key + length val)
        in if record_key < key then scan_block key pos' block_end r3
           else if key < record_key then Ok None
           else if hd op = 0 then Ok (Some (Value val))
           else if hd op = 1 then Ok (Some Tombstone)
           else Err InvalidData (str ''invalid op_type byte in SSTable record''))))
      else Ok None)"
  by pat_completeness auto
termination
  by (relation "measure (\<lambda>(key, pos, block_end, reader). block_end - pos)") auto

declare scan_block.simps [simp del]

definition sst_get :: "sstable \<Rightarrow> bytes \<Rightarrow> u64 \<Rightarrow> found option res" where
  "sst_get t key hash =
     (if key < min_key t \<or> max_key t < key then Ok None
      else bind_res (bloom_contains (key_filter t) hash) (\<lambda>maybe.
        if \<not> maybe then Ok None
        else
          let candidate = partition_point (\<lambda>e. fst e \<le> key) (sparse_index t)
          in if candidate = 0 then Ok None
             else
               let block = candidate - 1
               in bind_res (read_block t block) (\<lambda>buf.
                  scan_block key (unat (block_start_of t block)) (unat (block_end_of t block)) buf)))"

section \<open>The iterator over all records\<close>

record records =
  rblock :: nat
  rbuf :: bytes
  rcursor :: nat

definition records_of :: "records" where
  "records_of = \<lparr>rblock = 0, rbuf = [], rcursor = 0\<rparr>"

definition decode_entry :: "bytes \<Rightarrow> (entry \<times> nat) res" where
  "decode_entry reader =
     bind_res (read_prefixed reader) (\<lambda>(key, r1).
     bind_res (read_prefixed r1) (\<lambda>(val, r2).
     bind_res (read_exact 1 r2) (\<lambda>(op, r3).
     let n = 9 + length key + length val
     in if hd op = 0 then Ok ((key, Some val), n)
        else if hd op = 1 then Ok ((key, None), n)
        else Err InvalidData (str ''invalid op_type byte in SSTable record''))))"

text \<open>
  \<open>next_record\<close> with the iterator it leaves behind. After an error no caller looks at the
  iterator again, so it is returned as it was.
\<close>

function next_record :: "sstable \<Rightarrow> records \<Rightarrow> entry option res \<times> records" where
  "next_record t it =
     (if length (rbuf it) \<le> rcursor it then
        if rblock it < length (sparse_index t) then
          (case read_block t (rblock it) of
             Fail s \<Rightarrow> (Fail s, it)
           | Ok buf \<Rightarrow> next_record t \<lparr>rblock = Suc (rblock it), rbuf = buf, rcursor = 0\<rparr>)
        else (Ok None, it)
      else
        (case decode_entry (drop (rcursor it) (rbuf it)) of
           Fail s \<Rightarrow> (Fail s, it)
         | Ok (e, n) \<Rightarrow> (Ok (Some e), it\<lparr>rcursor := rcursor it + n\<rparr>)))"
  by pat_completeness auto
termination
  by (relation "measure (\<lambda>(t, it). length (sparse_index t) - rblock it)") auto

declare next_record.simps [simp del]

section \<open>Blocks of a well-formed table\<close>

lemma sub_u64_of_nat:
  assumes "a \<le> b" and "b < 2 ^ 64"
  shows "sub_u64 (word_of_nat b) (word_of_nat a) = Ok (word_of_nat (b - a))"
proof -
  have "unat (word_of_nat a :: u64) = a" and "unat (word_of_nat b :: u64) = b"
    using assms by (auto intro!: unat_of_nat_u64)
  then show ?thesis
    using assms by (simp add: sub_u64_def word_le_nat_alt)
qed

lemma concat_take_Suc: "i < length bs \<Longrightarrow> concat (take (Suc i) bs) = concat (take i bs) @ bs ! i"
  by (simp add: take_Suc_conv_app_nth)

lemma concat_split3:
  "i < length bs \<Longrightarrow> concat bs = concat (take i bs) @ bs ! i @ concat (drop (Suc i) bs)"
  by (metis append.assoc append_take_drop_id concat_append concat_take_Suc)

lemma wf_table_bound: "wf_table t es \<Longrightarrow> rsize es < 2 ^ 63"
proof -
  assume "wf_table t es"
  then have "length (file_data t) < 2 ^ 63" and "take (rsize es) (file_data t) = enc_records es"
    by (auto simp: wf_table_def)
  then show "rsize es < 2 ^ 63"
    by (metis length_enc_records length_take min.cobounded1 le_less_trans)
qed

lemma wf_table_blocks:
  assumes "wf_table t es"
  obtains bs where "concat bs = es" "[] \<notin> set bs" "sparse_index t = index_of 0 bs" "bs \<noteq> []"
    "\<And>i. i < length bs \<Longrightarrow> block_start_of t i = word_of_nat (rsize (concat (take i bs)))"
    "\<And>i. i < length bs \<Longrightarrow> unat (block_start_of t i) = rsize (concat (take i bs))"
    "\<And>i. i < length bs \<Longrightarrow> unat (block_end_of t i) = rsize (concat (take (Suc i) bs))"
    "\<And>i. i < length bs \<Longrightarrow> read_block t i = Ok (enc_records (bs ! i))"
proof -
  from assms obtain bs where bs: "concat bs = es" "[] \<notin> set bs" "sparse_index t = index_of 0 bs"
    and es: "es \<noteq> []" and istart: "index_start t = word_of_nat (rsize es)"
    and fd: "take (rsize es) (file_data t) = enc_records es"
    by (auto simp: wf_table_def)
  note bound = wf_table_bound [OF assms]
  have le: "rsize (concat (take i bs)) \<le> rsize es" for i
    using bs(1) by (metis append_take_drop_id concat_append le_add1 rsize_simps(3))
  have start: "block_start_of t i = word_of_nat (rsize (concat (take i bs)))"
    if "i < length bs" for i
    using that bs(3) by (simp add: block_start_of_def nth_index_of)
  have stop: "block_end_of t i = word_of_nat (rsize (concat (take (Suc i) bs)))"
    if "i < length bs" for i
  proof (cases "Suc i < length bs")
    case True
    then show ?thesis using bs(3) by (simp add: block_end_of_def nth_index_of)
  next
    case False
    then have "take (Suc i) bs = bs" using that by simp
    then show ?thesis using False bs istart by (simp add: block_end_of_def)
  qed
  have nat: "unat (word_of_nat (rsize (concat (take i bs))) :: u64) = rsize (concat (take i bs))" for i
    using le [of i] bound by (intro unat_of_nat_u64) simp
  have "read_block t i = Ok (enc_records (bs ! i))" if i: "i < length bs" for i
  proof -
    let ?a = "rsize (concat (take i bs))" and ?n = "rsize (bs ! i)"
    have parts: "rsize (concat (take (Suc i) bs)) = ?a + ?n"
      using i by (simp add: concat_take_Suc)
    have n: "?a + ?n \<le> rsize es" using le [of "Suc i"] parts by simp
    have "enc_records es = enc_records (concat (take i bs)) @ enc_records (bs ! i) @
        enc_records (concat (drop (Suc i) bs))"
      using concat_split3 [OF i] bs(1) by (metis enc_records_simps(3))
    then have "take ?n (drop ?a (enc_records es)) = enc_records (bs ! i)" by simp
    moreover have "take ?n (drop ?a (enc_records es)) = take ?n (drop ?a (file_data t))"
      using n by (simp add: take_drop min_def flip: fd)
    moreover have "rsize es \<le> length (file_data t)"
      using arg_cong [OF fd, of length] by (metis length_enc_records length_take min.cobounded1)
    moreover have "sub_u64 (block_end_of t i) (block_start_of t i) = Ok (word_of_nat ?n)"
      using sub_u64_of_nat [of ?a "?a + ?n"] n bound i by (simp add: start stop parts del: of_nat_add)
    moreover have "unat (word_of_nat ?n :: u64) = ?n" using n bound by (intro unat_of_nat_u64) simp
    ultimately show ?thesis
      using n bound i by (simp add: read_block_def read_exact_at_def start nat)
  qed
  then show ?thesis using that [of bs] bs es start stop nat by fastforce
qed

section \<open>Point lookups\<close>

fun found_of :: "bytes option \<Rightarrow> found" where
  "found_of (Some v) = Value v"
| "found_of None = Tombstone"

lemma op_type_simps [simp]: "op_type (Some v) = 0" "op_type None = 1"
  by (simp_all add: op_type_def)

lemma value_bytes_simps [simp]: "value_bytes (Some v) = v" "value_bytes None = []"
  by (simp_all add: value_bytes_def)

lemma scan_block_records:
  assumes "key_sorted es" and "\<forall>e \<in> set es. entry_fits e"
  shows "scan_block key pos (pos + rsize es) (enc_records es) = Ok (map_option found_of (map_of es key))"
  using assms
proof (induction es arbitrary: pos)
  case Nil
  then show ?case by (subst scan_block.simps) simp
next
  case (Cons e es)
  obtain k v where e: "e = (k, v)" by (cases e)
  define R where "R = enc_records (e # es)"
  have rd: "read_prefixed R = Ok (k, prefixed (value_bytes v) @ op_type v # enc_records es)"
    "read_prefixed (prefixed (value_bytes v) @ op_type v # enc_records es) =
      Ok (value_bytes v, op_type v # enc_records es)"
    "read_exact (Suc 0) (op_type v # enc_records es) = Ok ([op_type v], enc_records es)"
    using Cons.prems(2) e
    by (simp_all add: R_def enc_record_def read_prefixed_prefixed entry_fits_def read_exact_def)
  have above: "map_of es key = None" if "key \<le> k"
    using Cons.prems(1) that by (intro map_of_below) (auto simp: e dest: le_less_trans)
  have "scan_block key (pos + (9 + length k + length (value_bytes v)))
      (pos + rsize (e # es)) (enc_records es) = Ok (map_option found_of (map_of es key))"
    using Cons.IH [of "pos + (9 + length k + length (value_bytes v))"] Cons.prems
    by (simp add: e add.assoc)
  moreover have "scan_block key pos (pos + rsize (e # es)) R =
      (if k < key then scan_block key (pos + (9 + length k + length (value_bytes v)))
         (pos + rsize (e # es)) (enc_records es)
       else if key < k then Ok None
       else if op_type v = 0 then Ok (Some (Value (value_bytes v)))
       else if op_type v = 1 then Ok (Some Tombstone)
       else Err InvalidData (str ''invalid op_type byte in SSTable record''))"
    by (subst scan_block.simps) (simp add: rd Let_def)
  ultimately have "scan_block key pos (pos + rsize (e # es)) R =
      Ok (map_option found_of (map_of (e # es) key))"
    using above by (cases v; cases k key rule: linorder_cases) (auto simp: e)
  then show ?case by (simp add: R_def)
qed

text \<open>The index names the block that a key lives in, if it lives in the table at all.\<close>

lemma partition_point_unique:
  assumes "c \<le> length xs" and "\<And>i. i < c \<Longrightarrow> p (xs ! i)" and "c < length xs \<Longrightarrow> \<not> p (xs ! c)"
  shows "partition_point p xs = c"
  using assms
proof (induction xs arbitrary: c)
  case Nil
  then show ?case by (simp add: partition_point_def)
next
  case (Cons x xs)
  show ?case
  proof (cases c)
    case 0
    then show ?thesis using Cons.prems(3) by (simp add: partition_point_def)
  next
    case (Suc c')
    have "partition_point p xs = c'"
      using Cons.prems(1,3) Cons.prems(2) [of "Suc i" for i] Suc by (intro Cons.IH) auto
    then show ?thesis using Suc Cons.prems(2) [of 0] by (simp add: partition_point_def)
  qed
qed

lemma key_sorted_blocks:
  assumes "key_sorted (concat bs)" and "i < j" and "j < length bs"
    and "k \<in> fst ` set (bs ! i)" and "k' \<in> fst ` set (bs ! j)"
  shows "k < k'"
proof -
  have "concat bs = concat (take j bs) @ concat (drop j bs)"
    by (metis append_take_drop_id concat_append)
  then have sep: "\<forall>k \<in> fst ` set (concat (take j bs)). \<forall>k' \<in> fst ` set (concat (drop j bs)). k < k'"
    using assms(1) by (auto simp: key_sorted_append)
  have "bs ! i \<in> set (take j bs)" using assms(2,3) by (auto simp: in_set_conv_nth)
  moreover have "bs ! j \<in> set (drop j bs)"
    using assms(3) by (metis Cons_nth_drop_Suc list.set_intros(1))
  ultimately show ?thesis using sep assms(4,5) by fastforce
qed

lemma map_of_concat_blocks:
  assumes sorted: "key_sorted (concat bs)" and i: "i < length bs"
    and ne: "[] \<notin> set bs" and lo: "fst (hd (bs ! i)) \<le> key"
    and hi: "Suc i < length bs \<Longrightarrow> key < fst (hd (bs ! Suc i))"
  shows "map_of (concat bs) key = map_of (bs ! i) key"
proof -
  have hd_in: "fst (hd (bs ! j)) \<in> fst ` set (bs ! j)" if "j < length bs" for j
    using ne that by (metis hd_in_set imageI nth_mem)
  have "map_of (concat (take i bs)) key = None"
  proof (rule map_of_above)
    fix y assume "y \<in> fst ` set (concat (take i bs))"
    then obtain b where "b \<in> set (take i bs)" and yb: "y \<in> fst ` set b" by auto
    then obtain j where "j < i" "b = bs ! j" by (auto simp: in_set_conv_nth)
    then have "j < i" "y \<in> fst ` set (bs ! j)" using yb by simp_all
    then have "y < fst (hd (bs ! i))" using key_sorted_blocks [OF sorted] i hd_in [OF i] by blast
    then show "y < key" using lo by simp
  qed
  moreover have "map_of (concat (drop (Suc i) bs)) key = None"
  proof (rule map_of_below)
    fix y assume "y \<in> fst ` set (concat (drop (Suc i) bs))"
    then obtain b where bd: "b \<in> set (drop (Suc i) bs)" and yb: "y \<in> fst ` set b" by auto
    from bd obtain m where
      "m < length bs - Suc i" "b = drop (Suc i) bs ! m" by (auto simp: in_set_conv_nth)
    then obtain j where j: "Suc i \<le> j" "j < length bs" "b = bs ! j"
      using that [of "Suc i + m"] by simp
    have "key < fst (hd (bs ! Suc i))" using j by (intro hi) simp
    also have "\<dots> \<le> y"
    proof (cases "j = Suc i")
      case True
      then have "key_sorted (bs ! Suc i)"
        using sorted concat_split3 [of j bs] j by (metis key_sorted_append)
      moreover obtain e b' where "bs ! Suc i = e # b'"
        using ne j True by (metis list.exhaust nth_mem)
      ultimately show ?thesis using yb j True by (auto intro: less_imp_le)
    next
      case False
      then have "fst (hd (bs ! Suc i)) < y"
        using key_sorted_blocks [OF sorted, of "Suc i" j] j yb hd_in [of "Suc i"] by simp
      then show ?thesis by simp
    qed
    finally show "key < y" .
  qed
  ultimately show ?thesis
    using concat_split3 [OF i] by (simp add: map_add_def split: option.split)
qed

lemma wf_table_range:
  assumes "wf_table t es" and "key < min_key t \<or> max_key t < key"
  shows "map_of es key = None"
proof -
  from assms(1) have s: "key_sorted es" "es \<noteq> []" "min_key t = fst (hd es)" "max_key t = fst (last es)"
    by (auto simp: wf_table_def)
  from assms(2) show ?thesis
  proof
    assume "key < min_key t"
    then show ?thesis using s
      by (intro map_of_below) (cases es; auto intro: less_trans)
  next
    assume above: "max_key t < key"
    obtain es' e where es: "es = es' @ [e]" using s(2) by (metis rev_exhaust)
    then show ?thesis using s above
      by (intro map_of_above) (auto simp: key_sorted_append intro: less_trans)
  qed
qed

lemma sst_get_wf:
  assumes wf: "wf_table t es"
  shows "sst_get t key (hash64 key) = Ok (map_option found_of (map_of es key))"
proof (cases "key < min_key t \<or> max_key t < key")
  case True
  then show ?thesis using wf_table_range [OF wf] by (simp add: sst_get_def)
next
  case False
  from wf have s: "key_sorted es" "\<forall>e \<in> set es. entry_fits e" "min_key t = fst (hd es)" "es \<noteq> []"
    and filter: "wf_bloom (key_filter t)"
      "\<forall>e \<in> set es. bloom_contains (key_filter t) (hash64 (fst e)) = Ok True"
    by (auto simp: wf_table_def)
  obtain maybe where maybe: "bloom_contains (key_filter t) (hash64 key) = Ok maybe"
    using bloom_filter.mem_total [OF filter(1)] by blast
  have miss: "map_of es key = None" if "\<not> maybe"
  proof (rule ccontr)
    assume "map_of es key \<noteq> None"
    then have "key \<in> fst ` set es" by (simp add: map_of_eq_None_iff)
    then show False using filter(2) maybe that by auto
  qed
  from wf_table_blocks [OF wf] obtain bs where bs: "concat bs = es" "[] \<notin> set bs" "bs \<noteq> []"
      "sparse_index t = index_of 0 bs"
    and start: "\<And>i. i < length bs \<Longrightarrow> unat (block_start_of t i) = rsize (concat (take i bs))"
    and stop: "\<And>i. i < length bs \<Longrightarrow> unat (block_end_of t i) = rsize (concat (take (Suc i) bs))"
    and block: "\<And>i. i < length bs \<Longrightarrow> read_block t i = Ok (enc_records (bs ! i))"
    by metis
  define c where "c = partition_point (\<lambda>e. fst e \<le> key) (sparse_index t)"
  have fst_idx: "fst (sparse_index t ! i) = fst (hd (bs ! i))" if "i < length bs" for i
    using that bs(4) by (simp add: nth_index_of)
  have len: "length (sparse_index t) = length bs" by (simp add: bs(4))
  have c: "c \<le> length bs" "\<And>i. i < c \<Longrightarrow> fst (hd (bs ! i)) \<le> key"
    "c < length bs \<Longrightarrow> key < fst (hd (bs ! c))"
  proof -
    show le: "c \<le> length bs"
      using length_takeWhile_le [of "\<lambda>e. fst e \<le> key" "sparse_index t"]
      by (simp add: c_def partition_point_def len)
    show "fst (hd (bs ! i)) \<le> key" if "i < c" for i
    proof -
      have "takeWhile (\<lambda>e. fst e \<le> key) (sparse_index t) ! i = sparse_index t ! i"
        using that by (intro takeWhile_nth) (simp add: c_def partition_point_def)
      moreover have "takeWhile (\<lambda>e. fst e \<le> key) (sparse_index t) ! i \<in>
          set (takeWhile (\<lambda>e. fst e \<le> key) (sparse_index t))"
        using that by (intro nth_mem) (simp add: c_def partition_point_def)
      ultimately have "fst (sparse_index t ! i) \<le> key" by (metis set_takeWhileD)
      then show ?thesis using fst_idx [of i] le that by simp
    qed
    show "key < fst (hd (bs ! c))" if "c < length bs"
      using nth_length_takeWhile [of "\<lambda>e. fst e \<le> key" "sparse_index t"] that fst_idx [OF that]
      by (simp add: c_def partition_point_def len)
  qed
  have first: "fst (hd (bs ! 0)) = min_key t"
    using bs s(3,4) by (cases bs) (auto simp: hd_append)
  have "c \<noteq> 0"
  proof
    assume "c = 0"
    then have "key < min_key t" using c(3) bs(3) first by simp
    then show False using False by simp
  qed
  then have i: "c - 1 < length bs" "Suc (c - 1) = c" "c - 1 < c" using c(1) by auto
  let ?b = "bs ! (c - 1)"
  have "map_of es key = map_of ?b key"
    unfolding bs(1) [symmetric]
    using s(1) bs(1,2) i c by (intro map_of_concat_blocks) auto
  moreover have "key_sorted ?b" "\<forall>e \<in> set ?b. entry_fits e"
    using s(1,2) concat_split3 [OF i(1)] bs(1) by (auto simp: key_sorted_append)
  then have "scan_block key (rsize (concat (take (c - 1) bs)))
      (rsize (concat (take (c - 1) bs)) + rsize ?b) (enc_records ?b) =
      Ok (map_option found_of (map_of ?b key))" by (rule scan_block_records)
  moreover have "rsize (concat (take (Suc (c - 1)) bs)) = rsize (concat (take (c - 1) bs)) + rsize ?b"
    using i(1) by (simp only: concat_take_Suc rsize_simps)
  ultimately show ?thesis
    using False maybe miss \<open>c \<noteq> 0\<close> start [OF i(1)] stop [OF i(1)] block [OF i(1)]
    by (simp add: sst_get_def Let_def flip: c_def)
qed

end
