(* ===== verification/Merge.thy ===== *)
theory Merge
  imports Table_Read
begin

text \<open>
  The merge of a compaction (\<open>merge\<close> in \<^verbatim>\<open>src/src/sstable.rs\<close>): one peekable iterator per table,
  oldest table first; each round takes the smallest key in front of any iterator, from every
  iterator that has it, and keeps the value of the last of them. A peekable iterator is generic in
  the iterator it wraps, as Rust's \<open>Peekable\<close> is; the locale \<open>entry_source\<close> is what the merge
  relies on.
\<close>

section \<open>Peekable iterators\<close>

record ('s, 'i) peekable =
  pk_iter :: 's
  pk_peeked :: "'i option"

definition pk_new :: "'s \<Rightarrow> ('s, 'i) peekable" where
  "pk_new s = \<lparr>pk_iter = s, pk_peeked = None\<rparr>"

definition pk_peek :: "('s \<Rightarrow> 'i \<times> 's) \<Rightarrow> ('s, 'i) peekable \<Rightarrow> 'i \<times> ('s, 'i) peekable" where
  "pk_peek nxt p =
     (case pk_peeked p of
        Some x \<Rightarrow> (x, p)
      | None \<Rightarrow> (let (x, s) = nxt (pk_iter p) in (x, \<lparr>pk_iter = s, pk_peeked = Some x\<rparr>)))"

definition pk_next :: "('s \<Rightarrow> 'i \<times> 's) \<Rightarrow> ('s, 'i) peekable \<Rightarrow> 'i \<times> ('s, 'i) peekable" where
  "pk_next nxt p =
     (case pk_peeked p of
        Some x \<Rightarrow> (x, p\<lparr>pk_peeked := None\<rparr>)
      | None \<Rightarrow> (let (x, s) = nxt (pk_iter p) in (x, \<lparr>pk_iter = s, pk_peeked = None\<rparr>)))"

text \<open>
  \<open>Iterator for Records\<close>: \<open>next_record\<close> transposed, on the table that the iterator borrows.
  \<open>Ok None\<close> is the end, \<open>Fail\<close> an item that is an error (or the panic of the call).
\<close>

type_synonym table_iter = "sstable \<times> records"

definition next_of :: "table_iter \<Rightarrow> entry option res \<times> table_iter" where
  "next_of i = (let (x, it) = next_record (fst i) (snd i) in (x, (fst i, it)))"

type_synonym source = "(table_iter, entry option res) peekable"

section \<open>The merge\<close>

text \<open>The first loop of a round: every iterator is peeked, an error in front of one returns.\<close>

fun peek_all :: "source list \<Rightarrow> source list res" where
  "peek_all [] = Ok []"
| "peek_all (p # ps) =
     (case pk_peek next_of p of
        (Fail s, p1) \<Rightarrow> Fail s
      | (Ok x, p1) \<Rightarrow> bind_res (peek_all ps) (\<lambda>ps1. Ok (p1 # ps1)))"

text \<open>The second loop; all iterators have been peeked, so that peeking again changes nothing.\<close>

fun smallest_key :: "bytes option \<Rightarrow> source list \<Rightarrow> bytes option" where
  "smallest_key smallest [] = smallest"
| "smallest_key smallest (p # ps) =
     (case fst (pk_peek next_of p) of
        Ok (Some (key, _)) \<Rightarrow>
          smallest_key
            (if (case smallest of None \<Rightarrow> True | Some s \<Rightarrow> key < s) then Some key else smallest) ps
      | _ \<Rightarrow> smallest_key smallest ps)"

text \<open>The third loop: advance the iterators that have the key; the last one sets the value.\<close>

fun take_key :: "bytes \<Rightarrow> bytes option option \<Rightarrow> source list \<Rightarrow>
    (bytes option option \<times> source list) res" where
  "take_key key newest [] = Ok (newest, [])"
| "take_key key newest (p # ps) =
     (case pk_peek next_of p of
        (Ok (Some (k, _)), p1) \<Rightarrow>
          if k = key then
            (case pk_next next_of p1 of
               (Ok (Some (_, v)), p2) \<Rightarrow>
                 bind_res (take_key key (Some v) ps) (\<lambda>(n, ps2). Ok (n, p2 # ps2))
             | (Ok None, p2) \<Rightarrow> Fail Panic
             | (Fail s, p2) \<Rightarrow> Fail s)
          else bind_res (take_key key newest ps) (\<lambda>(n, ps2). Ok (n, p1 # ps2))
      | (_, p1) \<Rightarrow> bind_res (take_key key newest ps) (\<lambda>(n, ps2). Ok (n, p1 # ps2)))"

subsection \<open>Every round uses up part of an iterator\<close>

definition block_weight :: "sstable \<Rightarrow> nat \<Rightarrow> nat" where
  "block_weight t i = unat (block_end_of t i) - unat (block_start_of t i) + 1"

definition iter_weight :: "table_iter \<Rightarrow> nat" where
  "iter_weight i =
     (length (rbuf (snd i)) - rcursor (snd i)) +
     sum_list (map (block_weight (fst i)) [rblock (snd i)..<length (sparse_index (fst i))])"

definition pk_weight :: "source \<Rightarrow> nat" where
  "pk_weight p = iter_weight (pk_iter p) +
     (case pk_peeked p of Some (Ok (Some e)) \<Rightarrow> 1 | _ \<Rightarrow> 0)"

lemma read_exact_at_length: "read_exact_at f n off = Ok buf \<Longrightarrow> length buf = n"
  by (auto simp: read_exact_at_def split: if_splits)

lemma read_block_length:
  "read_block t i = Ok buf \<Longrightarrow> length buf < block_weight t i"
  by (auto simp: read_block_def block_weight_def sub_u64_def res_simps word_le_nat_alt unat_sub
      dest: read_exact_at_length split: if_splits)

lemma decode_entry_length:
  "decode_entry r = Ok (e, n) \<Longrightarrow> 9 \<le> n \<and> n \<le> length r"
  by (auto simp: decode_entry_def res_simps Let_def dest!: read_prefixed_length split: if_splits)

definition item_weight :: "entry option res \<Rightarrow> nat" where
  "item_weight x = (case x of Ok (Some e) \<Rightarrow> 1 | _ \<Rightarrow> 0)"

lemma item_weight_simps [simp]:
  "item_weight (Ok (Some e)) = 1" "item_weight (Ok None) = 0" "item_weight (Fail s) = 0"
  by (simp_all add: item_weight_def)

lemma next_record_weight:
  "next_record t it = (x, it') \<Longrightarrow> iter_weight (t, it') + item_weight x \<le> iter_weight (t, it)"
proof (induction t it rule: next_record.induct)
  case (1 t it)
  note eq = next_record.simps [of t it]
  consider (inside) "\<not> length (rbuf it) \<le> rcursor it"
    | (exhausted) "length (rbuf it) \<le> rcursor it" "\<not> rblock it < length (sparse_index t)"
    | (block) "length (rbuf it) \<le> rcursor it" "rblock it < length (sparse_index t)"
    by blast
  then show ?case
  proof cases
    case inside
    then show ?thesis
    proof (cases "decode_entry (drop (rcursor it) (rbuf it))")
      case (Ok r)
      obtain e n where r: "r = (e, n)" by (cases r)
      have "9 \<le> n \<and> n \<le> length (drop (rcursor it) (rbuf it))"
        using Ok r by (intro decode_entry_length) simp
      then show ?thesis using inside 1(2) eq Ok r by (auto simp: iter_weight_def)
    qed (use inside 1(2) eq in auto)
  next
    case exhausted
    then show ?thesis using 1(2) eq by auto
  next
    case block
    show ?thesis
    proof (cases "read_block t (rblock it)")
      case (Ok buf)
      then have rest: "next_record t \<lparr>rblock = Suc (rblock it), rbuf = buf, rcursor = 0\<rparr> = (x, it')"
        using block 1(2) eq by simp
      have "iter_weight (t, it') + item_weight x \<le>
          iter_weight (t, \<lparr>rblock = Suc (rblock it), rbuf = buf, rcursor = 0\<rparr>)"
        using 1(1) [OF block Ok rest] .
      also have "\<dots> \<le> iter_weight (t, it)"
        using read_block_length [OF Ok] block by (simp add: iter_weight_def upt_conv_Cons)
      finally show ?thesis .
    qed (use block 1(2) eq in auto)
  qed
qed

lemma pk_weight_alt:
  "pk_weight p = iter_weight (pk_iter p) + (case pk_peeked p of Some x \<Rightarrow> item_weight x | None \<Rightarrow> 0)"
  by (simp add: pk_weight_def item_weight_def split: option.split res.split)

lemma pk_peek_weight:
  assumes "pk_peek next_of p = (x, p')"
  shows "pk_weight p' \<le> pk_weight p"
proof (cases "pk_peeked p")
  case None
  obtain t it where i: "pk_iter p = (t, it)" by (cases "pk_iter p")
  obtain y it' where n: "next_record t it = (y, it')" by force
  then show ?thesis
    using assms None i next_record_weight [OF n]
    by (auto simp: pk_peek_def next_of_def pk_weight_alt)
next
  case Some
  then show ?thesis using assms by (auto simp: pk_peek_def)
qed

lemma pk_peek_peeked: "pk_peek nxt p = (x, p') \<Longrightarrow> pk_peeked p' = Some x"
  by (auto simp: pk_peek_def split: option.splits prod.splits)

lemma pk_next_weight:
  "pk_peeked p = Some (Ok (Some e)) \<Longrightarrow> pk_next next_of p = (x, p') \<Longrightarrow> pk_weight p' < pk_weight p"
  by (auto simp: pk_next_def pk_weight_def)

definition weight :: "source list \<Rightarrow> nat" where
  "weight ps = sum_list (map pk_weight ps)"

lemma weight_simps [simp]: "weight [] = 0" "weight (p # ps) = pk_weight p + weight ps"
  by (simp_all add: weight_def)

lemma peek_all_weight: "peek_all ps = Ok ps' \<Longrightarrow> weight ps' \<le> weight ps"
  by (induction ps arbitrary: ps')
    (fastforce simp: res_simps dest: pk_peek_weight split: prod.splits res.splits intro: add_mono)+

lemma take_key_weight:
  "take_key key n ps = Ok (n', ps') \<Longrightarrow>
     weight ps' \<le> weight ps \<and> (n = None \<longrightarrow> n' \<noteq> None \<longrightarrow> weight ps' < weight ps)"
proof (induction ps arbitrary: n n' ps')
  case Nil
  then show ?case by auto
next
  case (Cons p ps)
  obtain x p1 where pk: "pk_peek next_of p = (x, p1)" by force
  note w = pk_peek_weight [OF pk]
  from Cons.prems pk consider
    (skip) ps2 where "take_key key n ps = Ok (n', ps2)" "ps' = p1 # ps2"
  | (hit) e v k p2 ps2 where "x = Ok (Some e)" "pk_next next_of p1 = (Ok (Some (k, v)), p2)"
      "take_key key (Some v) ps = Ok (n', ps2)" "ps' = p2 # ps2"
    by (auto simp: res_simps split: res.splits option.splits prod.splits if_splits)
  then show ?case
  proof cases
    case skip
    then show ?thesis using Cons.IH [of n n' ps2] w by auto
  next
    case hit
    then have "pk_weight p2 < pk_weight p1"
      using pk_peek_peeked [OF pk] by (intro pk_next_weight) auto
    then show ?thesis using hit Cons.IH [of "Some v" n' ps2] w by auto
  qed
qed

text \<open>
  The loop itself: \<open>Fail Panic\<close> is the \<open>expect\<close> that no table had the smallest key.
\<close>

function merge_loop :: "bool \<Rightarrow> source list \<Rightarrow> entry list \<Rightarrow> entry list res" where
  "merge_loop drop_tombstones iters merged =
     bind_res (peek_all iters) (\<lambda>iters1.
       case smallest_key None iters1 of
         None \<Rightarrow> Ok merged
       | Some key \<Rightarrow>
           bind_res (take_key key None iters1) (\<lambda>(newest, iters2).
             case newest of
               None \<Rightarrow> Fail Panic
             | Some val \<Rightarrow>
                 if val = None \<and> drop_tombstones
                 then merge_loop drop_tombstones iters2 merged
                 else merge_loop drop_tombstones iters2 (merged @ [(key, val)])))"
  by pat_completeness auto
termination
proof (relation "measure (\<lambda>(d, ps, m). weight ps)", goal_cases)
  case 1
  then show ?case by simp
next
  case (2 d ps m ps1 key y n ps2 v)
  then show ?case using peek_all_weight [of ps ps1] take_key_weight [of key None ps1 n ps2] by auto
next
  case (3 d ps m ps1 key y n ps2 v)
  then show ?case using peek_all_weight [of ps ps1] take_key_weight [of key None ps1 n ps2] by auto
qed

declare merge_loop.simps [simp del]

definition merge :: "sstable list \<Rightarrow> bool \<Rightarrow> entry list res" where
  "merge tables drop_tombstones =
     merge_loop drop_tombstones (map (\<lambda>t. pk_new (t, records_of)) tables) []"

section \<open>What the merge relies on\<close>

text \<open>
  An iterator that still has the entries \<open>es\<close> to give: the contract is stated for any iterator and
  survives wrapping it in a \<open>Peekable\<close>.
\<close>

fun front :: "'e list \<Rightarrow> 'e option" where
  "front [] = None"
| "front (e # es) = Some e"

definition pk_pending :: "('s \<Rightarrow> 'e list \<Rightarrow> bool) \<Rightarrow> ('s, 'e option res) peekable \<Rightarrow> 'e list \<Rightarrow> bool" where
  "pk_pending pend p es =
     (case pk_peeked p of
        None \<Rightarrow> pend (pk_iter p) es
      | Some x \<Rightarrow> x = Ok (front es) \<and> pend (pk_iter p) (tl es))"

locale entry_source =
  fixes nxt :: "'s \<Rightarrow> 'e option res \<times> 's"
    and pend :: "'s \<Rightarrow> 'e list \<Rightarrow> bool"
  assumes next_front: "pend s es \<Longrightarrow> \<exists>s'. nxt s = (Ok (front es), s') \<and> pend s' (tl es)"
begin

lemma new_pending: "pend s es \<Longrightarrow> pk_pending pend (pk_new s) es"
  by (simp add: pk_pending_def pk_new_def)

lemma peek_front:
  assumes "pk_pending pend p es"
  shows "\<exists>p'. pk_peek nxt p = (Ok (front es), p') \<and> pk_pending pend p' es"
proof (cases "pk_peeked p")
  case None
  then have "pend (pk_iter p) es" using assms by (simp add: pk_pending_def)
  from next_front [OF this] None show ?thesis by (auto simp: pk_pending_def pk_peek_def)
next
  case (Some x)
  then show ?thesis using assms by (auto simp: pk_pending_def pk_peek_def)
qed

lemma advance:
  assumes "pk_pending pend p es"
  shows "\<exists>p'. pk_next nxt p = (Ok (front es), p') \<and> pk_pending pend p' (tl es)"
proof (cases "pk_peeked p")
  case None
  then have "pend (pk_iter p) es" using assms by (simp add: pk_pending_def)
  from next_front [OF this] None show ?thesis by (auto simp: pk_pending_def pk_next_def)
next
  case (Some x)
  then show ?thesis using assms by (auto simp: pk_pending_def pk_next_def)
qed

end

text \<open>
  The iterator of a table: the rest of the block in the buffer and the blocks not yet read.
\<close>

definition records_pending :: "table_iter \<Rightarrow> entry list \<Rightarrow> bool" where
  "records_pending i es \<longleftrightarrow>
     (\<exists>bs rest. [] \<notin> set bs \<and> length (sparse_index (fst i)) = length bs \<and>
        (\<forall>j < length bs. read_block (fst i) j = Ok (enc_records (bs ! j))) \<and>
        rcursor (snd i) \<le> length (rbuf (snd i)) \<and>
        drop (rcursor (snd i)) (rbuf (snd i)) = enc_records rest \<and>
        es = rest @ concat (drop (rblock (snd i)) bs) \<and>
        (\<forall>e \<in> set (rest @ concat bs). entry_fits e))"

lemma decode_entry_record:
  assumes "entry_fits e"
  shows "decode_entry (enc_record e @ r) = Ok (e, 9 + length (fst e) + length (value_bytes (snd e)))"
proof -
  obtain k v where e: "e = (k, v)" by (cases e)
  have "read_prefixed (prefixed k @ prefixed (value_bytes v) @ op_type v # r) =
      Ok (k, prefixed (value_bytes v) @ op_type v # r)"
    "read_prefixed (prefixed (value_bytes v) @ op_type v # r) = Ok (value_bytes v, op_type v # r)"
    using assms e by (simp_all add: read_prefixed_prefixed entry_fits_def)
  then show ?thesis
    by (cases v) (simp_all add: decode_entry_def enc_record_def e read_exact_def)
qed

lemma enc_records_eq_Nil [simp]: "enc_records es = [] \<longleftrightarrow> es = []"
  by (cases es) (simp_all add: enc_record_def prefixed_def)

text \<open>Inside a block, or at its end after the next one is read, the iterator gives the next entry.\<close>

lemma next_record_inside:
  assumes "records_pending (t, it) es" and "\<not> length (rbuf it) \<le> rcursor it"
  shows "\<exists>it'. next_record t it = (Ok (front es), it') \<and> records_pending (t, it') (tl es)"
proof -
  from assms(1) obtain bs rest where
    p: "[] \<notin> set bs" "length (sparse_index t) = length bs"
      "\<forall>j < length bs. read_block t j = Ok (enc_records (bs ! j))"
      "rcursor it \<le> length (rbuf it)" "drop (rcursor it) (rbuf it) = enc_records rest"
      "es = rest @ concat (drop (rblock it) bs)" "\<forall>e \<in> set (rest @ concat bs). entry_fits e"
    unfolding records_pending_def by auto
  have "enc_records rest \<noteq> []" using assms(2) p(5) by (metis drop_eq_Nil)
  then obtain e rest' where r: "rest = e # rest'" by (cases rest) auto
  let ?n = "9 + length (fst e) + length (value_bytes (snd e))"
  have n: "length (enc_record e) = ?n" by (simp add: enc_record_def)
  have "length (drop (rcursor it) (rbuf it)) = ?n + length (enc_records rest')"
    unfolding p(5) r by (simp add: n)
  then have fits: "rcursor it + ?n \<le> length (rbuf it)" using p(4) by simp
  have "drop ?n (drop (rcursor it) (rbuf it)) = enc_records rest'"
    unfolding p(5) r using n by simp
  then have dropped: "drop (rcursor it + ?n) (rbuf it) = enc_records rest'"
    by (simp add: add.commute)
  have "decode_entry (drop (rcursor it) (rbuf it)) = Ok (e, ?n)"
    unfolding p(5) r using p(7) r by (simp add: decode_entry_record)
  then have "next_record t it = (Ok (Some e), it\<lparr>rcursor := rcursor it + ?n\<rparr>)"
    using assms(2) by (subst next_record.simps) simp
  moreover have "records_pending (t, it\<lparr>rcursor := rcursor it + ?n\<rparr>) (tl es)"
    unfolding records_pending_def using p r fits dropped
    by (intro exI [of _ bs] exI [of _ rest']) simp
  ultimately show ?thesis using p(6) r by simp
qed

lemma next_record_pending:
  assumes "records_pending (t, it) es"
  shows "\<exists>it'. next_record t it = (Ok (front es), it') \<and> records_pending (t, it') (tl es)"
proof (cases "length (rbuf it) \<le> rcursor it")
  case True
  from assms obtain bs rest where
    p: "[] \<notin> set bs" "length (sparse_index t) = length bs"
      "\<forall>j < length bs. read_block t j = Ok (enc_records (bs ! j))"
      "drop (rcursor it) (rbuf it) = enc_records rest"
      "es = rest @ concat (drop (rblock it) bs)" "\<forall>e \<in> set (rest @ concat bs). entry_fits e"
    unfolding records_pending_def by auto
  have rest: "rest = []" using True p(4) by (metis drop_eq_Nil enc_records_eq_Nil)
  show ?thesis
  proof (cases "rblock it < length bs")
    case False
    then show ?thesis
      using True p rest assms by (subst next_record.simps) simp
  next
    case more: True
    let ?b = "bs ! rblock it"
    let ?it = "\<lparr>rblock = Suc (rblock it), rbuf = enc_records ?b, rcursor = 0\<rparr>"
    have "?b \<noteq> []" using p(1) more by (metis nth_mem)
    moreover have "drop (rblock it) bs = ?b # drop (Suc (rblock it)) bs"
      using more by (simp add: Cons_nth_drop_Suc)
    then have es: "es = ?b @ concat (drop (Suc (rblock it)) bs)" using p(5) rest by simp
    then have "records_pending (t, ?it) es"
      unfolding records_pending_def using p more
      by (intro exI [of _ bs] exI [of _ "?b"]) auto
    ultimately show ?thesis
      using next_record_inside [of t ?it es] True more p
      by (subst next_record.simps) simp
  qed
next
  case False
  then show ?thesis using assms next_record_inside by blast
qed

interpretation table_source: entry_source next_of records_pending
proof
  fix s es
  assume "records_pending s es"
  then show "\<exists>s'. next_of s = (Ok (front es), s') \<and> records_pending s' (tl es)"
    using next_record_pending [of "fst s" "snd s" es] by (auto simp: next_of_def)
qed

lemma records_of_pending:
  assumes "wf_table t es"
  shows "records_pending (t, records_of) es"
proof -
  have fits: "\<forall>e \<in> set es. entry_fits e" using assms by (simp add: wf_table_def)
  show ?thesis
    using assms
  proof (rule wf_table_blocks)
    fix bs
    assume "concat bs = es" "[] \<notin> set bs" "sparse_index t = index_of 0 bs"
      "\<And>i. i < length bs \<Longrightarrow> read_block t i = Ok (enc_records (bs ! i))"
    then show ?thesis
      unfolding records_pending_def using fits
      by (intro exI [of _ bs] exI [of _ "[]"]) (simp add: records_of_def length_index_of)
  qed
qed

end
