(* ===== verification/Merge_Newest.thy ===== *)
theory Merge_Newest
  imports Merge
begin

text \<open>
  What a merge computes: over well-formed tables given oldest first, the sorted list of every key
  with its newest value, tombstones kept or dropped as asked.
\<close>

section \<open>The newest value of a key\<close>

text \<open>The abstract view of a list of tables, oldest first: later tables override earlier ones.\<close>

definition newest :: "entry list list \<Rightarrow> bytes \<Rightarrow> bytes option option" where
  "newest ess = foldl (\<lambda>m es. m ++ map_of es) Map.empty ess"

definition visible :: "bool \<Rightarrow> bytes option option \<Rightarrow> bytes option option" where
  "visible drop_tombstones v = (if v = Some None \<and> drop_tombstones then None else v)"

lemma foldl_map_add: "foldl (\<lambda>m es. m ++ map_of es) m ess = m ++ newest ess"
proof (induction ess arbitrary: m)
  case Nil
  then show ?case by (simp add: newest_def)
next
  case (Cons es ess)
  show ?case
    using Cons [of "m ++ map_of es"] Cons [of "map_of es"] by (simp add: newest_def)
qed

lemma newest_Nil [simp]: "newest [] = Map.empty"
  by (simp add: newest_def)

lemma newest_Cons [simp]: "newest (es # ess) = map_of es ++ newest ess"
  using foldl_map_add [of "map_of es" ess] by (simp add: newest_def)

lemma newest_append [simp]: "newest (ess @ ess') = newest ess ++ newest ess'"
  by (induction ess) simp_all

lemma newest_None_iff: "newest ess k = None \<longleftrightarrow> (\<forall>es \<in> set ess. k \<notin> fst ` set es)"
  by (induction ess) (auto simp: map_of_eq_None_iff)

lemma newest_SomeD: "newest ess k = Some v \<Longrightarrow> \<exists>es \<in> set ess. (k, v) \<in> set es"
  by (induction ess) (auto simp: map_add_Some_iff dest: map_of_SomeD)

section \<open>One round\<close>

abbreviation source_pending :: "source \<Rightarrow> entry list \<Rightarrow> bool" where
  "source_pending \<equiv> pk_pending records_pending"

lemma peek_all_pending:
  "list_all2 source_pending ps ess \<Longrightarrow>
     \<exists>ps'. peek_all ps = Ok ps' \<and> list_all2 source_pending ps' ess"
proof (induction ps ess rule: list_all2_induct)
  case Nil
  then show ?case by simp
next
  case (Cons p ps es ess)
  from table_source.peek_front [OF Cons.hyps(1)] Cons.IH show ?case by fastforce
qed

definition fronts :: "entry list list \<Rightarrow> bytes set" where
  "fronts ess = (\<lambda>es. fst (hd es)) ` {es \<in> set ess. es \<noteq> []}"

lemma fronts_simps [simp]:
  "fronts [] = {}" "fronts ([] # ess) = fronts ess"
  "fronts ((e # es) # ess) = insert (fst e) (fronts ess)"
proof -
  have "{es' \<in> set ((e # es) # ess). es' \<noteq> []} = insert (e # es) {es' \<in> set ess. es' \<noteq> []}"
    by auto
  then show "fronts ((e # es) # ess) = insert (fst e) (fronts ess)"
    by (simp add: fronts_def)
next
  have "{es' \<in> set ([] # ess). es' \<noteq> []} = {es' \<in> set ess. es' \<noteq> []}" by auto
  then show "fronts ([] # ess) = fronts ess" by (simp only: fronts_def)
qed (simp add: fronts_def)

lemma smallest_key_pending:
  "list_all2 source_pending ps ess \<Longrightarrow>
     (case smallest_key m ps of
        None \<Rightarrow> m = None \<and> fronts ess = {}
      | Some k \<Rightarrow> k \<in> set_option m \<union> fronts ess \<and> (\<forall>k' \<in> set_option m \<union> fronts ess. k \<le> k'))"
proof (induction ps ess arbitrary: m rule: list_all2_induct)
  case Nil
  then show ?case by (cases m) auto
next
  case (Cons p ps es ess)
  from table_source.peek_front [OF Cons.hyps(1)]
  obtain p' where pk: "pk_peek next_of p = (Ok (front es), p')" by blast
  show ?case
  proof (cases es)
    case Nil
    then show ?thesis using pk Cons.IH [of m] by (simp split: option.splits)
  next
    case (Cons e es')
    obtain k v where e: "e = (k, v)" by (cases e)
    define m' where "m' = (if (case m of None \<Rightarrow> True | Some s \<Rightarrow> k < s) then Some k else m)"
    have step: "smallest_key m (p # ps) = smallest_key m' ps"
      using pk Cons e by (simp add: m'_def)
    have "m' \<noteq> None" "set_option m' \<subseteq> insert k (set_option m)"
      "\<forall>k' \<in> insert k (set_option m). \<exists>s \<in> set_option m'. s \<le> k'"
      by (auto simp: m'_def split: option.splits)
    with Cons.IH [of m'] show ?thesis
      unfolding step by (auto simp: Cons e split: option.splits)
  qed
qed

definition drop_front :: "bytes \<Rightarrow> entry list \<Rightarrow> entry list" where
  "drop_front key es = (case es of e # es' \<Rightarrow> if fst e = key then es' else es | [] \<Rightarrow> [])"

fun front_value :: "bytes \<Rightarrow> bytes option option \<Rightarrow> entry list list \<Rightarrow> bytes option option" where
  "front_value key n [] = n"
| "front_value key n (es # ess) =
     front_value key (case es of e # es' \<Rightarrow> if fst e = key then Some (snd e) else n | [] \<Rightarrow> n) ess"

lemma take_key_pending:
  "list_all2 source_pending ps ess \<Longrightarrow>
     \<exists>ps'. take_key key n ps = Ok (front_value key n ess, ps') \<and>
       list_all2 source_pending ps' (map (drop_front key) ess)"
proof (induction ps ess arbitrary: n rule: list_all2_induct)
  case Nil
  then show ?case by simp
next
  case (Cons p ps es ess)
  from table_source.peek_front [OF Cons.hyps(1)]
  obtain p1 where pk: "pk_peek next_of p = (Ok (front es), p1)" and p1: "source_pending p1 es" by blast
  from table_source.advance [OF p1]
  obtain p2 where nx: "pk_next next_of p1 = (Ok (front es), p2)" and p2: "source_pending p2 (tl es)" by blast
  show ?case
  proof (cases "\<exists>e es'. es = e # es' \<and> fst e = key")
    case True
    then obtain v es' where es: "es = (key, v) # es'" by auto
    then show ?thesis using pk nx p2 Cons.IH [of "Some v"] by (auto simp: drop_front_def)
  next
    case False
    then show ?thesis using pk p1 Cons.IH [of n]
      by (cases es) (auto simp: drop_front_def)
  qed
qed

section \<open>All rounds\<close>

lemma sorted_front:
  assumes "key_sorted es" and "es \<noteq> [] \<Longrightarrow> key \<le> fst (hd es)"
  shows "map_of es key = (case es of e # es' \<Rightarrow> if fst e = key then Some (snd e) else None | [] \<Rightarrow> None)"
proof (cases es)
  case (Cons e es')
  have "map_of es' key = None"
    using assms Cons by (intro map_of_below) (auto dest: le_less_trans)
  then show ?thesis using Cons by (cases e) auto
qed simp

lemma front_value_newest:
  assumes "\<forall>es \<in> set ess. key_sorted es" and "\<forall>k \<in> fronts ess. key \<le> k"
  shows "front_value key n ess = (case newest ess key of Some v \<Rightarrow> Some v | None \<Rightarrow> n)"
  using assms
proof (induction ess arbitrary: n)
  case Nil
  then show ?case by simp
next
  case (Cons es ess)
  have "map_of es key = (case es of e # es' \<Rightarrow> if fst e = key then Some (snd e) else None | [] \<Rightarrow> None)"
    using Cons.prems by (intro sorted_front) (auto simp: fronts_def)
  moreover have "\<forall>k \<in> fronts ess. key \<le> k"
    using Cons.prems(2) by (auto simp: fronts_def)
  ultimately show ?case
    using Cons.IH Cons.prems(1) by (auto simp: map_add_def split: option.splits list.splits)
qed

lemma drop_front_facts:
  assumes "key_sorted es" and "es \<noteq> [] \<Longrightarrow> key \<le> fst (hd es)"
  shows "key_sorted (drop_front key es)"
    and "\<forall>k \<in> fst ` set (drop_front key es). key < k"
    and "map_of (drop_front key es) k = (if k = key then None else map_of es k)"
    and "length (drop_front key es) \<le> length es"
    and "es \<noteq> [] \<Longrightarrow> fst (hd es) = key \<Longrightarrow> length (drop_front key es) < length es"
proof -
  show "key_sorted (drop_front key es)"
    using assms(1) by (cases es) (auto simp: drop_front_def simp del: split_paired_All)
  show "length (drop_front key es) \<le> length es"
    by (cases es) (simp_all add: drop_front_def)
  show gt: "\<forall>k \<in> fst ` set (drop_front key es). key < k"
  proof (cases es)
    case (Cons e es')
    have gt: "\<forall>k \<in> fst ` set es'. fst e < k" "key \<le> fst e" using assms Cons by auto
    have "\<forall>k \<in> fst ` set es'. key < k" using gt by (meson le_less_trans)
    then show ?thesis using Cons gt(2) by (auto simp: drop_front_def le_less)
  qed (simp add: drop_front_def)
  have "map_of (drop_front key es) key = None" using gt by (intro map_of_below) auto
  then show "map_of (drop_front key es) k = (if k = key then None else map_of es k)"
    by (auto simp: drop_front_def split: list.splits)
  show "es \<noteq> [] \<Longrightarrow> fst (hd es) = key \<Longrightarrow> length (drop_front key es) < length es"
    by (auto simp: drop_front_def split: list.splits)
qed

lemma newest_drop_front:
  assumes "\<forall>es \<in> set ess. key_sorted es \<and> (es \<noteq> [] \<longrightarrow> key \<le> fst (hd es))"
  shows "newest (map (drop_front key) ess) k = (if k = key then None else newest ess k)"
  using assms
  by (induction ess) (auto simp: map_add_def drop_front_facts(3) split: option.splits)

lemma drop_front_smaller:
  assumes "\<forall>es \<in> set ess. key_sorted es \<and> (es \<noteq> [] \<longrightarrow> key \<le> fst (hd es))" and "key \<in> fronts ess"
  shows "sum_list (map length (map (drop_front key) ess)) < sum_list (map length ess)"
  using assms
proof (induction ess)
  case Nil
  then show ?case by simp
next
  case (Cons es ess)
  have le: "length (drop_front key es) \<le> length es"
    using Cons.prems(1) by (intro drop_front_facts) auto
  have rest: "sum_list (map length (map (drop_front key) ess)) \<le> sum_list (map length ess)"
    using Cons.prems(1) by (auto simp: o_def intro!: sum_list_mono drop_front_facts(4))
  show ?case
  proof (cases "es \<noteq> [] \<and> fst (hd es) = key")
    case True
    then have "length (drop_front key es) < length es"
      using Cons.prems(1) by (intro drop_front_facts) auto
    then show ?thesis using rest by simp
  next
    case False
    then have "key \<in> fronts ess" using Cons.prems(2) by (auto simp: fronts_def)
    then show ?thesis using Cons le by force
  qed
qed

lemma merge_loop_pending:
  assumes "list_all2 source_pending ps ess" and "\<forall>es \<in> set ess. key_sorted es"
  shows "\<exists>out. merge_loop d ps m = Ok (m @ out) \<and> key_sorted out \<and>
    (\<forall>k. map_of out k = visible d (newest ess k))"
  using assms
proof (induction "sum_list (map length ess)" arbitrary: ps ess m rule: less_induct)
  case less
  obtain ps1 where pk: "peek_all ps = Ok ps1" and p1: "list_all2 source_pending ps1 ess"
    using peek_all_pending [OF less.prems(1)] by blast
  note small = smallest_key_pending [OF p1, of None]
  show ?case
  proof (cases "smallest_key None ps1")
    case None
    then have "fronts ess = {}" using small by simp
    then have "\<forall>es \<in> set ess. es = []" by (auto simp: fronts_def)
    then have "newest ess k = None" for k unfolding newest_None_iff by fastforce
    then show ?thesis using pk None by (subst merge_loop.simps) (simp add: visible_def)
  next
    case (Some key)
    then have key: "key \<in> fronts ess" "\<forall>k \<in> fronts ess. key \<le> k" using small by simp_all
    then have ok: "\<forall>es \<in> set ess. key_sorted es \<and> (es \<noteq> [] \<longrightarrow> key \<le> fst (hd es))"
      using less.prems(2) by (auto simp: fronts_def)
    let ?ess = "map (drop_front key) ess"
    obtain ps2 where tk: "take_key key None ps1 = Ok (newest ess key, ps2)"
      and p2: "list_all2 source_pending ps2 ?ess"
      using take_key_pending [OF p1, of key None] front_value_newest [OF less.prems(2) key(2), of None]
      by (auto split: option.splits)
    have "newest ess key \<noteq> None"
    proof -
      obtain es where "es \<in> set ess" "es \<noteq> []" "fst (hd es) = key"
        using key(1) by (auto simp: fronts_def)
      then have "key \<in> fst ` set es" by (metis hd_in_set imageI)
      then show ?thesis unfolding newest_None_iff using \<open>es \<in> set ess\<close> by blast
    qed
    then obtain v where v: "newest ess key = Some v" by blast
    have "\<forall>es \<in> set ?ess. key_sorted es" using ok by (auto intro!: drop_front_facts(1))
    from less.hyps [OF drop_front_smaller [OF ok key(1)] p2 this]
    obtain out where out: "merge_loop d ps2 m' = Ok (m' @ out m')" "key_sorted (out m')"
      "map_of (out m') k = visible d (newest ?ess k)" for m' k
      by metis
    have later: "\<forall>k \<in> fst ` set (out m'). key < k" for m'
    proof
      fix k assume "k \<in> fst ` set (out m')"
      then have "map_of (out m') k \<noteq> None" by (simp add: map_of_eq_None_iff)
      then have "newest ?ess k \<noteq> None" unfolding out(3) visible_def by (metis)
      then obtain es where "es \<in> set ess" "k \<in> fst ` set (drop_front key es)"
        by (auto simp: newest_None_iff)
      then show "key < k" using drop_front_facts(2) [of es key] ok by auto
    qed
    have step: "merge_loop d ps m =
        (if v = None \<and> d then merge_loop d ps2 m else merge_loop d ps2 (m @ [(key, v)]))"
      using pk Some tk v by (subst merge_loop.simps) simp
    show ?thesis
    proof (cases "v = None \<and> d")
      case True
      then show ?thesis using step out(1,2) [of m] out(3) [of m] v newest_drop_front [OF ok]
        by (auto simp: visible_def)
    next
      case False
      let ?m = "m @ [(key, v)]"
      have "key_sorted ((key, v) # out ?m)" using later [of ?m] out(2) by simp
      moreover have "map_of ((key, v) # out ?m) k = visible d (newest ess k)" for k
        using False out(3) [of ?m k] v newest_drop_front [OF ok, of k] by (auto simp: visible_def)
      ultimately show ?thesis using step False out(1) [of ?m]
        by (intro exI [of _ "(key, v) # out ?m"]) auto
    qed
  qed
qed

lemma wf_tables_entries: "list_all2 wf_table ts ess \<Longrightarrow> es \<in> set ess \<Longrightarrow> \<exists>t \<in> set ts. wf_table t es"
  by (metis in_set_conv_nth list_all2_conv_all_nth)

lemma merge_wf:
  assumes "list_all2 wf_table ts ess"
  shows "\<exists>out. merge ts d = Ok out \<and> key_sorted out \<and>
    (\<forall>k. map_of out k = visible d (newest ess k))"
proof -
  have "list_all2 source_pending (map (\<lambda>t. pk_new (t, records_of)) ts) ess"
    using assms by (auto simp: list_all2_map1 elim!: list_all2_mono
        intro: table_source.new_pending records_of_pending)
  moreover have "\<forall>es \<in> set ess. key_sorted es"
    using wf_tables_entries [OF assms] by (auto simp: wf_table_def)
  ultimately show ?thesis using merge_loop_pending [of _ ess d "[]"] by (simp add: merge_def)
qed

lemma merge_entry_fits:
  assumes wf: "list_all2 wf_table ts ess" and m: "merge ts d = Ok out" and e: "e \<in> set out"
  shows "entry_fits e"
proof -
  obtain k v where kv: "e = (k, v)" by (cases e)
  have out: "key_sorted out" "map_of out k = visible d (newest ess k)"
    using merge_wf [OF wf, of d] m by auto
  have "map_of out k = Some v"
    using e kv key_sorted_distinct [OF out(1)] by simp
  then have "newest ess k = Some v" using out(2) by (auto simp: visible_def split: if_splits)
  then obtain es where "es \<in> set ess" "(k, v) \<in> set es" using newest_SomeD by blast
  then show ?thesis using wf_tables_entries [OF wf] kv by (auto simp: wf_table_def)
qed

section \<open>The reference merge\<close>

text \<open>
  The merge without iterators: all keys in order, each with its newest value, if that is kept.
\<close>

definition merge_reference :: "entry list list \<Rightarrow> bool \<Rightarrow> entry list" where
  "merge_reference ess d =
     List.map_filter (\<lambda>k. map_option (\<lambda>v. (k, v)) (visible d (newest ess k)))
       (sorted_list_of_set (fst ` set (concat ess)))"

lemma map_filter_keys:
  assumes "sorted_wrt (<) ks"
  shows "key_sorted (List.map_filter (\<lambda>k. map_option (\<lambda>v. (k, v)) (f k)) ks)"
    and "map_of (List.map_filter (\<lambda>k. map_option (\<lambda>v. (k, v)) (f k)) ks) k =
      (if k \<in> set ks then f k else None)"
proof -
  have sub: "fst ` set (List.map_filter (\<lambda>k. map_option (\<lambda>v. (k, v)) (f k)) ks) \<subseteq> set ks" for ks
    by (induction ks) (auto simp: List.map_filter_def split: option.splits)
  show "key_sorted (List.map_filter (\<lambda>k. map_option (\<lambda>v. (k, v)) (f k)) ks)"
    using assms
  proof (induction ks)
    case (Cons a ks)
    then show ?case using sub [of ks] by (cases "f a") (auto simp: List.map_filter_def)
  qed (simp add: List.map_filter_def)
  show "map_of (List.map_filter (\<lambda>k. map_option (\<lambda>v. (k, v)) (f k)) ks) k =
      (if k \<in> set ks then f k else None)"
    by (induction ks) (auto simp: List.map_filter_def split: option.splits)
qed

lemma merge_reference_facts:
  "key_sorted (merge_reference ess d)"
  "map_of (merge_reference ess d) k = visible d (newest ess k)"
proof -
  have s: "sorted_wrt (<) (sorted_list_of_set (fst ` set (concat ess)))"
    by simp
  show "key_sorted (merge_reference ess d)"
    unfolding merge_reference_def by (rule map_filter_keys(1) [OF s])
  have "newest ess k = None" if "k \<notin> fst ` set (concat ess)"
    using that by (auto simp: newest_None_iff)
  then show "map_of (merge_reference ess d) k = visible d (newest ess k)"
    unfolding merge_reference_def map_filter_keys(2) [OF s] by (auto simp: visible_def)
qed

end
