(* ===== verification/SSTable_Set.thy ===== *)
theory SSTable_Set
  imports Merge_Newest World Float64 "HOL-Library.Product_Lexorder"
begin

text \<open>
  The set of tables (\<open>SSTableSet\<close> in \<^verbatim>\<open>src/src/sstable.rs\<close>): opening a data directory, writing
  a memtable as a new table, merging a run of tables into one, choosing such a run, and the lookup
  over all tables. Tables are kept oldest first. A name in the directory stands for the path that
  the code joins from the directory and that name.
\<close>

record sstable_set =
  tables :: "sstable list"
  set_dir :: bytes
  bits_per_key :: nat
  next_seq :: nat

section \<open>Opening a directory\<close>

type_synonym named_span = "(nat \<times> nat) \<times> bytes"

text \<open>The loop over \<open>read_dir\<close>: leftover temporary files go, a misnamed table is an error.\<close>

fun scan_dir :: "bytes \<Rightarrow> bytes list \<Rightarrow> named_span list \<Rightarrow> named_span list io" where
  "scan_dir data_dir [] spans = io_lift (Ok spans)"
| "scan_dir data_dir (name # names) spans =
     (if extension name = Some (str ''sst'') then
        (case parse_span name of
           Some span \<Rightarrow> scan_dir data_dir names (spans @ [(span, name)])
         | None \<Rightarrow>
             io_lift (Err InvalidData
               (join data_dir name @ str '' does not follow the SSTable naming scheme'')))
      else if extension name = Some (str ''tmp'') then
        io_bind (sys_remove name) (\<lambda>_. scan_dir data_dir names spans)
      else scan_dir data_dir names spans)"

text \<open>\<open>last + 1\<close> is checked for overflow, as in a debug build.\<close>

definition next_seq_of :: "named_span list \<Rightarrow> nat res" where
  "next_seq_of spans =
     (if list_ex (\<lambda>((lo, hi), name). 2 ^ 64 \<le> hi + 1) spans then Fail Panic
      else Ok (foldr max (map (\<lambda>((lo, hi), name). hi + 1) spans) 0))"

definition span_within :: "nat \<times> nat \<Rightarrow> nat \<times> nat \<Rightarrow> bool" where
  "span_within span other \<longleftrightarrow> fst other \<le> fst span \<and> snd span \<le> snd other"

definition superseded :: "named_span list \<Rightarrow> nat \<Rightarrow> nat \<times> nat \<Rightarrow> bool" where
  "superseded spans i span =
     list_ex (\<lambda>(j, other, name). j \<noteq> i \<and> span_within span other) (enumerate 0 spans)"

definition open_file :: "bytes \<Rightarrow> bytes \<Rightarrow> nat \<times> nat \<Rightarrow> sstable io" where
  "open_file data_dir name span w =
     (case map_of (dir w) name of
        None \<Rightarrow> (Err NotFound (str ''No such file or directory (os error 2)''), w)
      | Some f \<Rightarrow> (sst_open data_dir name f (fst span) (snd span), w))"

fun open_tables :: "bytes \<Rightarrow> named_span list \<Rightarrow> (nat \<times> named_span) list \<Rightarrow> sstable list \<Rightarrow>
    sstable list io" where
  "open_tables data_dir spans [] sstables = io_lift (Ok sstables)"
| "open_tables data_dir spans ((i, span, name) # rest) sstables =
     (if superseded spans i span then
        io_bind (sys_remove name) (\<lambda>_. open_tables data_dir spans rest sstables)
      else
        io_bind (open_file data_dir name span) (\<lambda>t.
        open_tables data_dir spans rest (sstables @ [t])))"

definition set_open :: "bytes \<Rightarrow> nat \<Rightarrow> sstable_set io" where
  "set_open data_dir bpk w =
     io_bind (scan_dir data_dir (map fst (dir w)) []) (\<lambda>found.
     let spans = sort found
     in io_bind (io_lift (next_seq_of spans)) (\<lambda>next.
        io_bind (open_tables data_dir spans (enumerate 0 spans) []) (\<lambda>sstables.
        io_lift (Ok \<lparr>tables = sstables, set_dir = data_dir, bits_per_key = bpk,
                     next_seq = next\<rparr>)))) w"

section \<open>Writing a table\<close>

definition publish :: "bytes \<Rightarrow> bytes \<Rightarrow> unit io" where
  "publish tmp name = io_bind (sys_rename tmp name) (\<lambda>_. sys_sync_dir)"

text \<open>
  The buffered writer issues its writes in several calls; together they leave a prefix of the data
  in the temporary file if one of them fails, which is what the single append does.
\<close>

definition write_table :: "sstable_set \<Rightarrow> nat \<times> nat \<Rightarrow> nat \<Rightarrow> entry list \<Rightarrow> sstable io" where
  "write_table s span num_keys entries =
     io_bind (sys_create (tmp_name span)) (\<lambda>_.
     io_bind (io_lift (build_table span num_keys (bits_per_key s) entries)) (\<lambda>t.
     io_bind (sys_append (tmp_name span) (file_data t)) (\<lambda>_.
     io_bind (sys_sync (tmp_name span)) (\<lambda>_.
     io_bind (publish (tmp_name span) (sst_name span)) (\<lambda>_.
     io_lift (Ok t))))))"

text \<open>
  Operations on the set return the set they leave behind also when they fail: a caller that gets
  an error can go on using it.
\<close>

type_synonym 'a set_op = "sstable_set \<Rightarrow> world \<Rightarrow> 'a res \<times> sstable_set \<times> world"

definition replace_tables :: "(sstable list \<Rightarrow> sstable list) \<Rightarrow> sstable_set \<Rightarrow> sstable_set" where
  "replace_tables edit s = s\<lparr>tables := edit (tables s)\<rparr>"

definition set_write :: "memtable \<Rightarrow> unit set_op" where
  "set_write m s w =
     (if m = [] then (Ok (), s, w)
      else
        let seq = next_seq s
        in case write_table s (seq, seq) (length m) m w of
             (Fail e, w1) \<Rightarrow> (Fail e, s, w1)
           | (Ok t, w1) \<Rightarrow>
               if 2 ^ 64 \<le> seq + 1 then (Fail Panic, s, w1)
               else (Ok (), replace_tables (\<lambda>ts. ts @ [t]) (s\<lparr>next_seq := seq + 1\<rparr>), w1))"

section \<open>Compaction\<close>

text \<open>Up to the publication of the merged table: this part works on a snapshot of the set.\<close>

definition compact_prepare :: "sstable_set \<Rightarrow> nat \<Rightarrow> nat \<Rightarrow> sstable option io" where
  "compact_prepare s start count =
     (if count < 2 \<or> length (tables s) < start + count then io_lift (Fail Panic)
      else
        let run = take count (drop start (tables s));
            span = (first_seq (hd run), last_seq (last run))
        in io_bind (io_lift (merge run (start = 0))) (\<lambda>merged.
           if merged = [] then io_lift (Ok None)
           else io_bind (write_table s span (length merged) merged) (\<lambda>t. io_lift (Ok (Some t)))))"

fun remove_files :: "sstable list \<Rightarrow> unit io" where
  "remove_files [] = io_lift (Ok ())"
| "remove_files (t # ts) = io_bind (sys_remove (path t)) (\<lambda>_. remove_files ts)"

text \<open>An \<open>Option\<close> as the iterator that \<open>Vec::splice\<close> takes its replacement from.\<close>

definition option_list :: "'a option \<Rightarrow> 'a list" where
  "option_list x = (case x of None \<Rightarrow> [] | Some t \<Rightarrow> [t])"

definition splice :: "nat \<Rightarrow> nat \<Rightarrow> 'a option \<Rightarrow> 'a list \<Rightarrow> 'a list" where
  "splice start count replacement ts =
     take start ts @ option_list replacement @ drop (start + count) ts"

text \<open>The rest edits the set as it is by then, and unlinks what it took out of it.\<close>

definition compact_publish :: "nat \<Rightarrow> nat \<Rightarrow> sstable option \<Rightarrow> unit set_op" where
  "compact_publish start count replacement s w =
     (let obsolete = take count (drop start (tables s));
          s' = replace_tables (splice start count replacement) s
      in case remove_files obsolete w of (r, w1) \<Rightarrow> (r, s', w1))"

definition compact :: "nat \<Rightarrow> nat \<Rightarrow> unit set_op" where
  "compact start count s w =
     (case compact_prepare s start count w of
        (Fail e, w1) \<Rightarrow> (Fail e, s, w1)
      | (Ok replacement, w1) \<Rightarrow> compact_publish start count replacement s w1)"

section \<open>Choosing a run\<close>

definition comparable :: "nat list \<Rightarrow> nat \<Rightarrow> nat \<Rightarrow> f64 \<Rightarrow> bool" where
  "comparable sizes start until ratio =
     (let window = take (until + 1 - start) (drop start sizes);
          smallest = f64_of_nat (foldr min window (hd window));
          largest = f64_of_nat (foldr max window 0)
      in \<not> f64_less (f64_mult smallest ratio) largest)"

function run_end :: "nat list \<Rightarrow> f64 \<Rightarrow> nat \<Rightarrow> nat \<Rightarrow> nat" where
  "run_end sizes ratio start until =
     (if until < length sizes \<and> comparable sizes start until ratio
      then run_end sizes ratio start (until + 1) else until)"
  by pat_completeness auto
termination
  by (relation "measure (\<lambda>(sizes, ratio, start, until). length sizes - until)") auto

declare run_end.simps [simp del]

lemma run_end_ge: "until \<le> run_end sizes ratio start until"
  by (induction sizes ratio start until rule: run_end.induct) (subst run_end.simps, force)

function pick_from :: "nat list \<Rightarrow> nat \<Rightarrow> f64 \<Rightarrow> nat \<Rightarrow> (nat \<times> nat) option" where
  "pick_from sizes min_run ratio start =
     (if start < length sizes then
        let until = run_end sizes ratio start (start + 1)
        in if min_run \<le> until - start then Some (start, until - start)
           else pick_from sizes min_run ratio (if start + 1 < until then until else start + 1)
      else None)"
  by pat_completeness auto
termination
  by (relation "measure (\<lambda>(sizes, min_run, ratio, start). length sizes - start)") auto

declare pick_from.simps [simp del]

definition pick_run :: "sstable_set \<Rightarrow> nat \<Rightarrow> f64 \<Rightarrow> (nat \<times> nat) option" where
  "pick_run s min_run size_ratio =
     pick_from (map (\<lambda>t. length (file_data t)) (tables s)) min_run size_ratio 0"

section \<open>Lookups\<close>

fun get_newest :: "sstable list \<Rightarrow> bytes \<Rightarrow> u64 \<Rightarrow> bytes option res" where
  "get_newest [] key hash = Ok None"
| "get_newest (t # ts) key hash =
     bind_res (sst_get t key hash) (\<lambda>r.
       case r of
         Some (Value v) \<Rightarrow> Ok (Some v)
       | Some Tombstone \<Rightarrow> Ok None
       | None \<Rightarrow> get_newest ts key hash)"

definition set_get :: "sstable_set \<Rightarrow> bytes \<Rightarrow> bytes option res" where
  "set_get s key = get_newest (rev (tables s)) key (hash64 key)"

end
