(* ===== verification/Set_Open.thy ===== *)
theory Set_Open
  imports SSTable_Set
begin

text \<open>
  Opening a data directory gives back the tables that are stored in it: the invariant that ties a
  set of tables to the directory, and what \<open>SSTableSet::open\<close> does under it. The directory may hold
  temporary files and inputs of a compaction whose output is there as well; both are removed.
\<close>

section \<open>The tables of a set and the files of a directory\<close>

definition stored :: "directory \<Rightarrow> sstable \<Rightarrow> bool" where
  "stored d t \<longleftrightarrow>
     path t = sst_name (span_of t) \<and> map_of d (path t) = Some (file_data t) \<and>
     (\<forall>data_dir. sst_open data_dir (path t) (file_data t) (first_seq t) (last_seq t) = Ok t)"

definition spans_ok :: "nat \<Rightarrow> sstable list \<Rightarrow> bool" where
  "spans_ok bound ts \<longleftrightarrow>
     bound < 2 ^ 64 \<and> (\<forall>t \<in> set ts. first_seq t \<le> last_seq t \<and> last_seq t < bound) \<and>
     sorted_wrt (\<lambda>t u. last_seq t < first_seq u) ts"

text \<open>A file that is not one of the tables but covered by one: a compaction's leftover input.\<close>

definition leftover :: "sstable list \<Rightarrow> bytes \<Rightarrow> bool" where
  "leftover ts name \<longleftrightarrow>
     (\<exists>t \<in> set ts. \<exists>span. parse_span name = Some span \<and> span_within span (span_of t) \<and>
        span \<noteq> span_of t)"

definition dir_matches :: "directory \<Rightarrow> sstable list \<Rightarrow> bool" where
  "dir_matches d ts \<longleftrightarrow>
     distinct (map fst d) \<and> (\<forall>t \<in> set ts. stored d t) \<and>
     (\<forall>name \<in> fst ` set d. extension name = Some (str ''sst'') \<longrightarrow>
        name \<in> path ` set ts \<or> leftover ts name)"

text \<open>What is left of a directory when it has been tidied up for these tables.\<close>

definition kept_names :: "sstable list \<Rightarrow> bytes set" where
  "kept_names ts =
     {name. extension name \<noteq> Some (str ''tmp'') \<and>
        (extension name = Some (str ''sst'') \<longrightarrow> name \<in> path ` set ts)}"

lemma spans_ok_simps [simp]: "spans_ok bound [] \<longleftrightarrow> bound < 2 ^ 64"
  by (simp add: spans_ok_def)

lemma spans_ok_append:
  "spans_ok bound (ts @ us) \<longleftrightarrow>
     spans_ok bound ts \<and> spans_ok bound us \<and>
     (\<forall>t \<in> set ts. \<forall>u \<in> set us. last_seq t < first_seq u)"
  by (auto simp: spans_ok_def sorted_wrt_append)

lemma spans_ok_mono: "spans_ok n ts \<Longrightarrow> n \<le> m \<Longrightarrow> m < 2 ^ 64 \<Longrightarrow> spans_ok m ts"
  by (auto simp: spans_ok_def dest: less_le_trans)

lemma spans_ok_range:
  assumes "spans_ok bound ts" and "t \<in> set ts"
  shows "fst (span_of t) < 2 ^ 64" "snd (span_of t) < 2 ^ 64" "first_seq t \<le> last_seq t"
  using assms by (auto simp: spans_ok_def span_of_def)

lemma sorted_wrt_pair:
  "sorted_wrt R xs \<Longrightarrow> x \<in> set xs \<Longrightarrow> y \<in> set xs \<Longrightarrow> x = y \<or> R x y \<or> R y x"
  by (induction xs) auto

lemma spans_ok_disjoint:
  assumes "spans_ok bound ts" and "t \<in> set ts" and "u \<in> set ts"
    and "span_within sp (span_of t)" and "span_within sp (span_of u)" and "fst sp \<le> snd sp"
  shows "t = u"
  using sorted_wrt_pair [of "\<lambda>t u. last_seq t < first_seq u" ts t u] assms
  by (auto simp: spans_ok_def span_within_def span_of_def)

section \<open>Reading the directory\<close>

definition spans_in :: "bytes list \<Rightarrow> named_span list" where
  "spans_in names =
     map (\<lambda>n. (the (parse_span n), n)) (filter (\<lambda>n. extension n = Some (str ''sst'')) names)"

text \<open>A calm step of the world: nothing but the directory changes.\<close>

definition calm_step :: "bytes set \<Rightarrow> world \<Rightarrow> world \<Rightarrow> bool" where
  "calm_step removed w w' \<longleftrightarrow>
     env w' = [] \<and> root w' = root w \<and> map_of (dir w') = map_of (dir w) |` (- removed) \<and>
     (distinct (map fst (dir w)) \<longrightarrow> distinct (map fst (dir w')))"

lemma calm_step_refl: "env w = [] \<Longrightarrow> calm_step {} w w"
  by (simp add: calm_step_def restrict_map_def)

lemma calm_step_delete:
  "calm_step R (w\<lparr>dir := AList.delete n (dir w), disk := D\<rparr>) w' \<Longrightarrow> calm_step (insert n R) w w'"
  by (auto simp: calm_step_def delete_conv' distinct_delete restrict_map_def fun_eq_iff)

lemma scan_dir_calm:
  assumes "env w = []" and "distinct names"
    and "\<forall>n \<in> set names. extension n = Some (str ''sst'') \<longrightarrow> parse_span n \<noteq> None"
    and "\<forall>n \<in> set names. extension n = Some (str ''tmp'') \<longrightarrow> map_of (dir w) n \<noteq> None"
  shows "\<exists>w'. scan_dir data_dir names acc w = (Ok (acc @ spans_in names), w') \<and>
    calm_step {n \<in> set names. extension n = Some (str ''tmp'')} w w'"
  using assms
proof (induction names arbitrary: acc w)
  case Nil
  then show ?case by (simp add: spans_in_def calm_step_refl)
next
  case (Cons n names)
  consider (table) sp where "extension n = Some (str ''sst'')" "parse_span n = Some sp"
    | (temp) "extension n = Some (str ''tmp'')"
    | (other) "extension n \<noteq> Some (str ''sst'')" "extension n \<noteq> Some (str ''tmp'')"
    using Cons.prems(3) by auto
  then show ?case
  proof cases
    case table
    then have same: "{m \<in> set (n # names). extension m = Some (str ''tmp'')} =
        {m \<in> set names. extension m = Some (str ''tmp'')}"
      by auto
    from table Cons.IH [of w "acc @ [(sp, n)]"] Cons.prems show ?thesis
      unfolding same by (simp add: spans_in_def)
  next
    case temp
    then have new: "{m \<in> set (n # names). extension m = Some (str ''tmp'')} =
        insert n {m \<in> set names. extension m = Some (str ''tmp'')}"
      by auto
    let ?w = "w\<lparr>dir := AList.delete n (dir w), disk := sh_names (AList.delete n) (disk w)\<rparr>"
    have "\<forall>m \<in> set names. extension m = Some (str ''tmp'') \<longrightarrow> map_of (dir ?w) m \<noteq> None"
      using Cons.prems(2,4) by (auto simp: delete_conv')
    then obtain w' where "scan_dir data_dir names acc ?w = (Ok (acc @ spans_in names), w')"
      "calm_step {m \<in> set names. extension m = Some (str ''tmp'')} ?w w'"
      using Cons.IH [of ?w acc] Cons.prems by auto
    moreover have "sys_remove n w = (Ok (), ?w)"
      using Cons.prems(1,4) temp by (intro sys_calm(6)) auto
    moreover have "extension n \<noteq> Some (str ''sst'')" using temp by simp
    ultimately show ?thesis
      unfolding new using temp by (auto simp: io_bind_def spans_in_def intro: calm_step_delete)
  next
    case other
    then have same: "{m \<in> set (n # names). extension m = Some (str ''tmp'')} =
        {m \<in> set names. extension m = Some (str ''tmp'')}"
      by auto
    from other Cons.IH [of w acc] Cons.prems show ?thesis
      unfolding same by (simp add: spans_in_def)
  qed
qed

section \<open>Opening the tables\<close>

definition openable :: "bytes \<Rightarrow> named_span list \<Rightarrow> (bytes \<Rightarrow> sstable) \<Rightarrow> directory \<Rightarrow>
    nat \<times> named_span \<Rightarrow> bool" where
  "openable data_dir spans tbl d x \<longleftrightarrow>
     (\<exists>f. map_of d (snd (snd x)) = Some f \<and>
        (\<not> superseded spans (fst x) (fst (snd x)) \<longrightarrow>
           sst_open data_dir (snd (snd x)) f (fst (fst (snd x))) (snd (fst (snd x))) =
             Ok (tbl (snd (snd x)))))"

definition dropped :: "named_span list \<Rightarrow> (nat \<times> named_span) list \<Rightarrow> (nat \<times> named_span) list" where
  "dropped spans rest = filter (\<lambda>x. superseded spans (fst x) (fst (snd x))) rest"

definition remaining :: "named_span list \<Rightarrow> (nat \<times> named_span) list \<Rightarrow> (nat \<times> named_span) list" where
  "remaining spans rest = filter (\<lambda>x. \<not> superseded spans (fst x) (fst (snd x))) rest"

lemma open_tables_calm:
  assumes "env w = []" and "distinct (map (\<lambda>x. snd (snd x)) rest)"
    and "\<forall>x \<in> set rest. openable data_dir spans tbl (dir w) x"
  shows "\<exists>w'. open_tables data_dir spans rest acc w =
      (Ok (acc @ map (\<lambda>x. tbl (snd (snd x))) (remaining spans rest)), w') \<and>
    calm_step ((\<lambda>x. snd (snd x)) ` set (dropped spans rest)) w w'"
  using assms
proof (induction rest arbitrary: acc w)
  case Nil
  then show ?case by (simp add: calm_step_refl dropped_def remaining_def)
next
  case (Cons x rest)
  obtain i sp n where x: "x = (i, sp, n)" by (cases x)
  from Cons.prems(3) x obtain f where f: "map_of (dir w) n = Some f"
    "\<not> superseded spans i sp \<longrightarrow> sst_open data_dir n f (fst sp) (snd sp) = Ok (tbl n)"
    by (auto simp: openable_def)
  show ?case
  proof (cases "superseded spans i sp")
    case True
    let ?w = "w\<lparr>dir := AList.delete n (dir w), disk := sh_names (AList.delete n) (disk w)\<rparr>"
    have "\<forall>y \<in> set rest. openable data_dir spans tbl (dir ?w) y"
    proof
      fix y assume "y \<in> set rest"
      then have "snd (snd y) \<noteq> n" and "openable data_dir spans tbl (dir w) y"
        using Cons.prems(2,3) x by auto
      then show "openable data_dir spans tbl (dir ?w) y" by (simp add: openable_def delete_conv')
    qed
    then obtain w' where "open_tables data_dir spans rest acc ?w =
        (Ok (acc @ map (\<lambda>x. tbl (snd (snd x))) (remaining spans rest)), w')"
      "calm_step ((\<lambda>x. snd (snd x)) ` set (dropped spans rest)) ?w w'"
      using Cons.IH [of ?w acc] Cons.prems(1,2) by auto
    moreover have "sys_remove n w = (Ok (), ?w)"
      using Cons.prems(1) f by (intro sys_calm(6)) auto
    ultimately show ?thesis
      using True x
      by (auto simp: io_bind_def dropped_def remaining_def intro: calm_step_delete)
  next
    case False
    then have "open_file data_dir n sp w = (Ok (tbl n), w)"
      using f by (simp add: open_file_def)
    then show ?thesis
      using False x Cons.IH [of w "acc @ [tbl n]"] Cons.prems
      by (auto simp: io_bind_def dropped_def remaining_def)
  qed
qed

section \<open>The whole of open\<close>

lemma calm_step_trans:
  "calm_step R w w1 \<Longrightarrow> calm_step S w1 w2 \<Longrightarrow> calm_step (R \<union> S) w w2"
  by (auto simp: calm_step_def)

text \<open>On a list without repetitions, supersession does not need the index.\<close>

definition covered :: "named_span set \<Rightarrow> named_span \<Rightarrow> bool" where
  "covered xs x \<longleftrightarrow> (\<exists>y \<in> xs. y \<noteq> x \<and> span_within (fst x) (fst y))"

lemma superseded_covered:
  assumes "distinct xs" and "i < length xs"
  shows "superseded xs i (fst (xs ! i)) \<longleftrightarrow> covered (set xs) (xs ! i)"
proof -
  have "set (enumerate 0 xs) = (\<lambda>j. (j, xs ! j)) ` {..<length xs}"
    by (auto simp: in_set_enumerate_eq image_iff)
  then have "superseded xs i (fst (xs ! i)) \<longleftrightarrow>
      (\<exists>j < length xs. j \<noteq> i \<and> span_within (fst (xs ! i)) (fst (xs ! j)))"
    by (auto simp: superseded_def list_ex_iff split_beta)
  also have "\<dots> \<longleftrightarrow> covered (set xs) (xs ! i)"
  proof -
    have "set xs = (\<lambda>j. xs ! j) ` {..<length xs}"
      using nth_image [of "length xs" xs] by (simp add: lessThan_atLeast0)
    then show ?thesis using assms by (auto simp: covered_def nth_eq_iff_index_eq)
  qed
  finally show ?thesis .
qed

lemma map_snd_filter_enumerate:
  "(\<And>i. i < length xs \<Longrightarrow> P (n + i, xs ! i) \<longleftrightarrow> Q (xs ! i)) \<Longrightarrow>
     map snd (filter P (enumerate n xs)) = filter Q xs"
proof (induction xs arbitrary: n)
  case Nil
  then show ?case by simp
next
  case (Cons x xs)
  have "map snd (filter P (enumerate (Suc n) xs)) = filter Q xs"
    using Cons.prems [of "Suc i" for i] by (intro Cons.IH) simp
  moreover have "P (n, x) \<longleftrightarrow> Q x" using Cons.prems [of 0] by simp
  ultimately show ?case by simp
qed

definition named :: "sstable \<Rightarrow> named_span" where
  "named t = (span_of t, path t)"

lemma spans_ok_named_sorted:
  "spans_ok bound ts \<Longrightarrow> sorted_wrt (<) (map named ts)"
  by (auto simp: spans_ok_def sorted_wrt_map named_def span_of_def less_prod_def'
      elim!: sorted_wrt_mono_rel [rotated] intro: le_less_trans)

text \<open>
  The situation of \<open>open\<close>: the directory matches some tables, and \<open>xs\<close> is the sorted list of the
  spans found in it.
\<close>

definition dir_spans :: "directory \<Rightarrow> sstable list \<Rightarrow> named_span list \<Rightarrow> bool" where
  "dir_spans d ts xs \<longleftrightarrow>
     dir_matches d ts \<and> (\<exists>bound. spans_ok bound ts) \<and> xs = sort (spans_in (map fst d))"

lemma dir_spans_disjoint:
  "dir_spans d ts xs \<Longrightarrow> t \<in> set ts \<Longrightarrow> u \<in> set ts \<Longrightarrow> span_within (span_of t) (span_of u) \<Longrightarrow> t = u"
  by (force simp: dir_spans_def span_within_def span_of_def spans_ok_def
      intro: spans_ok_disjoint [of _ ts t u "span_of t"])

lemma table_file:
  assumes "dir_spans d ts xs" and "t \<in> set ts"
  shows "stored d t" "parse_span (path t) = Some (span_of t)"
    "extension (path t) = Some (str ''sst'')" "path t \<in> fst ` set d"
proof -
  from assms obtain bound where "spans_ok bound ts" by (auto simp: dir_spans_def)
  note r = spans_ok_range [OF this assms(2)]
  show s: "stored d t" using assms by (auto simp: dir_spans_def dir_matches_def)
  then show "parse_span (path t) = Some (span_of t)" "extension (path t) = Some (str ''sst'')"
    using r by (auto simp: stored_def parse_span_sst_name_eq extension_sst_name)
  show "path t \<in> fst ` set d" using s by (auto simp: stored_def intro: map_of_some_key)
qed

lemma span_cases:
  assumes D: "dir_spans d ts xs" and x: "x \<in> set xs"
  obtains (table) t where "t \<in> set ts" "x = named t"
  | (left) t where "t \<in> set ts" "span_within (fst x) (span_of t)" "fst x \<noteq> span_of t"
      "leftover ts (snd x)" "snd x \<notin> path ` set ts"
proof -
  from assms obtain n where n: "n \<in> fst ` set d" "extension n = Some (str ''sst'')"
    and x: "x = (the (parse_span n), n)"
    by (auto simp: dir_spans_def spans_in_def)
  show ?thesis
  proof (cases "n \<in> path ` set ts")
    case True
    then obtain t where "t \<in> set ts" "n = path t" by auto
    then show ?thesis using table [of t] table_file [OF D] x by (simp add: named_def)
  next
    case False
    then have "leftover ts n" using D n by (auto simp: dir_spans_def dir_matches_def)
    then show ?thesis using left x False by (auto simp: leftover_def)
  qed
qed

lemma named_in_xs: "dir_spans d ts xs \<Longrightarrow> t \<in> set ts \<Longrightarrow> named t \<in> set xs"
  using table_file [of d ts xs t] by (force simp: dir_spans_def spans_in_def named_def)

lemma covered_iff:
  assumes D: "dir_spans d ts xs" and x: "x \<in> set xs"
  shows "covered (set xs) x \<longleftrightarrow> x \<notin> named ` set ts"
proof
  assume "x \<notin> named ` set ts"
  with D x show "covered (set xs) x"
  proof (cases rule: span_cases)
    case (left t)
    then show ?thesis
      using named_in_xs [OF D, of t] unfolding covered_def by (intro bexI [of _ "named t"]) (auto simp: named_def)
  qed auto
next
  assume "covered (set xs) x"
  then obtain y where y: "y \<in> set xs" "y \<noteq> x" "span_within (fst x) (fst y)"
    by (auto simp: covered_def)
  show "x \<notin> named ` set ts"
  proof
    assume "x \<in> named ` set ts"
    then obtain t where t: "t \<in> set ts" "x = named t" by auto
    from D y(1) show False
    proof (cases rule: span_cases)
      case (table u)
      then have "t = u" using dir_spans_disjoint [OF D t(1) table(1)] y(3) t by (simp add: named_def)
      then show False using y(2) t table by simp
    next
      case (left u)
      then have "span_within (span_of t) (span_of u)"
        using y(3) t by (auto simp: span_within_def named_def)
      then have "t = u" by (rule dir_spans_disjoint [OF D t(1) left(1)])
      then show False using left y(3) t by (auto simp: span_within_def named_def prod_eq_iff)
    qed
  qed
qed

lemma distinct_xs:
  assumes "dir_spans d ts xs"
  shows "distinct xs" "distinct (map snd xs)"
proof -
  have "distinct (map fst d)" and xs: "xs = sort (spans_in (map fst d))"
    using assms by (simp_all add: dir_spans_def dir_matches_def)
  have "distinct (map snd (spans_in (map fst d)))"
    using \<open>distinct (map fst d)\<close>
    by (simp add: spans_in_def o_def distinct_filter)
  then have "distinct (map snd xs)"
    by (simp add: xs distinct_map)
  then show "distinct (map snd xs)" "distinct xs" by (simp_all add: distinct_map)
qed

lemma kept_xs:
  assumes D: "dir_spans d ts xs"
  shows "filter (\<lambda>x. \<not> covered (set xs) x) xs = map named ts"
proof (rule sorted_distinct_set_unique)
  show "sorted (filter (\<lambda>x. \<not> covered (set xs) x) xs)"
    using D by (simp add: dir_spans_def sorted_wrt_filter)
  show "distinct (filter (\<lambda>x. \<not> covered (set xs) x) xs)" using distinct_xs [OF D] by simp
  show "sorted (map named ts)" "distinct (map named ts)"
    using D spans_ok_named_sorted [of _ ts] by (auto simp: dir_spans_def strict_sorted_iff)
  show "set (filter (\<lambda>x. \<not> covered (set xs) x) xs) = set (map named ts)"
    using covered_iff [OF D] named_in_xs [OF D] by (simp only: set_filter set_map) blast
qed

lemma foldr_max_le: "foldr max xs (a::nat) \<le> b \<longleftrightarrow> a \<le> b \<and> (\<forall>x \<in> set xs. x \<le> b)"
  by (induction xs) auto

lemma foldr_max_ge: "x \<in> set xs \<Longrightarrow> x \<le> foldr max xs (a::nat)"
  using foldr_max_le [of xs a "foldr max xs a"] by simp

definition seq_after :: "sstable list \<Rightarrow> nat" where
  "seq_after ts = foldr max (map (\<lambda>t. last_seq t + 1) ts) 0"

lemma next_seq_of_xs:
  assumes D: "dir_spans d ts xs"
  shows "next_seq_of xs = Ok (seq_after ts)"
proof -
  have dom: "\<exists>t \<in> set ts. snd (fst x) \<le> last_seq t" if "x \<in> set xs" for x
    using D that by (cases rule: span_cases) (auto simp: named_def span_of_def span_within_def)
  have "snd (fst x) + 1 < 2 ^ 64" if "x \<in> set xs" for x
    using dom [OF that] D by (force simp: dir_spans_def spans_ok_def)
  then have no: "\<not> list_ex (\<lambda>((lo, hi), name). 2 ^ 64 \<le> hi + 1) xs"
    by (force simp: list_ex_iff)
  have "foldr max (map (\<lambda>((lo, hi), name). hi + 1) xs) 0 = seq_after ts"
  proof (rule antisym)
    show "foldr max (map (\<lambda>((lo, hi), name). hi + 1) xs) 0 \<le> seq_after ts"
      using dom unfolding foldr_max_le seq_after_def
      by (fastforce intro: order_trans [OF _ foldr_max_ge [of "last_seq t + 1" for t]])
    show "seq_after ts \<le> foldr max (map (\<lambda>((lo, hi), name). hi + 1) xs) 0"
      unfolding foldr_max_le seq_after_def
      using named_in_xs [OF D]
      by (force simp: named_def span_of_def intro!: foldr_max_ge)
  qed
  then show ?thesis using no by (simp add: next_seq_of_def)
qed

lemma path_inject:
  assumes D: "dir_spans d ts xs" and t: "t \<in> set ts" "u \<in> set ts" and eq: "path t = path u"
  shows "t = u"
proof -
  have "span_of t = span_of u" using table_file(2) [OF D] t eq by (metis option.inject)
  then show ?thesis using dir_spans_disjoint [OF D t] by (simp add: span_within_def)
qed

lemma calm_step_cong:
  assumes "calm_step R w w'" and "\<And>n. n \<in> fst ` set (dir w) \<Longrightarrow> n \<in> R \<longleftrightarrow> n \<in> R'"
  shows "calm_step R' w w'"
proof -
  have "map_of (dir w) |` (- R) = map_of (dir w) |` (- R')"
  proof
    fix n
    show "(map_of (dir w) |` (- R)) n = (map_of (dir w) |` (- R')) n"
    proof (cases "map_of (dir w) n")
      case None
      then show ?thesis by (simp add: restrict_map_def)
    next
      case (Some f)
      then have "n \<in> R \<longleftrightarrow> n \<in> R'" by (intro assms(2)) (rule map_of_some_key)
      then show ?thesis by (simp add: restrict_map_def)
    qed
  qed
  then show ?thesis using assms(1) by (simp add: calm_step_def)
qed

lemma xs_member:
  "dir_spans d ts xs \<Longrightarrow> x \<in> set xs \<Longrightarrow>
     extension (snd x) = Some (str ''sst'') \<and> snd x \<in> fst ` set d"
  by (force simp: dir_spans_def spans_in_def)

lemma open_tables_xs:
  assumes D: "dir_spans d ts xs" and calm: "env w = []"
    and files: "\<And>n. extension n = Some (str ''sst'') \<Longrightarrow> map_of (dir w) n = map_of d n"
  shows "\<exists>w'. open_tables data_dir xs (enumerate 0 xs) [] w = (Ok ts, w') \<and>
    calm_step (snd ` (set xs - named ` set ts)) w w'"
proof -
  define tbl where "tbl n = (SOME t. t \<in> set ts \<and> path t = n)" for n
  have tbl: "tbl (path t) = t" if "t \<in> set ts" for t
    unfolding tbl_def using that path_inject [OF D] by (intro some_equality) auto
  have sup: "superseded xs i (fst (xs ! i)) \<longleftrightarrow> covered (set xs) (xs ! i)" if "i < length xs" for i
    using superseded_covered [OF distinct_xs(1) [OF D] that] .
  have kept: "map snd (remaining xs (enumerate 0 xs)) = map named ts"
    unfolding remaining_def kept_xs [OF D, symmetric]
    by (rule map_snd_filter_enumerate) (simp add: sup)
  have "map (\<lambda>x. tbl (snd (snd x))) (remaining xs (enumerate 0 xs)) =
      map (\<lambda>x. tbl (snd x)) (map named ts)"
    unfolding kept [symmetric] by simp
  then have result: "map (\<lambda>x. tbl (snd (snd x))) (remaining xs (enumerate 0 xs)) = ts"
    by (simp add: named_def tbl map_idI)
  have "map snd (dropped xs (enumerate 0 xs)) = filter (covered (set xs)) xs"
    unfolding dropped_def by (rule map_snd_filter_enumerate) (simp add: sup)
  then have "snd ` set (dropped xs (enumerate 0 xs)) = {x \<in> set xs. covered (set xs) x}"
    by (metis set_map set_filter)
  then have "(\<lambda>x. snd (snd x)) ` set (dropped xs (enumerate 0 xs)) =
      snd ` {x \<in> set xs. covered (set xs) x}"
    by (metis image_image)
  moreover have "{x \<in> set xs. covered (set xs) x} = set xs - named ` set ts"
    using covered_iff [OF D] by blast
  ultimately have gone: "(\<lambda>x. snd (snd x)) ` set (dropped xs (enumerate 0 xs)) =
      snd ` (set xs - named ` set ts)" by simp
  have "openable data_dir xs tbl (dir w) x" if "x \<in> set (enumerate 0 xs)" for x
  proof -
    from that obtain i where i: "i < length xs" "x = (i, xs ! i)"
      by (auto simp: in_set_enumerate_eq prod_eq_iff)
    then have mem: "xs ! i \<in> set xs" by simp
    then have n: "extension (snd (xs ! i)) = Some (str ''sst'')" "snd (xs ! i) \<in> fst ` set d"
      using xs_member [OF D mem] by simp_all
    then have "map_of d (snd (xs ! i)) \<noteq> None" by (simp only: map_of_eq_None_iff not_not)
    then obtain f where f: "map_of (dir w) (snd (xs ! i)) = Some f"
      using files [OF n(1)] by auto
    have "sst_open data_dir (snd (xs ! i)) f (fst (fst (xs ! i))) (snd (fst (xs ! i))) =
        Ok (tbl (snd (xs ! i)))" if "\<not> superseded xs i (fst (xs ! i))"
    proof -
      from that obtain t where t: "t \<in> set ts" "xs ! i = named t"
        using sup [OF i(1)] covered_iff [OF D mem] by auto
      then show ?thesis
        using table_file(1,3) [OF D t(1)] f files [of "path t"] tbl [OF t(1)]
        by (auto simp: stored_def named_def span_of_def)
    qed
    then show ?thesis using f i(2) by (simp add: openable_def)
  qed
  moreover have "map (\<lambda>x. snd (snd x)) (enumerate 0 xs) = map snd xs"
    by (metis (no_types, lifting) comp_apply list.map_comp list.map_cong map_snd_enumerate)
  ultimately show ?thesis
    using open_tables_calm [OF calm, of "enumerate 0 xs" data_dir xs tbl "[]"] distinct_xs(2) [OF D]
    by (simp add: result gone)
qed

lemma snd_image_diff: "snd ` ((\<lambda>n. (g n, n)) ` A - (\<lambda>n. (g n, n)) ` B) = A - B"
  by force

lemma set_open_calm:
  assumes matches: "dir_matches (dir w) ts" and ok: "spans_ok bound ts" and calm: "env w = []"
  shows "\<exists>w'. set_open data_dir bpk w =
      (Ok \<lparr>tables = ts, set_dir = data_dir, bits_per_key = bpk, next_seq = seq_after ts\<rparr>, w') \<and>
    calm_step (- kept_names ts) w w'"
proof -
  define xs where "xs = sort (spans_in (map fst (dir w)))"
  have D: "dir_spans (dir w) ts xs" using matches ok by (auto simp: dir_spans_def xs_def)
  have dist: "distinct (map fst (dir w))" using matches by (simp add: dir_matches_def)
  have parse: "parse_span n \<noteq> None" if "n \<in> fst ` set (dir w)" "extension n = Some (str ''sst'')" for n
    using that matches table_file(2) [OF D] by (fastforce simp: dir_matches_def leftover_def)
  let ?T = "{n \<in> set (map fst (dir w)). extension n = Some (str ''tmp'')}"
  obtain w1 where w1: "scan_dir data_dir (map fst (dir w)) [] w = (Ok (spans_in (map fst (dir w))), w1)"
    "calm_step ?T w w1"
    using scan_dir_calm [OF calm dist, of data_dir "[]"] parse by (auto simp: map_of_eq_None_iff)
  have files: "map_of (dir w1) n = map_of (dir w) n" if "extension n = Some (str ''sst'')" for n
    using w1(2) that by (simp add: calm_step_def restrict_map_def)
  obtain w2 where w2: "open_tables data_dir xs (enumerate 0 xs) [] w1 = (Ok ts, w2)"
    "calm_step (snd ` (set xs - named ` set ts)) w1 w2"
    using open_tables_xs [OF D _ files] w1(2) by (auto simp: calm_step_def)
  have "calm_step (- kept_names ts) w w2"
  proof (rule calm_step_cong [OF calm_step_trans [OF w1(2) w2(2)]])
    fix n assume n: "n \<in> fst ` set (dir w)"
    have "n \<in> snd ` (set xs - named ` set ts) \<longleftrightarrow>
        extension n = Some (str ''sst'') \<and> n \<notin> path ` set ts"
    proof -
      have "set xs = (\<lambda>n. (the (parse_span n), n)) ` {n \<in> fst ` set (dir w). extension n = Some (str ''sst'')}"
        by (auto simp: xs_def spans_in_def)
      moreover have "named ` set ts = (\<lambda>n. (the (parse_span n), n)) ` path ` set ts"
        using table_file(2) [OF D] by (force simp: named_def)
      ultimately have "snd ` (set xs - named ` set ts) =
          {n \<in> fst ` set (dir w). extension n = Some (str ''sst'')} - path ` set ts"
        by (simp only: snd_image_diff)
      then show ?thesis using n by simp
    qed
    then show "n \<in> ?T \<union> snd ` (set xs - named ` set ts) \<longleftrightarrow> n \<in> - kept_names ts"
      using n by (auto simp: kept_names_def)
  qed
  then show ?thesis
    using w1(1) w2(1) next_seq_of_xs [OF D]
    by (simp add: set_open_def io_bind_def flip: xs_def)
qed

end
