(* ===== verification/Set_Refine.thy ===== *)
theory Set_Refine
  imports Set_Open
begin

text \<open>
  The set of tables refines a map from keys to the newest value written: lookups, writing a
  memtable, and what a directory holds when an operation stops at any point.
\<close>

section \<open>Lookups\<close>

text \<open>What a reader sees of a newest value: a tombstone is the absence of the key.\<close>

definition live :: "bytes option option \<Rightarrow> bytes option" where
  "live v = (case v of Some (Some x) \<Rightarrow> Some x | _ \<Rightarrow> None)"

lemma live_simps [simp]: "live None = None" "live (Some v) = v"
  by (auto simp: live_def split: option.split)

lemma get_newest_wf:
  "list_all2 wf_table ts ess \<Longrightarrow>
     get_newest ts key (hash64 key) = Ok (live (newest (rev ess) key))"
proof (induction ts ess rule: list_all2_induct)
  case Nil
  then show ?case by simp
next
  case (Cons t ts es ess)
  then show ?case
    by (auto simp: sst_get_wf [OF Cons.hyps(1)] map_add_def elim!: found_of.elims
        split: option.split found.split)
qed

lemma set_get_newest:
  "list_all2 wf_table (tables s) ess \<Longrightarrow> set_get s key = Ok (live (newest ess key))"
  using get_newest_wf [of "rev (tables s)" "rev ess" key] by (simp add: set_get_def)

section \<open>The invariant\<close>

definition dir_clean :: "directory \<Rightarrow> sstable list \<Rightarrow> bool" where
  "dir_clean d ts \<longleftrightarrow>
     distinct (map fst d) \<and> (\<forall>t \<in> set ts. stored d t) \<and>
     (\<forall>name \<in> fst ` set d. extension name = Some (str ''sst'') \<longrightarrow> name \<in> path ` set ts)"

text \<open>
  The tables of a set have these entries, and the directory has exactly their files (and
  whatever is not called a table). This is what \<open>open\<close> establishes.
\<close>

definition set_inv :: "sstable_set \<Rightarrow> entry list list \<Rightarrow> directory \<Rightarrow> bool" where
  "set_inv s ess d \<longleftrightarrow>
     list_all2 wf_table (tables s) ess \<and> spans_ok (next_seq s) (tables s) \<and> dir_clean d (tables s)"

text \<open>
  What a directory stands for when the next process opens it, whatever the last one was doing.
\<close>

definition disk_state :: "directory \<Rightarrow> entry list list \<Rightarrow> bool" where
  "disk_state d ess \<longleftrightarrow>
     (\<exists>ts bound. list_all2 wf_table ts ess \<and> spans_ok bound ts \<and> dir_matches d ts)"

lemma dir_clean_matches: "dir_clean d ts \<Longrightarrow> dir_matches d ts"
  by (auto simp: dir_clean_def dir_matches_def)

lemma set_inv_disk_state: "set_inv s ess d \<Longrightarrow> disk_state d ess"
  unfolding set_inv_def disk_state_def by (blast intro: dir_clean_matches)

lemma spans_ok_seq_after:
  assumes "spans_ok bound ts"
  shows "spans_ok (seq_after ts) ts"
proof -
  have "last_seq t + 1 \<le> seq_after ts" if "t \<in> set ts" for t
    unfolding seq_after_def using that by (intro foldr_max_ge) simp
  moreover have "seq_after ts \<le> bound"
    using assms unfolding seq_after_def foldr_max_le by (auto simp: spans_ok_def)
  ultimately show ?thesis using assms by (fastforce simp: spans_ok_def)
qed

lemma stored_cong: "map_of d' (path t) = map_of d (path t) \<Longrightarrow> stored d' t \<longleftrightarrow> stored d t"
  by (simp only: stored_def)

lemma stored_present: "stored d t \<Longrightarrow> map_of d (path t) = Some (file_data t) \<and> path t \<noteq> tmp_name sp"
  by (metis sst_name_neq_tmp_name stored_def)

lemma disk_state_reopen:
  assumes "disk_state (dir w) ess" and "env w = []"
  shows "\<exists>s w'. set_open data_dir bpk w = (Ok s, w') \<and> set_inv s ess (dir w') \<and>
    bits_per_key s = bpk \<and> env w' = [] \<and> root w' = root w \<and>
    (\<forall>n. extension n \<notin> {Some (str ''sst''), Some (str ''tmp'')} \<longrightarrow>
       map_of (dir w') n = map_of (dir w) n)"
proof -
  from assms(1) obtain ts bound where ts: "list_all2 wf_table ts ess" "spans_ok bound ts"
    "dir_matches (dir w) ts" by (auto simp: disk_state_def)
  from set_open_calm [OF ts(3,2) assms(2)] obtain w' where w':
    "set_open data_dir bpk w =
      (Ok \<lparr>tables = ts, set_dir = data_dir, bits_per_key = bpk, next_seq = seq_after ts\<rparr>, w')"
    "calm_step (- kept_names ts) w w'" by blast
  have kept: "map_of (dir w') n = (if n \<in> kept_names ts then map_of (dir w) n else None)" for n
    using w'(2) by (simp add: calm_step_def)
  have paths: "path t \<in> kept_names ts" if "t \<in> set ts" for t
    using that ts(3) by (auto simp: dir_matches_def stored_def kept_names_def extension_sst_name)
  have "dir_clean (dir w') ts"
    unfolding dir_clean_def
  proof (intro conjI ballI impI)
    show "distinct (map fst (dir w'))" using w'(2) ts(3) by (simp add: calm_step_def dir_matches_def)
    show "stored (dir w') t" if "t \<in> set ts" for t
    proof -
      have "map_of (dir w') (path t) = map_of (dir w) (path t)" using paths [OF that] kept by simp
      moreover have "stored (dir w) t" using that ts(3) by (simp add: dir_matches_def)
      ultimately show ?thesis using stored_cong by blast
    qed
    fix n assume "n \<in> fst ` set (dir w')" and ext: "extension n = Some (str ''sst'')"
    then have "map_of (dir w') n \<noteq> None" by (simp add: map_of_eq_None_iff)
    then have "n \<in> kept_names ts" using kept [of n] by (auto split: if_splits)
    then show "n \<in> path ` set ts" using ext by (simp add: kept_names_def)
  qed
  then have "set_inv \<lparr>tables = ts, set_dir = data_dir, bits_per_key = bpk, next_seq = seq_after ts\<rparr>
      ess (dir w')"
    using ts spans_ok_seq_after [OF ts(2)] by (simp add: set_inv_def)
  then show ?thesis
    using w' kept by (auto simp: calm_step_def kept_names_def)
qed

section \<open>Publishing a table\<close>

definition strictly_within :: "nat \<times> nat \<Rightarrow> nat \<times> nat \<Rightarrow> bool" where
  "strictly_within a b \<longleftrightarrow> span_within a b \<and> a \<noteq> b"

lemma span_within_trans: "span_within a b \<Longrightarrow> span_within b c \<Longrightarrow> span_within a c"
  by (auto simp: span_within_def)

lemma span_within_strictly:
  "span_within a b \<Longrightarrow> strictly_within b c \<Longrightarrow> strictly_within a c"
  by (cases a; cases b; cases c) (auto simp: span_within_def strictly_within_def)

text \<open>
  A directory after the rename of a finished table: it takes the place of the tables whose spans
  it covers, and all of those files are leftovers from then on.
\<close>

lemma publish_names:
  assumes "dir_clean d ts"
    and "map_of d' = (map_of d)(tmp_name sp := None, sst_name sp \<mapsto> f)"
    and "n \<in> fst ` set d'" and ext: "extension n = Some (str ''sst'')"
  shows "n = sst_name sp \<or> n \<in> path ` set ts"
proof -
  from assms(3) have "map_of d' n \<noteq> None" by (simp add: map_of_eq_None_iff)
  then have "n = sst_name sp \<or> map_of d n \<noteq> None" using assms(2) by (auto split: if_splits)
  then show ?thesis using assms(1) ext by (auto simp: dir_clean_def dest: map_of_some_key)
qed

lemma dir_matches_publish:
  assumes d: "dir_clean d ts"
    and d': "map_of d' = (map_of d)(tmp_name (span_of t) := None, sst_name (span_of t) \<mapsto> file_data t)"
      "distinct (map fst d')"
    and t: "stored d' t" "t \<in> set us"
    and us: "\<forall>u \<in> set us. u = t \<or> u \<in> set ts \<and> path u \<noteq> path t"
    and ts: "\<forall>u \<in> set ts. u \<in> set us \<or> strictly_within (span_of u) (span_of t)"
    and range: "\<forall>u \<in> set ts. fst (span_of u) < 2 ^ 64 \<and> snd (span_of u) < 2 ^ 64"
  shows "dir_matches d' us"
  unfolding dir_matches_def
proof (intro conjI ballI impI)
  show "distinct (map fst d')" by (rule d')
  have path: "path t = sst_name (span_of t)" using t by (simp add: stored_def)
  show "stored d' u" if "u \<in> set us" for u
  proof (cases "u = t")
    case False
    then have u: "u \<in> set ts" "path u \<noteq> path t" using us that by auto
    then have "stored d u" using d by (simp add: dir_clean_def)
    moreover have "path u \<noteq> tmp_name (span_of t)"
      using calculation by (metis sst_name_neq_tmp_name stored_def)
    then have "map_of d' (path u) = map_of d (path u)" using u(2) d'(1) path by simp
    ultimately show ?thesis using stored_cong by blast
  qed (use t in simp)
  fix n assume "n \<in> fst ` set d'" and ext: "extension n = Some (str ''sst'')"
  then have "n = path t \<or> n \<in> path ` set ts"
    using publish_names [OF d d'(1)] path by simp
  then show "n \<in> path ` set us \<or> leftover us n"
  proof
    assume "n \<in> path ` set ts"
    then obtain u where u: "u \<in> set ts" "n = path u" by auto
    then have "stored d u" using d by (simp add: dir_clean_def)
    then have "parse_span n = Some (span_of u)"
      using u range by (simp add: stored_def parse_span_sst_name_eq)
    then show ?thesis using ts u t(2) by (auto simp: leftover_def strictly_within_def)
  qed (use t in auto)
qed

text \<open>Unlinking a leftover does not change what the directory stands for.\<close>

lemma dir_matches_delete:
  assumes "dir_matches d ts" and "n \<notin> path ` set ts"
  shows "dir_matches (AList.delete n d) ts"
proof -
  have "stored (AList.delete n d) t" if "t \<in> set ts" for t
  proof -
    have "map_of (AList.delete n d) (path t) = map_of d (path t)"
      using assms(2) that by (auto simp: delete_conv')
    moreover have "stored d t" using assms(1) that by (simp add: dir_matches_def)
    ultimately show ?thesis using stored_cong by blast
  qed
  moreover have "\<forall>name \<in> fst ` set (AList.delete n d). extension name = Some (str ''sst'') \<longrightarrow>
      name \<in> path ` set ts \<or> leftover ts name"
    using assms(1) dom_delete_subset [of n d] unfolding dir_matches_def by blast
  ultimately show ?thesis
    using assms(1) unfolding dir_matches_def by (blast intro: distinct_delete)
qed

section \<open>Writing a table, whatever the system does\<close>

lemma tmp_name_neq_sst_name [simp]: "tmp_name t \<noteq> sst_name s"
  by (metis sst_name_neq_tmp_name)

lemma write_table_effect:
  assumes "write_table s span n es w = (r, w')"
  obtains (published) t where "build_table span n (bits_per_key s) es = Ok t"
      "length (file_data t) \<le> MAX_FILE_SIZE"
      "map_of (dir w') = (map_of (dir w))(tmp_name span := None, sst_name span \<mapsto> file_data t)"
      "root w' = root w" "distinct (map fst (dir w)) \<Longrightarrow> distinct (map fst (dir w'))"
      "r = Ok t \<or> (\<exists>st. r = Fail st)"
  | (unpublished) st where "r = Fail st" "same_except (tmp_name span) w w'"
proof -
  let ?tmp = "tmp_name span"
  obtain r1 w1 where c: "sys_create ?tmp w = (r1, w1)" by force
  note c_eff = sys_create_effect [OF c]
  show thesis
  proof (cases r1)
    case (Fail st)
    then show ?thesis using assms c c_eff unpublished [of st] by (auto simp: write_table_def io_bind_def)
  next
    case ok1: (Ok u)
    show ?thesis
    proof (cases "build_table span n (bits_per_key s) es")
      case (Fail st)
      then show ?thesis
        using assms c c_eff ok1 unpublished [of st] by (auto simp: write_table_def io_bind_def)
    next
      case built: (Ok t)
      obtain r2 w2 where a: "sys_append ?tmp (file_data t) w1 = (r2, w2)" by force
      have same2: "same_except ?tmp w w2"
        using same_except_trans [OF c_eff(1) sys_append_effect(1) [OF a]] .
      show ?thesis
      proof (cases r2)
        case (Fail st)
        then show ?thesis
          using assms c ok1 built a same2 unpublished [of st] by (auto simp: write_table_def io_bind_def)
      next
        case ok2: (Ok u)
        have file2: "map_of (dir w2) ?tmp = Some (file_data t)" "length (file_data t) \<le> MAX_FILE_SIZE"
          using sys_append_effect(2) [OF a] ok2 c_eff(2) ok1 by (simp_all add: contents_def)
        obtain r3 w3 where y: "sys_sync ?tmp w2 = (r3, w3)" by force
        note y_eff = sys_sync_effect [OF y]
        have same3: "same_except ?tmp w w3"
          using same2 y_eff by (simp add: same_except_def)
        show ?thesis
        proof (cases r3)
          case (Fail st)
          then show ?thesis
            using assms c ok1 built a ok2 y same3 unpublished [of st]
            by (auto simp: write_table_def io_bind_def)
        next
          case ok3: (Ok u)
          obtain r4 w4 where m: "sys_rename ?tmp (sst_name span) w3 = (r4, w4)" by force
          have "map_of (dir w3) ?tmp = Some (file_data t)" using file2 y_eff by simp
          with m show ?thesis
          proof (cases rule: sys_rename_effect)
            case renamed
            obtain r5 w5 where z: "sys_sync_dir w4 = (r5, w5)" by force
            note z_eff = sys_sync_dir_effect [OF z]
            have "map_of (dir w4) =
                (map_of (dir w))(?tmp := None, sst_name span \<mapsto> file_data t)"
              using renamed(2) same3 by (auto simp: fun_eq_iff same_except_def)
            moreover have "r = (case r5 of Ok u \<Rightarrow> Ok t | Fail st \<Rightarrow> Fail st) \<and> w' = w5"
              using assms c ok1 built a ok2 y ok3 m renamed(1) z
              by (cases r5) (simp_all add: write_table_def publish_def io_bind_def)
            ultimately show ?thesis
              using published [OF built file2(2)] renamed z_eff same3
              by (cases r5) (auto simp: same_except_def)
          next
            case (failed st)
            then show ?thesis
              using assms c ok1 built a ok2 y ok3 m same3 unpublished [of st]
              by (auto simp: write_table_def publish_def io_bind_def same_except_def)
          qed
        qed
      qed
    qed
  qed
qed

text \<open>Without faults, a table that can be built and fits a file is published.\<close>

lemma write_table_calm:
  assumes calm: "env w = []" and built: "build_table span n (bits_per_key s) es = Ok t"
    and fits: "length (file_data t) \<le> MAX_FILE_SIZE"
  shows "\<exists>w'. write_table s span n es w = (Ok t, w') \<and> env w' = []"
  using assms
  by (simp add: write_table_def publish_def io_bind_def sys_calm contents_update update_conv')

section \<open>Writing a memtable\<close>

lemma built_table:
  assumes built: "build_table span n b es = Ok t" and size: "length (file_data t) \<le> MAX_FILE_SIZE"
    and es: "es \<noteq> []" "key_sorted es" "\<forall>e \<in> set es. entry_fits e"
  shows "wf_table t es" and "span_of t = span"
    and "map_of d (sst_name span) = Some (file_data t) \<Longrightarrow> stored d t"
proof -
  have size': "length (file_data t) < 2 ^ 63" using size by (simp add: MAX_FILE_SIZE_def)
  then show "wf_table t es" using build_table_wf [OF built es] by simp
  have sp: "span_of t = span" "path t = sst_name span"
    using built by (auto elim: build_table_writer)
  then show "span_of t = span" by simp
  have "sst_open d0 (path t) (file_data t) (first_seq t) (last_seq t) = Ok t" for d0
    using sst_open_build_table [OF built es(1,3) size', of d0 "path t" "first_seq t" "last_seq t"]
    by simp
  then show "map_of d (sst_name span) = Some (file_data t) \<Longrightarrow> stored d t"
    using sp by (simp add: stored_def)
qed

text \<open>A change to one file that is not called a table leaves the tables alone.\<close>

lemma same_except_stored:
  assumes "same_except name w w'" and "extension name \<noteq> Some (str ''sst'')" and "stored (dir w) t"
  shows "stored (dir w') t"
proof -
  have "path t = sst_name (span_of t)" using assms(3) by (simp only: stored_def)
  then have "path t \<noteq> name" using assms(2) extension_sst_name [of "span_of t"] by auto
  then have "map_of (dir w') (path t) = map_of (dir w) (path t)"
    using assms(1) by (simp add: same_except_def)
  then show ?thesis using assms(3) stored_cong by blast
qed

lemma same_except_names:
  assumes "same_except name w w'" and "extension name \<noteq> Some (str ''sst'')"
    and "n \<in> fst ` set (dir w')" and "extension n = Some (str ''sst'')"
  shows "n \<in> fst ` set (dir w)"
proof -
  have "n \<noteq> name" using assms(2,4) by auto
  then have "map_of (dir w) n = map_of (dir w') n" using assms(1) by (simp add: same_except_def)
  moreover have "map_of (dir w') n \<noteq> None" using assms(3) by (simp only: map_of_eq_None_iff not_not)
  ultimately show ?thesis by (auto dest: map_of_some_key)
qed

lemma same_except_clean:
  assumes "same_except name w w'" and "extension name \<noteq> Some (str ''sst'')" and "dir_clean (dir w) ts"
  shows "dir_clean (dir w') ts"
  using same_except_stored [OF assms(1,2)] same_except_names [OF assms(1,2)] assms(1,3)
  unfolding dir_clean_def same_except_def by meson

lemma same_except_disk_state:
  assumes "same_except name w w'" and "extension name \<noteq> Some (str ''sst'')" and "disk_state (dir w) ess"
  shows "disk_state (dir w') ess"
proof -
  have "dir_matches (dir w') ts" if "dir_matches (dir w) ts" for ts
    using same_except_stored [OF assms(1,2)] same_except_names [OF assms(1,2)] assms(1) that
    unfolding dir_matches_def same_except_def by meson
  then show ?thesis using assms(3) unfolding disk_state_def by blast
qed

lemma tmp_name_not_table: "extension (tmp_name span) \<noteq> Some (str ''sst'')"
  by (simp add: extension_tmp_name)

text \<open>Files that are neither tables nor temporary, such as the log, are left alone.\<close>

definition others_same :: "world \<Rightarrow> world \<Rightarrow> bool" where
  "others_same w w' \<longleftrightarrow> root w' = root w \<and>
     (\<forall>n. extension n \<notin> {Some (str ''sst''), Some (str ''tmp'')} \<longrightarrow>
        map_of (dir w') n = map_of (dir w) n)"

lemma others_same_refl [simp]: "others_same w w"
  by (simp add: others_same_def)

lemma others_same_trans: "others_same w w1 \<Longrightarrow> others_same w1 w2 \<Longrightarrow> others_same w w2"
  by (simp add: others_same_def)

lemma table_names_named:
  assumes "extension n \<notin> {Some (str ''sst''), Some (str ''tmp'')}"
  shows "n \<noteq> tmp_name span" "n \<noteq> sst_name span"
  using assms extension_tmp_name [of span] extension_sst_name [of span]
  by (cases "n = tmp_name span"; cases "n = sst_name span"; simp)+

lemma others_same_tmp: "same_except (tmp_name span) w w' \<Longrightarrow> others_same w w'"
  using table_names_named(1) [of _ span] by (simp add: others_same_def same_except_def)

lemma write_table_others:
  assumes "write_table s span n es w = (r, w')"
  shows "others_same w w'"
  using assms
proof (cases rule: write_table_effect)
  case (published t)
  then show ?thesis using table_names_named [of _ span] by (simp add: others_same_def)
next
  case (unpublished st)
  then show ?thesis by (intro others_same_tmp)
qed

definition writable :: "memtable \<Rightarrow> bool" where
  "writable m \<longleftrightarrow> m \<noteq> [] \<and> key_sorted m \<and> (\<forall>e \<in> set m. entry_fits e)"

text \<open>
  A set together with a directory that may have more table files than the set: the output of a
  compaction that the set does not have yet, or inputs of one that are still to be unlinked.
\<close>

definition held :: "sstable_set \<Rightarrow> entry list list \<Rightarrow> sstable list \<Rightarrow> directory \<Rightarrow> bool" where
  "held s ess extra d \<longleftrightarrow>
     list_all2 wf_table (tables s) ess \<and> spans_ok (next_seq s) (tables s) \<and>
     dir_clean d (tables s @ extra) \<and> distinct (map path (tables s @ extra)) \<and>
     (\<forall>u \<in> set extra. first_seq u \<le> last_seq u \<and> last_seq u < next_seq s)"

lemma spans_ok_paths:
  assumes "spans_ok bound ts" and "\<forall>t \<in> set ts. stored d t"
  shows "distinct (map path ts)"
proof -
  have "t = u" if "t \<in> set ts" "u \<in> set ts" "path t = path u" for t u
  proof -
    have "span_of t = span_of u"
      using sst_name_inject [of "span_of t" "span_of u"] spans_ok_range [OF assms(1)] assms(2) that
      by (simp add: stored_def)
    then show ?thesis
      using spans_ok_disjoint [OF assms(1) that(1,2), of "span_of t"] spans_ok_range(3) [OF assms(1) that(1)]
      by (simp add: span_within_def span_of_def)
  qed
  moreover have "distinct ts"
    using assms(1) unfolding spans_ok_def
    by (auto simp: distinct_conv_nth sorted_wrt_iff_nth_less)
      (metis less_le_not_le linorder_neqE_nat nth_mem order.strict_trans2)
  ultimately show ?thesis by (auto simp: distinct_map inj_on_def)
qed

lemma spans_ok_snoc:
  "spans_ok n ts \<Longrightarrow> first_seq t = n \<Longrightarrow> last_seq t = n \<Longrightarrow> n + 1 < 2 ^ 64 \<Longrightarrow> spans_ok (n + 1) (ts @ [t])"
  by (auto simp: spans_ok_def sorted_wrt_append)

lemma held_Nil: "held s ess [] d \<longleftrightarrow> set_inv s ess d"
  using spans_ok_paths [of "next_seq s" "tables s" d]
  by (auto simp: held_def set_inv_def dir_clean_def)

lemma dir_clean_publish:
  assumes d: "dir_clean d ts"
    and d': "map_of d' = (map_of d)(tmp_name (span_of t) := None, sst_name (span_of t) \<mapsto> file_data t)"
      "distinct (map fst d')"
    and t: "stored d' t" "\<forall>u \<in> set ts. path u \<noteq> path t" and us: "set us = insert t (set ts)"
  shows "dir_clean d' us"
  unfolding dir_clean_def
proof (intro conjI ballI impI)
  show "distinct (map fst d')" by (rule d')
  have path: "path t = sst_name (span_of t)" using t by (simp add: stored_def)
  show "stored d' u" if "u \<in> set us" for u
  proof (cases "u = t")
    case False
    then have u: "u \<in> set ts" "path u \<noteq> path t" using us t(2) that by auto
    then have "stored d u" using d by (simp add: dir_clean_def)
    moreover have "path u \<noteq> tmp_name (span_of t)" using stored_present [OF calculation] by blast
    then have "map_of d' (path u) = map_of d (path u)" using u(2) d'(1) path by simp
    ultimately show ?thesis using stored_cong by blast
  qed (use t in simp)
  show "n \<in> path ` set us" if "n \<in> fst ` set d'" "extension n = Some (str ''sst'')" for n
    using publish_names [OF d d'(1) that] path us by auto
qed

text \<open>The rename of a flush puts its table at the end of those on the disk.\<close>

lemma held_publish:
  assumes held: "held s ess extra d" and seq: "next_seq s + 1 < 2 ^ 64"
    and t: "wf_table t m" "span_of t = (next_seq s, next_seq s)" and st: "stored d' t"
    and d': "map_of d' = (map_of d)(tmp_name (span_of t) := None, sst_name (span_of t) \<mapsto> file_data t)"
      "distinct (map fst d')"
  shows "held (s\<lparr>tables := tables s @ [t], next_seq := next_seq s + 1\<rparr>) (ess @ [m]) extra d'"
proof -
  let ?seq = "next_seq s"
  from held have ts: "list_all2 wf_table (tables s) ess" "spans_ok ?seq (tables s)"
    "dir_clean d (tables s @ extra)" "distinct (map path (tables s @ extra))"
    "\<forall>u \<in> set extra. first_seq u \<le> last_seq u \<and> last_seq u < ?seq"
    unfolding held_def by blast+
  have seqs: "first_seq t = ?seq" "last_seq t = ?seq" using t(2) by (simp_all add: span_of_def)
  have ok: "spans_ok (?seq + 1) (tables s @ [t])" using spans_ok_snoc [OF ts(2) seqs seq] .
  have below: "first_seq u \<le> last_seq u \<and> last_seq u < ?seq" if "u \<in> set (tables s @ extra)" for u
    using that ts(2,5) by (auto simp: spans_ok_def)
  have ne: "\<forall>u \<in> set (tables s @ extra). path u \<noteq> path t"
  proof
    fix u assume u: "u \<in> set (tables s @ extra)"
    show "path u \<noteq> path t"
    proof
      assume eq: "path u = path t"
      have "path u = sst_name (span_of u)" using ts(3) u by (simp only: dir_clean_def stored_def)
      moreover have "fst (span_of u) < 2 ^ 64" "snd (span_of u) < 2 ^ 64"
        using below [OF u] seq by (simp_all add: span_of_def)
      ultimately have "span_of u = span_of t"
        using sst_name_inject [of "span_of u" "span_of t"] eq st seq t(2) by (simp add: stored_def)
      then show False using below [OF u] seqs by (simp add: span_of_def)
    qed
  qed
  have "dir_clean d' ((tables s @ [t]) @ extra)"
    by (intro dir_clean_publish [OF ts(3) d' st ne]) auto
  moreover have "distinct (map path ((tables s @ [t]) @ extra))" using ts(4) ne by auto
  moreover have "list_all2 wf_table (tables s @ [t]) (ess @ [m])"
    using ts(1) t(1) by (simp add: list_all2_appendI)
  ultimately show ?thesis using ok ts(5) by (auto simp: held_def)
qed

lemma held_write:
  assumes held: "held s ess extra (dir w)" and m: "writable m" and seq: "next_seq s + 1 < 2 ^ 64"
    and op: "set_write m s w = (r, s', w')"
  shows "(\<exists>st. r = Fail st) \<and> s' = s \<and> held s ess extra (dir w') \<or>
    (\<exists>t. wf_table t m \<and> first_seq t = next_seq s \<and> last_seq t = next_seq s \<and>
       ((\<exists>st. r = Fail st) \<and> s' = s \<or>
        r = Ok () \<and> s' = s\<lparr>tables := tables s @ [t], next_seq := next_seq s + 1\<rparr>) \<and>
       held (s\<lparr>tables := tables s @ [t], next_seq := next_seq s + 1\<rparr>) (ess @ [m]) extra (dir w'))"
proof -
  let ?seq = "next_seq s"
  from held have ts: "list_all2 wf_table (tables s) ess" "spans_ok ?seq (tables s)"
    "dir_clean (dir w) (tables s @ extra)" "distinct (map path (tables s @ extra))"
    "\<forall>u \<in> set extra. first_seq u \<le> last_seq u \<and> last_seq u < ?seq"
    unfolding held_def by blast+
  obtain q w1 where wt: "write_table s (?seq, ?seq) (length m) m w = (q, w1)" by force
  then have op': "(r, s', w') = (case q of Fail e \<Rightarrow> (Fail e, s, w1)
      | Ok t \<Rightarrow> (Ok (), replace_tables (\<lambda>ts. ts @ [t]) (s\<lparr>next_seq := ?seq + 1\<rparr>), w1))"
    using op m seq by (cases q) (simp_all add: set_write_def writable_def)
  from wt show ?thesis
  proof (cases rule: write_table_effect)
    case (unpublished st)
    then have "held s ess extra (dir w1)"
      using same_except_clean [OF unpublished(2) tmp_name_not_table ts(3)] ts by (simp only: held_def)
    then show ?thesis using op' unpublished(1) by simp
  next
    case (published t)
    have mm: "m \<noteq> []" "key_sorted m" "\<forall>e \<in> set m. entry_fits e" using m by (simp_all add: writable_def)
    note t = built_table [OF published(1,2) mm]
    have st: "stored (dir w1) t" using published(3) by (intro t(3)) simp
    have dist: "distinct (map fst (dir w1))" using published(5) ts(3) by (simp add: dir_clean_def)
    have "held (s\<lparr>tables := tables s @ [t], next_seq := ?seq + 1\<rparr>) (ess @ [m]) extra (dir w1)"
      using published(3) t(2) by (intro held_publish [OF held seq t(1,2) st _ dist]) simp
    moreover have "first_seq t = ?seq" "last_seq t = ?seq" using t(2) by (simp_all add: span_of_def)
    ultimately show ?thesis
      using op' published(6) t(1) by (auto simp: replace_tables_def)
  qed
qed

lemma set_write_effect:
  assumes inv: "set_inv s ess (dir w)" and m: "writable m" and seq: "next_seq s + 1 < 2 ^ 64"
    and op: "set_write m s w = (r, s', w')"
  shows "(\<exists>st. r = Fail st) \<and> s' = s \<and> (disk_state (dir w') ess \<or> disk_state (dir w') (ess @ [m])) \<or>
     r = Ok () \<and> set_inv s' (ess @ [m]) (dir w') \<and> set_dir s' = set_dir s \<and>
       bits_per_key s' = bits_per_key s \<and> next_seq s' = next_seq s + 1"
  using held_write [of s ess "[]" w m r s' w'] assms
  by (auto simp: held_Nil dest: set_inv_disk_state)

lemma set_write_others: "set_write m s w = (r, s', w') \<Longrightarrow> others_same w w'"
  by (auto simp: set_write_def Let_def split: if_splits prod.splits res.splits
      dest: write_table_others)

lemma set_write_names:
  assumes op: "set_write m s w = (r, s', w')"
    and n: "n \<noteq> tmp_name (next_seq s, next_seq s)" "n \<noteq> sst_name (next_seq s, next_seq s)"
  shows "map_of (dir w') n = map_of (dir w) n"
proof -
  have "map_of (dir w1) n = map_of (dir w) n"
    if "write_table s (next_seq s, next_seq s) k m w = (q, w1)" for k q w1
    using that by (cases rule: write_table_effect) (use n in \<open>auto simp: same_except_def\<close>)
  then show ?thesis
    using op by (auto simp: set_write_def Let_def split: if_splits prod.splits res.splits)
qed

text \<open>
  Without faults, a memtable of a sensible size is written: the bound is one that the file of its
  table cannot exceed.
\<close>

definition small_table :: "nat \<Rightarrow> entry list \<Rightarrow> bool" where
  "small_table bpk es \<longleftrightarrow> 5 * rsize es + length es * bpk + 179 < 2 ^ 63"

lemma small_table_built:
  assumes "small_table bpk es" and "es \<noteq> []"
  shows "\<exists>t. build_table span (length es) bpk es = Ok t \<and> length (file_data t) \<le> MAX_FILE_SIZE"
proof -
  have nb: "length es * bpk + 127 < 2 ^ 64" using assms(1) by (simp add: small_table_def)
  from bloom_new_total [OF nb] build_table_total
  obtain t where t: "build_table span (length es) bpk es = Ok t" by blast
  from build_table_size [OF this assms(2) nb] have "length (file_data t) \<le> MAX_FILE_SIZE"
    using assms(1) by (simp add: small_table_def MAX_FILE_SIZE_def)
  then show ?thesis using t by blast
qed

lemma table_exists:
  assumes "writable es" and "small_table bpk es"
  shows "\<exists>t. build_table span (length es) bpk es = Ok t \<and> wf_table t es \<and> span_of t = span \<and>
    length (file_data t) \<le> MAX_FILE_SIZE"
  using assms small_table_built [OF assms(2)] built_table(1,2)
  unfolding writable_def by metis

lemma set_write_calm:
  assumes calm: "env w = []" and m: "m \<noteq> []" "small_table (bits_per_key s) m"
    and seq: "next_seq s + 1 < 2 ^ 64"
  shows "\<exists>s' w'. set_write m s w = (Ok (), s', w') \<and> env w' = []"
proof -
  obtain t where "build_table (next_seq s, next_seq s) (length m) (bits_per_key s) m = Ok t"
    "length (file_data t) \<le> MAX_FILE_SIZE"
    using small_table_built [OF m(2,1)] by blast
  from write_table_calm [OF calm this] show ?thesis
    using m(1) seq by (auto simp: set_write_def Let_def)
qed

lemma table_exists_for:
  "writable es \<Longrightarrow> small_table bpk es \<Longrightarrow> length es = n \<Longrightarrow>
     \<exists>t. build_table span n bpk es = Ok t \<and> wf_table t es \<and> length (file_data t) \<le> MAX_FILE_SIZE"
  using table_exists by blast

lemma set_write_ok:
  assumes "set_inv s ess (dir w)" and "env w = []" and "writable m"
    and "small_table (bits_per_key s) m" and "next_seq s + 1 < 2 ^ 64"
  shows "\<exists>s' w'. set_write m s w = (Ok (), s', w') \<and> set_inv s' (ess @ [m]) (dir w') \<and> env w' = [] \<and>
    bits_per_key s' = bits_per_key s \<and> next_seq s' = next_seq s + 1"
proof -
  obtain s' w' where op: "set_write m s w = (Ok (), s', w')" "env w' = []"
    using set_write_calm [OF assms(2) _ assms(4,5)] assms(3) by (auto simp: writable_def)
  from set_write_effect [OF assms(1,3,5) op(1)] show ?thesis using op by auto
qed

lemma disk_state_empty: "disk_state [] []"
  unfolding disk_state_def
  by (intro exI [of _ "[]"] exI [of _ 0]) (simp add: dir_matches_def)

text \<open>A set without tables in an empty directory, to start examples from.\<close>

definition empty_set :: sstable_set where
  "empty_set = \<lparr>tables = [], set_dir = str ''data'', bits_per_key = 10, next_seq = 0\<rparr>"

definition empty_dir :: "sysres list \<Rightarrow> world" where
  "empty_dir faults = world_of Directory [] faults"

lemma empty_set_inv: "set_inv empty_set [] (dir (empty_dir faults))"
  by (simp add: set_inv_def empty_set_def empty_dir_def dir_clean_def)

lemma empty_set_simps [simp]:
  "bits_per_key empty_set = 10" "next_seq empty_set = 0" "env (empty_dir faults) = faults"
  by (simp_all add: empty_set_def empty_dir_def)

lemma small_demo:
  "writable [([1], Some [7])]" "small_table 10 [([1], Some [7])]"
  "writable [([1], None)]" "small_table 10 [([1], None)]"
  by (simp_all add: writable_def entry_fits_def small_table_def)

section \<open>Properties\<close>

text \<open>C10: a table that was written reads back: opening its file gives a table that answers every key
  with the value or tombstone written for it, and with nothing for every other key.\<close>

theorem table_round_trip:
  assumes "build_table span n b es = Ok t" and "es \<noteq> []" and "key_sorted es"
    and "\<forall>e \<in> set es. entry_fits e" and "length (file_data t) \<le> MAX_FILE_SIZE"
  shows "\<exists>t'. sst_open data_dir name (file_data t) lo hi = Ok t' \<and>
    (\<forall>key. sst_get t' key (hash64 key) = Ok (map_option found_of (map_of es key)))"
proof -
  have size: "length (file_data t) < 2 ^ 63" using assms(5) by (simp add: MAX_FILE_SIZE_def)
  have "wf_table t es" using assms by (intro built_table(1))
  then have "wf_table (t\<lparr>path := name, first_seq := lo, last_seq := hi\<rparr>) es"
    by (simp add: wf_table_def)
  then show ?thesis
    using sst_open_build_table [OF assms(1,2,4) size] sst_get_wf by blast
qed

theorem table_round_trip_witness:
  "\<exists>t t'. build_table (0, 0) 2 10 [([1], Some [7]), ([2], None)] = Ok t \<and>
     sst_open [] [] (file_data t) 0 0 = Ok t' \<and>
     sst_get t' [1] (hash64 [1]) = Ok (Some (Value [7])) \<and>
     sst_get t' [2] (hash64 [2]) = Ok (Some Tombstone) \<and> sst_get t' [3] (hash64 [3]) = Ok None"
proof -
  let ?a = "[([1], Some [7]), ([2], None)] :: entry list"
  have w: "writable ?a" "small_table 10 ?a"
    by (simp_all add: writable_def entry_fits_def small_table_def)
  then obtain t where t: "build_table (0, 0) 2 10 ?a = Ok t" "length (file_data t) \<le> MAX_FILE_SIZE"
    using table_exists_for [of ?a 10 2 "(0, 0)"] by auto
  from table_round_trip [OF t(1) _ _ _ t(2), of "[]" "[]" 0 0]
  obtain t' where "sst_open [] [] (file_data t) 0 0 = Ok t'"
    "\<forall>key. sst_get t' key (hash64 key) = Ok (map_option found_of (map_of ?a key))"
    by (auto simp: entry_fits_def)
  then show ?thesis using t(1) by (intro exI [of _ t] exI [of _ t']) simp
qed

text \<open>A file that is not a table, or of another format version, is refused with an error that the
  caller can report; no content makes the check of the trailer panic.\<close>

lemma sst_open_refuses:
  assumes "length f < 32 \<or> take 6 (drop 24 (drop (length f - 32) f)) \<noteq> MAGIC \<or>
    drop (length f - 32) f ! 30 \<noteq> FORMAT_VERSION"
  shows "\<exists>k m. sst_open data_dir name f lo hi = Err k m \<and> k \<in> {InvalidData, InvalidInput} \<and>
    (32 \<le> length f \<longrightarrow> k = InvalidData)"
  using assms
  by (auto simp: sst_open_def seek_end_def TRAILER_SIZE_def read_exact_def)

lemma set_open_removes_temporary:
  assumes "disk_state (dir w) ess" and "env w = []" and "set_open data_dir bpk w = (Ok s, w')" and "extension n = Some (str ''tmp'')"
  shows "map_of (dir w') n = None"
proof -
  from assms(1) obtain ts bound where ts: "spans_ok bound ts" "dir_matches (dir w) ts" by (auto simp: disk_state_def)
  from set_open_calm [OF ts(2,1) assms(2), of data_dir bpk] assms(3) have "calm_step (- kept_names ts) w w'" by auto
  then show ?thesis using assms(4) by (simp add: calm_step_def kept_names_def restrict_map_def)
qed

text \<open>C8: opening a directory recovers the tables it stands for, whatever leftovers of interrupted
  flushes and compactions are in it: lookups give the newest value over all of them, a tombstone
  counting as absence. The directory is clean afterwards: it has the files of the tables of the set and those that
  are not of the set, with their contents; the temporary files and the tables that another one covers are gone.\<close>

theorem set_open_recovers:
  assumes "disk_state (dir w) ess" and "env w = []"
  shows "\<exists>s w'. set_open data_dir bpk w = (Ok s, w') \<and> set_inv s ess (dir w') \<and>
    (\<forall>k. set_get s k = Ok (live (newest ess k))) \<and>
    fst ` set (dir w') = path ` set (tables s) \<union>
      {n \<in> fst ` set (dir w). extension n \<notin> {Some (str ''sst''), Some (str ''tmp'')}} \<and>
    (\<forall>n. extension n \<notin> {Some (str ''sst''), Some (str ''tmp'')} \<longrightarrow> map_of (dir w') n = map_of (dir w) n)"
proof -
  obtain s w' where op: "set_open data_dir bpk w = (Ok s, w')" "set_inv s ess (dir w')"
    "\<forall>n. extension n \<notin> {Some (str ''sst''), Some (str ''tmp'')} \<longrightarrow> map_of (dir w') n = map_of (dir w) n"
    using disk_state_reopen [OF assms, of data_dir bpk] by blast
  have sst: "n \<in> fst ` set (dir w') \<longleftrightarrow> n \<in> path ` set (tables s)" if "extension n = Some (str ''sst'')" for n
  proof
    show "n \<in> path ` set (tables s)" if "n \<in> fst ` set (dir w')"
      using op(2) that \<open>extension n = Some (str ''sst'')\<close> by (auto simp: set_inv_def dir_clean_def)
    assume "n \<in> path ` set (tables s)"
    then obtain t where "n = path t" "stored (dir w') t" using op(2) by (auto simp: set_inv_def dir_clean_def)
    then show "n \<in> fst ` set (dir w')" by (metis stored_def map_of_some_key)
  qed
  have path: "extension n = Some (str ''sst'')" if "n \<in> path ` set (tables s)" for n
  proof -
    from that op(2) obtain t where "n = path t" "stored (dir w') t" by (auto simp: set_inv_def dir_clean_def)
    then show ?thesis by (metis stored_def extension_sst_name)
  qed
  have tmp: "n \<notin> fst ` set (dir w')" if "extension n = Some (str ''tmp'')" for n
    using set_open_removes_temporary [OF assms op(1) that] by (rule iffD1 [OF map_of_eq_None_iff])
  have other: "n \<in> fst ` set (dir w') \<longleftrightarrow> n \<in> fst ` set (dir w)"
    if "extension n \<notin> {Some (str ''sst''), Some (str ''tmp'')}" for n
    using op(3) that by (metis map_of_eq_None_iff)
  have names: "fst ` set (dir w') = path ` set (tables s) \<union>
      {n \<in> fst ` set (dir w). extension n \<notin> {Some (str ''sst''), Some (str ''tmp'')}}"
  proof (rule set_eqI)
    fix n
    show "n \<in> fst ` set (dir w') \<longleftrightarrow> n \<in> path ` set (tables s) \<union>
        {n \<in> fst ` set (dir w). extension n \<notin> {Some (str ''sst''), Some (str ''tmp'')}}"
      using sst [of n] path [of n] tmp [of n] other [of n] by (cases "extension n") auto
  qed
  have get: "\<forall>k. set_get s k = Ok (live (newest ess k))"
    using op(2) set_get_newest by (simp add: set_inv_def)
  show ?thesis
    by (rule exI [of _ s], rule exI [of _ w'], intro conjI, rule op(1), rule op(2), rule get, rule names, rule op(3))
qed

text \<open>C9: a flush of a memtable is atomic. Whatever the system does, opening the directory afterwards
  gives lookups either entirely without or entirely with the memtable's entries; when the flush
  succeeds, both the running set and the reopened one have them.\<close>

theorem set_write_atomic:
  assumes "set_inv s ess (dir w)" and "writable m" and "next_seq s + 1 < 2 ^ 64"
    and "set_write m s w = (r, s', w')"
  shows "\<exists>s2 w2. set_open data_dir bpk (calm w') = (Ok s2, w2) \<and>
    ((\<forall>k. set_get s2 k = set_get s k) \<or> (\<forall>k. set_get s2 k = Ok (live ((newest ess ++ map_of m) k)))) \<and>
    (r = Ok () \<longrightarrow> (\<forall>k. set_get s' k = Ok (live ((newest ess ++ map_of m) k)) \<and> set_get s2 k = set_get s' k)) \<and>
    (r \<noteq> Ok () \<longrightarrow> s' = s)"
proof -
  have s: "set_get s k = Ok (live (newest ess k))" for k
    using assms(1) set_get_newest by (simp add: set_inv_def)
  have reopen: "\<exists>s2 w2. set_open data_dir bpk (calm w') = (Ok s2, w2) \<and>
      (\<forall>k. set_get s2 k = Ok (live (newest ess' k)))" if "disk_state (dir w') ess'" for ess'
    using disk_state_reopen [of "calm w'" ess' data_dir bpk] that set_get_newest
    by (auto simp: set_inv_def)
  from set_write_effect [OF assms] show ?thesis
  proof (elim disjE conjE exE)
    assume "disk_state (dir w') ess" "s' = s"
    moreover fix st assume "r = Fail st"
    ultimately show ?thesis using reopen [of ess] s by auto
  next
    assume "disk_state (dir w') (ess @ [m])" "s' = s"
    moreover fix st assume "r = Fail st"
    ultimately show ?thesis using reopen [of "ess @ [m]"] by auto
  next
    assume ok: "set_inv s' (ess @ [m]) (dir w')" "r = Ok ()"
    then have "set_get s' k = Ok (live (newest (ess @ [m]) k))" for k
      using set_get_newest [of s' "ess @ [m]" k] by (simp add: set_inv_def)
    then show ?thesis
      using reopen [OF set_inv_disk_state [OF ok(1)]] ok(2) by auto
  qed
qed

text \<open>A table, and beside it what an interrupted flush has left of another one.\<close>

theorem set_open_recovers_witness:
  "\<exists>s1 w1 s2 w2. set_write [([1], Some [7])] empty_set (empty_dir []) = (Ok (), s1, w1) \<and>
     set_open [] 10 (w1\<lparr>dir := AList.update (tmp_name (5, 5)) [1, 2] (dir w1)\<rparr>) = (Ok s2, w2) \<and>
     set_get s2 [1] = Ok (Some [7]) \<and> set_get s2 [2] = Ok None \<and> tmp_name (5, 5) \<notin> fst ` set (dir w2)"
proof -
  obtain s1 w1 where op: "set_write [([1], Some [7])] empty_set (empty_dir []) = (Ok (), s1, w1)"
    "set_inv s1 [[([1], Some [7])]] (dir w1)" "env w1 = []"
    using set_write_ok [OF empty_set_inv [of "[]"] _ small_demo(1)] small_demo(2) by auto
  let ?n = "tmp_name (5, 5)"
  let ?w = "w1\<lparr>dir := AList.update ?n [1, 2] (dir w1)\<rparr>"
  have "same_except ?n w1 ?w" by (rule same_except_update) simp_all
  moreover have "extension ?n \<noteq> Some (str ''sst'')" using extension_tmp_name [of "(5, 5)"] by simp
  ultimately have "disk_state (dir ?w) [[([1], Some [7])]]"
    using same_except_disk_state set_inv_disk_state [OF op(2)] by blast
  moreover have "env ?w = []" using op(3) by simp
  ultimately have rec: "\<exists>s2 w2. set_open [] 10 ?w = (Ok s2, w2) \<and> set_inv s2 [[([1], Some [7])]] (dir w2) \<and>
    (\<forall>k. set_get s2 k = Ok (live (newest [[([1], Some [7])]] k))) \<and>
    fst ` set (dir w2) = path ` set (tables s2) \<union>
      {n \<in> fst ` set (dir ?w). extension n \<notin> {Some (str ''sst''), Some (str ''tmp'')}} \<and>
    (\<forall>n. extension n \<notin> {Some (str ''sst''), Some (str ''tmp'')} \<longrightarrow> map_of (dir w2) n = map_of (dir ?w) n)"
    by (rule set_open_recovers)
  from rec obtain s2 w2 where s2: "set_open [] 10 ?w = (Ok s2, w2)"
    "set_inv s2 [[([1], Some [7])]] (dir w2)" "\<forall>k. set_get s2 k = Ok (live (newest [[([1], Some [7])]] k))"
    "fst ` set (dir w2) = path ` set (tables s2) \<union>
      {n \<in> fst ` set (dir ?w). extension n \<notin> {Some (str ''sst''), Some (str ''tmp'')}}"
    by (elim exE conjE) (rule that; assumption)
  have "?n \<notin> path ` set (tables s2)"
  proof
    assume "?n \<in> path ` set (tables s2)"
    then obtain t where "?n = path t" "stored (dir w2) t" using s2(2) by (auto simp: set_inv_def dir_clean_def)
    then have "extension ?n = Some (str ''sst'')" by (metis stored_def extension_sst_name)
    then show False using extension_tmp_name [of "(5, 5)"] by simp
  qed
  then have "?n \<notin> fst ` set (dir w2)" using s2(4) extension_tmp_name [of "(5, 5)"] by simp
  then show ?thesis using op(1) s2(1,3) by auto
qed

theorem set_write_atomic_witness:
  "\<exists>s1 w1 r s' w' s2 w2. set_write [([1], Some [7])] empty_set (empty_dir []) = (Ok (), s1, w1) \<and>
     set_write [([1], None)] s1 (w1\<lparr>env := [Done, Kill 20]\<rparr>) = (r, s', w') \<and>
     set_open [] 10 (calm w') = (Ok s2, w2) \<and>
     (set_get s2 [1] = Ok (Some [7]) \<or> set_get s2 [1] = Ok None)"
proof -
  obtain s1 w1 where op: "set_write [([1], Some [7])] empty_set (empty_dir []) = (Ok (), s1, w1)"
    "set_inv s1 [[([1], Some [7])]] (dir w1)" "next_seq s1 = 1"
    using set_write_ok [OF empty_set_inv [of "[]"] _ small_demo(1)] small_demo(2) by auto
  obtain r s' w' where op2: "set_write [([1], None)] s1 (w1\<lparr>env := [Done, Kill 20]\<rparr>) = (r, s', w')"
    by (metis prod_cases3)
  have "set_inv s1 [[([1], Some [7])]] (dir (w1\<lparr>env := [Done, Kill 20]\<rparr>))" using op(2) by simp
  from set_write_atomic [OF this small_demo(3) _ op2, of "[]" 10] op(3)
  obtain s2 w2 where s2: "set_open [] 10 (calm w') = (Ok s2, w2)"
    "(\<forall>k. set_get s2 k = set_get s1 k) \<or>
     (\<forall>k. set_get s2 k = Ok (live ((newest [[([1], Some [7])]] ++ map_of [([1], None)]) k)))" by auto
  moreover have "set_get s1 [1] = Ok (Some [7])"
    using op(2) set_get_newest [of s1 "[[([1], Some [7])]]" "[1]"] by (simp add: set_inv_def)
  ultimately show ?thesis using op(1) op2 by auto
qed

end
