(* ===== verification/Compaction.thy ===== *)
theory Compaction
  imports Set_Refine
begin

text \<open>
  Compaction keeps what every reader sees, at every point at which it can stop: merging, publishing
  the merged table over its inputs, and unlinking the inputs oldest first. Then the choice of a run.
\<close>

section \<open>Unlinking the inputs\<close>

definition unlinked :: "sstable list \<Rightarrow> directory \<Rightarrow> directory" where
  "unlinked ts d = fold (\<lambda>t. AList.delete (path t)) ts d"

lemma unlinked_simps [simp]:
  "unlinked [] d = d" "unlinked (t # ts) d = unlinked ts (AList.delete (path t) d)"
  by (simp_all add: unlinked_def)

lemma map_of_unlinked:
  "map_of (unlinked ts d) n = (if n \<in> path ` set ts then None else map_of d n)"
  by (induction ts arbitrary: d) (auto simp: delete_conv')

lemma distinct_unlinked: "distinct (map fst d) \<Longrightarrow> distinct (map fst (unlinked ts d))"
  by (induction ts arbitrary: d) (simp_all add: distinct_delete)

text \<open>The files go in the order of the list; an error stops after some of them.\<close>

lemma remove_files_effect:
  assumes "remove_files run w = (r, w')" and "distinct (map path run)"
    and "\<forall>t \<in> set run. map_of (dir w) (path t) \<noteq> None"
  shows "\<exists>j \<le> length run. dir w' = unlinked (take j run) (dir w) \<and> root w' = root w \<and>
    (r = Ok () \<and> j = length run \<or> (\<exists>st. r = Fail st))"
  using assms
proof (induction run arbitrary: w)
  case Nil
  then show ?case by simp
next
  case (Cons t run)
  obtain q w1 where q: "sys_remove (path t) w = (q, w1)" by force
  have "map_of (dir w) (path t) \<noteq> None" using Cons.prems(3) by simp
  with q show ?case
  proof (cases rule: sys_remove_effect)
    case removed
    then have "remove_files run w1 = (r, w')"
      using Cons.prems(1) q by (simp add: io_bind_def)
    moreover have "\<forall>u \<in> set run. map_of (dir w1) (path u) \<noteq> None"
      using Cons.prems(2,3) removed(2) by (auto simp: delete_conv' image_iff)
    ultimately obtain j where "j \<le> length run" "dir w' = unlinked (take j run) (dir w1)"
      "root w' = root w1" "r = Ok () \<and> j = length run \<or> (\<exists>st. r = Fail st)"
      using Cons.IH [of w1] Cons.prems(2) by auto
    then show ?thesis using removed by (intro exI [of _ "Suc j"]) auto
  next
    case (failed st)
    then show ?thesis
      using Cons.prems(1) q by (intro exI [of _ 0]) (auto simp: io_bind_def)
  qed
qed

lemma dir_matches_unlinked:
  "dir_matches d us \<Longrightarrow> \<forall>t \<in> set xs. path t \<notin> path ` set us \<Longrightarrow> dir_matches (unlinked xs d) us"
  by (induction xs arbitrary: d) (simp_all add: dir_matches_delete)

section \<open>What readers see\<close>

definition live_eq :: "entry list list \<Rightarrow> entry list list \<Rightarrow> bool" where
  "live_eq ess ess' \<longleftrightarrow> (\<forall>k. live (newest ess k) = live (newest ess' k))"

lemma live_eq_refl [simp]: "live_eq ess ess"
  by (simp add: live_eq_def)

lemma live_eq_merged:
  assumes "\<forall>k. map_of M k = visible (pre = []) (newest run k)"
  shows "live_eq (pre @ M # post) (pre @ run @ post)"
  using assms by (auto simp: live_eq_def map_add_def visible_def live_def split: option.split)

text \<open>A run that merges to nothing can lose any number of its oldest tables.\<close>

lemma live_eq_suffix:
  assumes "\<forall>k. visible True (newest run k) = None"
  shows "live_eq (drop j run @ post) (run @ post)"
  unfolding live_eq_def
proof
  fix k
  have "newest run = newest (take j run) ++ newest (drop j run)"
    by (metis append_take_drop_id newest_append)
  then have "newest (drop j run) k = Some v \<Longrightarrow> newest run k = Some v" for v by simp
  then show "live (newest (drop j run @ post) k) = live (newest (run @ post) k)"
    using assms [THEN spec, of k]
    by (cases "newest (drop j run) k"; cases "newest run k")
      (auto simp: map_add_def visible_def live_def split: option.splits if_splits)
qed

lemma wf_run_visible:
  assumes "list_all2 wf_table ts run" and "run \<noteq> []"
  shows "\<exists>k. newest run k \<noteq> None"
proof -
  obtain es where es: "es \<in> set run" using assms(2) by (meson list.set_sel(1))
  then have "es \<noteq> []" using wf_tables_entries [OF assms(1)] by (auto simp: wf_table_def)
  then have "fst (hd es) \<in> fst ` set es" by simp
  then show ?thesis using es newest_None_iff by blast
qed

section \<open>A compaction, whatever the system does\<close>

text \<open>Facts about a run inside the tables of a set.\<close>

lemma run_span:
  assumes ok: "spans_ok bound (pre @ run @ post)" and two: "2 \<le> length run"
    and t: "span_of t = (first_seq (hd run), last_seq (last run))"
  shows "\<forall>u \<in> set run. strictly_within (span_of u) (span_of t)"
    and "spans_ok bound (pre @ [t] @ post)"
proof -
  obtain a run' where a: "run = a # run'" using two by (cases run) auto
  then have "run' \<noteq> []" using two by auto
  then obtain mid b where b: "run' = mid @ [b]" by (metis rev_exhaust)
  have run: "run = a # mid @ [b]" using a b by simp
  have hb: "hd run = a" "last run = b" using run by simp_all
  have sep: "sorted_wrt (\<lambda>t u. last_seq t < first_seq u) run"
    and le: "\<forall>u \<in> set run. first_seq u \<le> last_seq u"
    using ok by (auto simp: spans_ok_def sorted_wrt_append)
  have bounds: "first_seq a \<le> first_seq u \<and> last_seq u \<le> last_seq b" if "u \<in> set run" for u
    using sep le that by (force simp: run sorted_wrt_append)
  have ab: "last_seq a < first_seq b" using sep by (simp add: run sorted_wrt_append)
  show "\<forall>u \<in> set run. strictly_within (span_of u) (span_of t)"
  proof
    fix u assume u: "u \<in> set run"
    have "\<not> (first_seq u = first_seq a \<and> last_seq u = last_seq b)"
    proof
      assume eq: "first_seq u = first_seq a \<and> last_seq u = last_seq b"
      have "u \<noteq> a" using eq ab le by (auto simp: run)
      then have "last_seq a < first_seq u" using u sep by (auto simp: run)
      then show False using eq le by (auto simp: run)
    qed
    then show "strictly_within (span_of u) (span_of t)"
      using bounds [OF u] t hb by (auto simp: strictly_within_def span_within_def span_of_def)
  qed
  have "first_seq t = first_seq a" "last_seq t = last_seq b"
    using t hb by (simp_all add: span_of_def)
  then show "spans_ok bound (pre @ [t] @ post)"
    using ok ab le by (auto simp: spans_ok_def sorted_wrt_append run)
qed

lemma dir_clean_unlinked:
  assumes clean: "dir_clean d (xs @ ts)" and dist: "distinct (map path (xs @ ts))"
  shows "dir_clean (unlinked xs d) ts"
  unfolding dir_clean_def
proof (intro conjI ballI impI)
  show "distinct (map fst (unlinked xs d))"
    using clean by (simp add: dir_clean_def distinct_unlinked)
  show "stored (unlinked xs d) t" if "t \<in> set ts" for t
  proof -
    have "path t \<notin> path ` set xs" using dist that by auto
    then have "map_of (unlinked xs d) (path t) = map_of d (path t)" by (simp add: map_of_unlinked)
    moreover have "stored d t" using clean that by (simp add: dir_clean_def)
    ultimately show ?thesis using stored_cong by blast
  qed
  fix n assume "n \<in> fst ` set (unlinked xs d)" and ext: "extension n = Some (str ''sst'')"
  then have "map_of (unlinked xs d) n \<noteq> None" by (simp only: map_of_eq_None_iff not_not)
  then have "n \<notin> path ` set xs" "map_of d n \<noteq> None"
    by (auto simp: map_of_unlinked split: if_splits)
  then show "n \<in> path ` set ts"
    using clean ext by (auto simp: dir_clean_def dest: map_of_some_key)
qed

text \<open>The merged table has a file of its own.\<close>

lemma run_new_path:
  assumes ok: "spans_ok bound (pre @ run @ post)" and two: "2 \<le> length run"
    and all: "\<forall>u \<in> set (pre @ run @ post). stored d u"
    and t: "span_of t = (first_seq (hd run), last_seq (last run))" "stored d' t"
    and u: "u \<in> set (pre @ run @ post)"
  shows "path u \<noteq> path t"
proof
  note within = run_span(1) [OF ok two t(1)] and ok' = run_span(2) [OF ok two t(1)]
  assume eq: "path u = path t"
  have rt: "fst (span_of t) < 2 ^ 64 \<and> snd (span_of t) < 2 ^ 64"
    using spans_ok_range(1,2) [OF ok', of t] by simp
  have su: "span_of u = span_of t"
    using sst_name_inject [of "span_of u" "span_of t"] all u t(2) spans_ok_range [OF ok u] rt eq
    by (auto simp: stored_def)
  show False
  proof (cases "u \<in> set run")
    case True
    then show False using within su by (simp add: strictly_within_def)
  next
    case False
    then show False using u ok' su by (auto simp: spans_ok_def span_of_def sorted_wrt_append)
  qed
qed

text \<open>The published case: the merged table is there, its inputs are being unlinked.\<close>

lemma publish_run:
  assumes ok: "spans_ok bound (pre @ run @ post)" and two: "2 \<le> length run"
    and clean: "dir_clean d (pre @ run @ post)"
    and t: "span_of t = (first_seq (hd run), last_seq (last run))" "stored d' t"
    and d': "map_of d' = (map_of d)(tmp_name (span_of t) := None, sst_name (span_of t) \<mapsto> file_data t)"
      "distinct (map fst d')"
  shows "dir_matches (unlinked (take j run) d') (pre @ [t] @ post)"
    and "dir_clean (unlinked run d') (pre @ [t] @ post)"
proof -
  note within = run_span(1) [OF ok two t(1)] and ok' = run_span(2) [OF ok two t(1)]
  have all: "\<forall>u \<in> set (pre @ run @ post). stored d u" using clean by (simp add: dir_clean_def)
  note dist = spans_ok_paths [OF ok all]
  have range: "\<forall>u \<in> set (pre @ run @ post). fst (span_of u) < 2 ^ 64 \<and> snd (span_of u) < 2 ^ 64"
    using spans_ok_range [OF ok] by blast
  note ne = run_new_path [OF ok two all t]
  have m: "dir_matches d' (pre @ [t] @ post)"
    using within ne range
    by (intro dir_matches_publish [OF clean d' t(2)]) auto
  have out: "path u \<notin> path ` set (pre @ [t] @ post)" if "u \<in> set run" for u
    using that dist ne by auto
  then show "dir_matches (unlinked (take j run) d') (pre @ [t] @ post)"
    using m by (intro dir_matches_unlinked) (auto dest: in_set_takeD)
  have m': "dir_matches (unlinked run d') (pre @ [t] @ post)"
    using m out by (intro dir_matches_unlinked) auto
  have "n \<in> path ` set (pre @ [t] @ post)"
    if n: "n \<in> fst ` set (unlinked run d')" "extension n = Some (str ''sst'')" for n
  proof -
    have "map_of (unlinked run d') n \<noteq> None" using n(1) by (simp only: map_of_eq_None_iff not_not)
    then have "n \<notin> path ` set run" "n \<in> fst ` set d'"
      by (auto simp: map_of_unlinked split: if_splits dest: map_of_some_key)
    then show ?thesis
      using publish_names [OF clean d'(1) _ n(2)] t(2) by (auto simp: stored_def)
  qed
  then show "dir_clean (unlinked run d') (pre @ [t] @ post)"
    using m' unfolding dir_clean_def dir_matches_def by blast
qed

text \<open>Before anything is published.\<close>

lemma compact_prepare_effect:
  assumes inv: "set_inv s ess (dir w)"
    and split: "tables s = pre @ run @ post" "ess = epre @ erun @ epost"
      "length epre = length pre" "length erun = length run"
    and op: "compact_prepare s (length pre) (length run) w = (q, w1)"
  shows "(\<exists>st. q = Fail st) \<and> disk_state (dir w1) ess \<or>
    2 \<le> length run \<and> (\<exists>M. merge run (pre = []) = Ok M \<and>
      (\<forall>k. map_of M k = visible (pre = []) (newest erun k)) \<and>
      (M = [] \<and> q = Ok None \<and> w1 = w \<or>
       M \<noteq> [] \<and> (\<exists>t. (q = Ok (Some t) \<or> (\<exists>st. q = Fail st)) \<and> wf_table t M \<and>
         span_of t = (first_seq (hd run), last_seq (last run)) \<and> stored (dir w1) t \<and>
         map_of (dir w1) = (map_of (dir w))(tmp_name (span_of t) := None,
           sst_name (span_of t) \<mapsto> file_data t) \<and>
         distinct (map fst (dir w1)))))"
proof -
  from inv have ts: "list_all2 wf_table (tables s) ess" "spans_ok (next_seq s) (tables s)"
    "dir_clean (dir w) (tables s)" by (simp_all add: set_inv_def)
  have state: "disk_state (dir w) ess" by (rule set_inv_disk_state [OF inv])
  show ?thesis
  proof (cases "2 \<le> length run")
    case False
    then show ?thesis using op state by (auto simp: compact_prepare_def)
  next
    case two: True
    have sub: "list_all2 wf_table run erun"
      using ts(1) split by (simp add: list_all2_append)
    let ?span = "(first_seq (hd run), last_seq (last run))"
    obtain M where M: "merge run (pre = []) = Ok M" "key_sorted M"
      "\<forall>k. map_of M k = visible (pre = []) (newest erun k)"
      using merge_wf [OF sub] by blast
    have run: "take (length run) (drop (length pre) (tables s)) = run"
      using split(1) by simp
    have op': "(q, w1) = (if M = [] then (Ok None, w)
        else io_bind (write_table s ?span (length M) M) (\<lambda>t. io_lift (Ok (Some t))) w)"
      using op two M(1) run split(1) by (simp add: compact_prepare_def io_bind_def Let_def split: if_splits)
    show ?thesis
    proof (cases "M = []")
      case True
      then show ?thesis using op' two M by auto
    next
      case False
      obtain q' w2 where wt: "write_table s ?span (length M) M w = (q', w2)" by force
      have fits: "\<forall>e \<in> set M. entry_fits e" using merge_entry_fits [OF sub M(1)] by blast
      from wt show ?thesis
      proof (cases rule: write_table_effect)
        case (unpublished st)
        then have "disk_state (dir w2) ess"
          using same_except_clean [OF unpublished(2) tmp_name_not_table ts(3)] ts dir_clean_matches
          unfolding disk_state_def by blast
        then show ?thesis using op' False wt unpublished by (simp add: io_bind_def)
      next
        case (published t)
        note t = built_table [OF published(1,2) False M(2) fits]
        have "stored (dir w2) t" using published(3) by (intro t(3)) simp
        moreover have "distinct (map fst (dir w2))"
          using published(5) ts(3) by (simp add: dir_clean_def)
        moreover have "w1 = w2" "q = Ok (Some t) \<or> (\<exists>st. q = Fail st)"
          using op' False wt published(6) by (auto simp: io_bind_def)
        moreover have "map_of (dir w2) = (map_of (dir w))
            (tmp_name (span_of t) := None, sst_name (span_of t) \<mapsto> file_data t)"
          using published(3) t(2) by simp
        moreover note t(1,2) M two False
        ultimately show ?thesis by blast
      qed
    qed
  qed
qed

text \<open>
  The whole operation. \<open>ess_d\<close> is what the directory stands for when it ends, \<open>ess_m\<close> what the set
  in memory has: readers see the same in both as before. A compaction that succeeds leaves set and
  directory in agreement, with fewer tables.
\<close>

lemma take_run:
  "start + count \<le> length xs \<Longrightarrow>
     xs = take start xs @ take count (drop start xs) @ drop (start + count) xs"
  by (metis append_take_drop_id drop_drop add.commute)

lemma compact_effect:
  assumes inv: "set_inv s ess (dir w)" and op: "compact start count s w = (r, s', w')"
  shows "\<exists>ess_d ess_m. disk_state (dir w') ess_d \<and> live_eq ess_d ess \<and>
    list_all2 wf_table (tables s') ess_m \<and> spans_ok (next_seq s') (tables s') \<and> live_eq ess_m ess \<and>
    (r = Ok () \<longrightarrow> set_inv s' ess_m (dir w') \<and> length (tables s') < length (tables s))"
proof (cases "2 \<le> count \<and> start + count \<le> length (tables s)")
  case False
  then have "r = Fail Panic" "s' = s" "w' = w"
    using op by (auto simp: compact_def compact_prepare_def split: if_splits)
  then show ?thesis
    using set_inv_disk_state [OF inv] inv by (auto simp: set_inv_def intro!: exI [of _ ess])
next
  case True
  define pre run post where "pre = take start (tables s)" and
    "run = take count (drop start (tables s))" and "post = drop (start + count) (tables s)"
  define epre erun epost where "epre = take start ess" and
    "erun = take count (drop start ess)" and "epost = drop (start + count) ess"
  from inv have ts: "list_all2 wf_table (tables s) ess" "spans_ok (next_seq s) (tables s)"
    "dir_clean (dir w) (tables s)" by (simp_all add: set_inv_def)
  have len: "length ess = length (tables s)" using ts(1) by (simp add: list_all2_lengthD)
  have split: "tables s = pre @ run @ post" "ess = epre @ erun @ epost"
    "length epre = length pre" "length erun = length run" "length pre = start" "length run = count"
    unfolding pre_def run_def post_def epre_def erun_def epost_def
    using True len take_run [of start count "tables s"] take_run [of start count ess] by auto
  have parts: "list_all2 wf_table pre epre" "list_all2 wf_table run erun" "list_all2 wf_table post epost"
    using ts(1) split by (simp_all add: list_all2_append)
  have clean: "dir_clean (dir w) (pre @ run @ post)" and ok: "spans_ok (next_seq s) (pre @ run @ post)"
    using ts split(1) by simp_all
  have stored: "\<forall>u \<in> set (pre @ run @ post). stored (dir w) u" using clean by (simp add: dir_clean_def)
  note dist = spans_ok_paths [OF ok stored]
  obtain q w1 where prep: "compact_prepare s start count w = (q, w1)" by force
  then have prep': "compact_prepare s (length pre) (length run) w = (q, w1)" using split by simp
  have rest: "(r, s', w') = (case q of Fail e \<Rightarrow> (Fail e, s, w1)
      | Ok rep \<Rightarrow> (case remove_files run w1 of (r, w2) \<Rightarrow>
          (r, s\<lparr>tables := splice start count rep (tables s)\<rparr>, w2)))"
    using op prep by (auto simp: compact_def compact_publish_def replace_tables_def run_def Let_def
        split: res.splits prod.splits)
  have spliced: "splice start count rep (tables s) = pre @ option_list rep @ post" for rep
    by (simp add: splice_def pre_def post_def)
  from compact_prepare_effect [OF inv split(1-4) prep'] show ?thesis
  proof (elim disjE conjE exE)
    fix st assume "q = Fail st" "disk_state (dir w1) ess"
    then show ?thesis using rest ts by (auto intro!: exI [of _ ess])
  next
    fix M assume two: "2 \<le> length run" and M: "merge run (pre = []) = Ok M"
      "\<forall>k. map_of M k = visible (pre = []) (newest erun k)" "M = []" "q = Ok None" "w1 = w"
    have "erun \<noteq> []" using two split by auto
    then obtain k where "newest erun k \<noteq> None" using wf_run_visible [OF parts(2)] by blast
    then have pre: "pre = []" using M(2,3) by (cases "pre = []") (auto simp: visible_def)
    then have none: "epre = []" "\<forall>k. visible True (newest erun k) = None" using split(3) M(2,3) by auto
    have live: "live_eq (drop j erun @ epost) ess" for j
      using live_eq_suffix [OF none(2)] split(2) none(1) by simp
    obtain w2 where rm: "remove_files run w1 = (r, w2)" and res: "w' = w2"
      "s' = s\<lparr>tables := post\<rparr>"
      using rest M(4) pre spliced [of None] by (auto simp: option_list_def split: prod.splits)
    obtain j where j: "j \<le> length run" "dir w' = unlinked (take j run) (dir w)"
      "r = Ok () \<and> j = length run \<or> (\<exists>st. r = Fail st)"
      using remove_files_effect [OF rm] dist stored stored_present M(5) res by auto
    have run: "run = take j run @ drop j run" by simp
    have c: "dir_clean (dir w') (drop j run @ post)"
      unfolding j(2) using clean dist pre
      by (intro dir_clean_unlinked) (metis append.assoc append_Nil append_take_drop_id)+
    have okj: "spans_ok (next_seq s) (drop j run @ post)" "spans_ok (next_seq s) post"
      using ok pre run by (metis append.assoc append_Nil spans_ok_append)+
    have wfj: "list_all2 wf_table (drop j run @ post) (drop j erun @ epost)"
      using parts by (simp add: list_all2_appendI list_all2_dropI)
    have "disk_state (dir w') (drop j erun @ epost)"
      using wfj okj(1) dir_clean_matches [OF c] unfolding disk_state_def by blast
    moreover have "set_inv s' epost (dir w')" if "r = Ok ()"
      using that j(3) c parts(3) okj(2) res by (auto simp: set_inv_def)
    moreover have "live_eq epost ess" using live [of "length run"] split(4) by simp
    moreover have "length post < length (tables s)" using split(1) two by (cases run) auto
    ultimately show ?thesis
      using live [of j] parts(3) okj(2) res
      by (intro exI [of _ "drop j erun @ epost"] exI [of _ epost]) simp
  next
    fix M t
    let ?ess = "epre @ M # epost"
    assume two: "2 \<le> length run" and M: "merge run (pre = []) = Ok M"
      "\<forall>k. map_of M k = visible (pre = []) (newest erun k)" "M \<noteq> []"
      and t: "wf_table t M" "span_of t = (first_seq (hd run), last_seq (last run))"
      "stored (dir w1) t"
      and d: "map_of (dir w1) = (map_of (dir w))(tmp_name (span_of t) := None,
        sst_name (span_of t) \<mapsto> file_data t)" "distinct (map fst (dir w1))"
    note pub = publish_run [OF ok two clean t(2,3) d]
    have "epre = [] \<longleftrightarrow> pre = []" using split(3) by auto
    then have live: "live_eq ?ess ess" using live_eq_merged [of M epre erun epost] M(2) split(2) by simp
    have okt: "spans_ok (next_seq s) (pre @ [t] @ post)" by (rule run_span(2) [OF ok two t(2)])
    have wft: "list_all2 wf_table (pre @ [t] @ post) ?ess"
      using parts t(1) by (simp add: list_all2_appendI)
    have state: "disk_state (unlinked (take j run) (dir w1)) ?ess" for j
      using wft okt pub(1) unfolding disk_state_def by blast
    {
      assume "q = Ok (Some t)"
      then obtain w2 where rm: "remove_files run w1 = (r, w2)" and res: "w' = w2"
        "s' = s\<lparr>tables := pre @ [t] @ post\<rparr>"
        using rest spliced [of "Some t"] by (auto simp: option_list_def split: prod.splits)
      have present: "\<forall>u \<in> set run. map_of (dir w1) (path u) \<noteq> None"
      proof
        fix u assume "u \<in> set run"
        then have "stored (dir w) u" using stored by simp
        from stored_present [OF this, of "span_of t"] show "map_of (dir w1) (path u) \<noteq> None"
          using d(1) by simp
      qed
      obtain j where j: "j \<le> length run" "dir w' = unlinked (take j run) (dir w1)"
        "r = Ok () \<and> j = length run \<or> (\<exists>st. r = Fail st)"
        using remove_files_effect [OF rm _ present] dist res by auto
      have "set_inv s' ?ess (dir w')" if "r = Ok ()"
        using that j(2,3) wft okt pub(2) res by (auto simp: set_inv_def)
      moreover have "length (pre @ [t] @ post) < length (tables s)" using split(1) two by (cases run) auto
      ultimately show ?thesis
        using state [of j] j(2) live wft okt res
        by (intro exI [of _ ?ess]) simp
    next
      fix st assume "q = Fail st"
      then show ?thesis
        using rest state [of 0] live ts
        by (intro exI [of _ ?ess] exI [of _ ess]) simp
    }
  qed
qed

section \<open>What a compaction leaves alone\<close>

lemma remove_files_others:
  assumes "remove_files run w = (r, w')" and "\<forall>t \<in> set run. extension (path t) = Some (str ''sst'')"
  shows "others_same w w'"
  using assms
proof (induction run arbitrary: w)
  case Nil
  then show ?case by simp
next
  case (Cons t run)
  obtain q w1 where q: "sys_remove (path t) w = (q, w1)" by force
  have ext: "extension (path t) = Some (str ''sst'')" using Cons.prems(2) by simp
  have "others_same w w1"
  proof (cases "map_of (dir w) (path t) = None")
    case True
    then show ?thesis using q by (auto simp: sys_remove_def on_existing_def)
  next
    case False
    with q show ?thesis
      by (cases rule: sys_remove_effect) (use ext in \<open>auto simp: others_same_def delete_conv'\<close>)
  qed
  moreover have "others_same w1 w'" if "q = Ok u" for u
    using Cons that q by (simp add: io_bind_def)
  moreover have "w' = w1" if "q = Fail st" for st
    using Cons.prems(1) that q by (simp add: io_bind_def)
  ultimately show ?case by (cases q) (auto intro: others_same_trans)
qed

lemma compact_others:
  assumes inv: "set_inv s ess (dir w)" and op: "compact start count s w = (r, s', w')"
  shows "others_same w w'" and "next_seq s' = next_seq s" and "set_dir s' = set_dir s"
    and "bits_per_key s' = bits_per_key s"
proof -
  obtain q w1 where prep: "compact_prepare s start count w = (q, w1)" by force
  have w1: "others_same w w1"
    using prep by (auto simp: compact_prepare_def Let_def io_bind_eq split: if_splits
        dest: write_table_others)
  have ext: "\<forall>t \<in> set (take count (drop start (tables s))). extension (path t) = Some (str ''sst'')"
  proof
    fix t assume "t \<in> set (take count (drop start (tables s)))"
    then have "stored (dir w) t"
      using inv by (auto simp: set_inv_def dir_clean_def dest!: in_set_takeD in_set_dropD)
    then show "extension (path t) = Some (str ''sst'')"
      by (metis extension_sst_name stored_def)
  qed
  show "next_seq s' = next_seq s" "set_dir s' = set_dir s" "bits_per_key s' = bits_per_key s"
    using op prep by (auto simp: compact_def compact_publish_def replace_tables_def Let_def
        split: res.splits prod.splits)
  show "others_same w w'"
  proof (cases q)
    case (Ok rep)
    then show ?thesis
      using op prep others_same_trans [OF w1 remove_files_others [OF _ ext]]
      by (auto simp: compact_def compact_publish_def Let_def split: prod.splits)
  next
    case (Fail st)
    then show ?thesis using op prep w1 by (simp add: compact_def)
  qed
qed

section \<open>A compaction without faults\<close>

lemma remove_files_calm:
  assumes "env w = []" and "distinct (map path run)" and "\<forall>t \<in> set run. map_of (dir w) (path t) \<noteq> None"
  shows "\<exists>w'. remove_files run w = (Ok (), w') \<and> env w' = []"
  using assms
proof (induction run arbitrary: w)
  case Nil
  then show ?case by simp
next
  case (Cons t run)
  let ?w = "w\<lparr>dir := AList.delete (path t) (dir w), disk := sh_names (AList.delete (path t)) (disk w)\<rparr>"
  have "\<exists>w'. remove_files run ?w = (Ok (), w') \<and> env w' = []"
    using Cons.prems by (intro Cons.IH) (auto simp: delete_conv' image_iff)
  moreover have "sys_remove (path t) w = (Ok (), ?w)"
    using Cons.prems by (intro sys_calm(6)) auto
  ultimately show ?case by (simp add: io_bind_def)
qed

lemma remove_files_gone:
  assumes "remove_files run w = (Ok u, w')"
  shows "\<forall>t \<in> set run. map_of (dir w') (path t) = None" and "map_of (dir w) n = None \<Longrightarrow> map_of (dir w') n = None"
proof -
  have "(\<forall>t \<in> set run. map_of (dir w') (path t) = None) \<and> (\<forall>n. map_of (dir w) n = None \<longrightarrow> map_of (dir w') n = None)"
    using assms
  proof (induction run arbitrary: w)
    case (Cons t run)
    then obtain v w1 where a: "sys_remove (path t) w = (Ok v, w1)" "remove_files run w1 = (Ok u, w')"
      by (auto simp: io_bind_eq)
    then have "map_of (dir w) (path t) \<noteq> None" by (auto simp: sys_remove_def on_existing_def split: if_splits)
    with a(1) have "dir w1 = AList.delete (path t) (dir w)" by (cases rule: sys_remove_effect) auto
    then show ?case using Cons.IH [OF a(2)] by (auto simp: delete_conv')
  qed simp
  then show "\<forall>t \<in> set run. map_of (dir w') (path t) = None" "map_of (dir w) n = None \<Longrightarrow> map_of (dir w') n = None" by blast+
qed

lemma compact_calm:
  assumes inv: "set_inv s ess (dir w)" and calm: "env w = []"
    and run: "2 \<le> count" "start + count \<le> length (tables s)"
    and small: "\<And>M. merge (take count (drop start (tables s))) (start = 0) = Ok M \<Longrightarrow>
      small_table (bits_per_key s) M"
  shows "\<exists>s' w'. compact start count s w = (Ok (), s', w')"
proof -
  let ?run = "take count (drop start (tables s))"
  let ?span = "(first_seq (hd ?run), last_seq (last ?run))"
  from inv have ts: "list_all2 wf_table (tables s) ess" "spans_ok (next_seq s) (tables s)"
    "dir_clean (dir w) (tables s)" by (simp_all add: set_inv_def)
  have stored: "\<forall>t \<in> set (tables s). stored (dir w) t" using ts(3) by (simp add: dir_clean_def)
  have sub: "set ?run \<subseteq> set (tables s)" by (meson set_drop_subset set_take_subset subset_trans)
  have dist: "distinct (map path ?run)"
    using spans_ok_paths [OF ts(2) stored] by (simp add: distinct_drop distinct_take flip: take_map drop_map)
  have "list_all2 wf_table ?run (take count (drop start ess))"
    using ts(1) by (intro list_all2_takeI list_all2_dropI)
  then obtain M where M: "merge ?run (start = 0) = Ok M" using merge_wf by blast
  have "\<exists>rep w1. compact_prepare s start count w = (Ok rep, w1) \<and> env w1 = [] \<and>
      (\<forall>n. map_of (dir w) n \<noteq> None \<longrightarrow> extension n = Some (str ''sst'') \<longrightarrow> map_of (dir w1) n \<noteq> None)"
  proof (cases "M = []")
    case True
    then show ?thesis using M run calm by (auto simp: compact_prepare_def io_bind_def Let_def)
  next
    case False
    then obtain t where t: "build_table ?span (length M) (bits_per_key s) M = Ok t"
      "length (file_data t) \<le> MAX_FILE_SIZE"
      using small_table_built [OF small [OF M]] by blast
    from write_table_calm [OF calm t] obtain w1 where
      w1: "write_table s ?span (length M) M w = (Ok t, w1)" "env w1 = []" by blast
    from w1(1) have "map_of (dir w1) n \<noteq> None"
      if "map_of (dir w) n \<noteq> None" "extension n = Some (str ''sst'')" for n
    proof (cases rule: write_table_effect)
      case (published u)
      then show ?thesis
        using that extension_tmp_name [of ?span] by (cases "n = tmp_name ?span") auto
    qed simp
    then show ?thesis using w1 M False run by (auto simp: compact_prepare_def io_bind_def Let_def)
  qed
  then obtain rep w1 where p: "compact_prepare s start count w = (Ok rep, w1)" "env w1 = []"
    "\<forall>n. map_of (dir w) n \<noteq> None \<longrightarrow> extension n = Some (str ''sst'') \<longrightarrow> map_of (dir w1) n \<noteq> None"
    by blast
  have "\<forall>t \<in> set ?run. map_of (dir w1) (path t) \<noteq> None"
  proof
    fix t assume "t \<in> set ?run"
    then have "stored (dir w) t" using sub stored by blast
    then have "map_of (dir w) (path t) \<noteq> None" "extension (path t) = Some (str ''sst'')"
      using stored_present extension_sst_name by (metis option.distinct(1) stored_def)+
    then show "map_of (dir w1) (path t) \<noteq> None" using p(3) by blast
  qed
  from remove_files_calm [OF p(2) dist this] show ?thesis
    using p(1) by (auto simp: compact_def compact_publish_def Let_def)
qed

section \<open>Properties\<close>

text \<open>C11: the merge of the tables' iterators is the reference merge of their entries: all keys in
  order, once each, with the value of the newest table that has the key, tombstones dropped when asked.\<close>

theorem merge_equals_reference:
  assumes "list_all2 wf_table ts ess"
  shows "merge ts d = Ok (merge_reference ess d)"
proof -
  obtain out where "merge ts d = Ok out" "key_sorted out"
    "\<forall>k. map_of out k = visible d (newest ess k)"
    using merge_wf [OF assms] by blast
  then show ?thesis
    using key_sorted_unique [of out "merge_reference ess d"] merge_reference_facts by (simp add: fun_eq_iff)
qed

theorem merge_equals_reference_witness:
  "\<exists>t u. build_table (0, 0) 2 10 [([1], Some [7]), ([2], Some [8])] = Ok t \<and>
     build_table (1, 1) 1 10 [([1], None)] = Ok u \<and>
     merge [t, u] True = Ok [([2], Some [8])] \<and>
     merge [t, u] False = Ok [([1], None), ([2], Some [8])]"
proof -
  let ?a = "[([1], Some [7]), ([2], Some [8])] :: entry list" and ?b = "[([1], None)] :: entry list"
  have "writable ?a" "writable ?b" "small_table 10 ?a" "small_table 10 ?b"
    by (simp_all add: writable_def entry_fits_def small_table_def)
  then obtain t u where t: "build_table (0, 0) 2 10 ?a = Ok t" "wf_table t ?a"
    and u: "build_table (1, 1) 1 10 ?b = Ok u" "wf_table u ?b"
    using table_exists_for [of ?a 10 2 "(0, 0)"] table_exists_for [of ?b 10 1 "(1, 1)"] by auto
  have "list_all2 wf_table [t, u] [?a, ?b]" using t u by simp
  moreover have "merge_reference [?a, ?b] True = [([2], Some [8])]"
    "merge_reference [?a, ?b] False = [([1], None), ([2], Some [8])]"
    by (simp_all add: merge_reference_def List.map_filter_def visible_def insert_commute)
  ultimately have "merge [t, u] True = Ok [([2], Some [8])] \<and>
      merge [t, u] False = Ok [([1], None), ([2], Some [8])]"
    using merge_equals_reference [of "[t, u]" "[?a, ?b]"] by simp
  then show ?thesis using t(1) u(1) by blast
qed

text \<open>C7: a compaction is invisible. Whatever system calls fail, and wherever the process is killed,
  the set in memory answers every lookup as before, and so does the set that the next process opens
  from the directory; a compaction that succeeds leaves fewer tables and a tidy directory.\<close>

theorem compact_invisible:
  assumes "set_inv s ess (dir w)" and "compact start count s w = (r, s', w')"
  shows "set_get s' k = set_get s k \<and>
    (\<exists>s2 w2. set_open data_dir bpk (calm w') = (Ok s2, w2) \<and> set_get s2 k = set_get s k) \<and>
    (r = Ok () \<longrightarrow> length (tables s') < length (tables s) \<and> (\<exists>ess'. set_inv s' ess' (dir w')))"
proof -
  obtain ess_d ess_m where e: "disk_state (dir w') ess_d" "live_eq ess_d ess"
    "list_all2 wf_table (tables s') ess_m" "live_eq ess_m ess"
    "r = Ok () \<longrightarrow> set_inv s' ess_m (dir w') \<and> length (tables s') < length (tables s)"
    using compact_effect [OF assms] by blast
  have s: "set_get s k = Ok (live (newest ess k))"
    using assms(1) set_get_newest by (simp add: set_inv_def)
  obtain s2 w2 where s2: "set_open data_dir bpk (calm w') = (Ok s2, w2)" "set_inv s2 ess_d (dir w2)"
    using disk_state_reopen [of "calm w'" ess_d data_dir bpk] e(1) by auto
  have "set_get s2 k = set_get s k"
    using s2(2) set_get_newest [of s2 ess_d k] s e(2) by (simp add: set_inv_def live_eq_def)
  moreover have "set_get s' k = set_get s k"
    using set_get_newest [OF e(3), of k] s e(4) by (simp add: live_eq_def)
  ultimately show ?thesis using s2(1) e(5) by blast
qed

theorem compact_invisible_witness:
  "\<exists>s1 w1 s2 w2 r s' w' s3 w3.
     set_write [([1], Some [7])] empty_set (empty_dir []) = (Ok (), s1, w1) \<and>
     set_write [([1], None)] s1 w1 = (Ok (), s2, w2) \<and>
     compact 0 2 s2 (w2\<lparr>env := [Kill 0]\<rparr>) = (r, s', w') \<and> set_get s' [1] = Ok None \<and>
     set_open [] 10 (calm w') = (Ok s3, w3) \<and> set_get s3 [1] = Ok None"
proof -
  obtain s1 w1 where op: "set_write [([1], Some [7])] empty_set (empty_dir []) = (Ok (), s1, w1)"
    "set_inv s1 [[([1], Some [7])]] (dir w1)" "next_seq s1 = 1" "env w1 = []" "bits_per_key s1 = 10"
    using set_write_ok [OF empty_set_inv [of "[]"] _ small_demo(1)] small_demo(2) by auto
  obtain s2 w2 where op2: "set_write [([1], None)] s1 w1 = (Ok (), s2, w2)"
    "set_inv s2 [[([1], Some [7])], [([1], None)]] (dir w2)"
    using set_write_ok [OF op(2,4) small_demo(3)] small_demo(4) op(3,5) by auto
  obtain r s' w' where op3: "compact 0 2 s2 (w2\<lparr>env := [Kill 0]\<rparr>) = (r, s', w')"
    by (metis prod_cases3)
  have get: "set_get s2 [1] = Ok None"
    using op2(2) set_get_newest [of s2 "[[([1], Some [7])], [([1], None)]]" "[1]"]
    by (simp add: set_inv_def)
  have "set_inv s2 [[([1], Some [7])], [([1], None)]] (dir (w2\<lparr>env := [Kill 0]\<rparr>))"
    using op2(2) by simp
  from compact_invisible [OF this op3, of "[1]" "[]" 10] op(1) op2(1) op3 get
  show ?thesis by auto
qed

text \<open>C21: progress of compaction. Without faults, a run of two or more tables inside the set is merged, the files of
  its tables are gone, and the directory has no table but those of the set, provided that the merged table stays below
  the largest file there can be. Lookups are as before.\<close>

theorem compact_returns:
  assumes "set_inv s ess (dir w)" and "env w = []"
    and "2 \<le> count" and "start + count \<le> length (tables s)"
    and "\<And>M. merge (take count (drop start (tables s))) (start = 0) = Ok M \<Longrightarrow>
      small_table (bits_per_key s) M"
  shows "\<exists>s' w'. compact start count s w = (Ok (), s', w') \<and> length (tables s') < length (tables s) \<and>
    (\<forall>k. set_get s' k = set_get s k) \<and>
    (\<forall>t \<in> set (take count (drop start (tables s))). map_of (dir w') (path t) = None) \<and>
    (\<forall>n \<in> fst ` set (dir w'). extension n = Some (str ''sst'') \<longrightarrow> n \<in> path ` set (tables s'))"
proof -
  obtain s' w' where op: "compact start count s w = (Ok (), s', w')"
    using compact_calm [OF assms(1-4)] assms(5) by blast
  from compact_effect [OF assms(1) op] obtain ess' where
    e: "list_all2 wf_table (tables s') ess'" "live_eq ess' ess" "length (tables s') < length (tables s)" "set_inv s' ess' (dir w')"
    by blast
  obtain rep w1 where "remove_files (take count (drop start (tables s))) w1 = (Ok (), w')"
    using op by (auto simp: compact_def compact_publish_def Let_def split: prod.splits res.splits)
  then have "\<forall>t \<in> set (take count (drop start (tables s))). map_of (dir w') (path t) = None" by (rule remove_files_gone(1))
  moreover have "\<forall>k. set_get s' k = set_get s k"
    using e(1,2) set_get_newest [of s' ess'] set_get_newest [of s ess] assms(1) by (auto simp: live_eq_def set_inv_def)
  moreover have "\<forall>n \<in> fst ` set (dir w'). extension n = Some (str ''sst'') \<longrightarrow> n \<in> path ` set (tables s')"
    using e(4) by (simp add: set_inv_def dir_clean_def)
  ultimately show ?thesis using op e(3) by blast
qed

theorem compact_returns_witness:
  "\<exists>s1 w1 s2 w2 s' w'.
     set_write [([1], Some [7])] empty_set (empty_dir []) = (Ok (), s1, w1) \<and>
     set_write [([1], None)] s1 w1 = (Ok (), s2, w2) \<and>
     compact 0 2 s2 w2 = (Ok (), s', w') \<and> set_get s' [1] = set_get s2 [1]"
proof -
  obtain s1 w1 where op: "set_write [([1], Some [7])] empty_set (empty_dir []) = (Ok (), s1, w1)"
    "set_inv s1 [[([1], Some [7])]] (dir w1)" "next_seq s1 = 1" "env w1 = []" "bits_per_key s1 = 10"
    using set_write_ok [OF empty_set_inv [of "[]"] _ small_demo(1)] small_demo(2) by auto
  obtain s2 w2 where op2: "set_write [([1], None)] s1 w1 = (Ok (), s2, w2)"
    "set_inv s2 [[([1], Some [7])], [([1], None)]] (dir w2)" "env w2 = []" "bits_per_key s2 = 10"
    using set_write_ok [OF op(2,4) small_demo(3)] small_demo(4) op(3,5) by auto
  have ts: "list_all2 wf_table (tables s2) [[([1], Some [7])], [([1], None)]]"
    using op2(2) by (simp add: set_inv_def)
  then have len: "length (tables s2) = 2" by (simp add: list_all2_lengthD)
  have "small_table 10 M" if M: "merge (take 2 (drop 0 (tables s2))) (0 = (0::nat)) = Ok M" for M
  proof -
    have "map_of M k = None" for k
      using merge_wf [OF ts, of True] M len by (auto simp: visible_def map_add_def)
    then have "M = []" by (metis ext map_of_eq_empty_iff)
    then show ?thesis by (simp add: small_table_def)
  qed
  then show ?thesis
    using compact_returns [OF op2(2,3), of 2 0] len op2(1,4) op(1) by auto
qed

end
