(* ===== verification/Db.thy ===== *)
theory Db
  imports Wal Compaction
begin

text \<open>
  The store itself (\<^verbatim>\<open>src/src/db.rs\<close>, \<^verbatim>\<open>src/src/config.rs\<close>): a memtable with its log in front of
  the set of tables. Writes go to the log, then to the memtable; a memtable that has grown beyond
  the threshold becomes a table and the log is emptied. The channel to the compactor thread is the
  number of messages in it; one turn of the thread's loop is \<open>compactor_turn\<close>.
\<close>

section \<open>State\<close>

record config =
  cfg_path :: bytes
  cfg_sync :: bool
  cfg_table_size :: nat
  cfg_bits_per_key :: nat
  cfg_threshold :: nat
  cfg_ratio :: f64

definition default_config :: config where
  "default_config =
     \<lparr>cfg_path = str ''data'', cfg_sync = True, cfg_table_size = 4096 * 1024,
      cfg_bits_per_key = 10, cfg_threshold = 4, cfg_ratio = F64 3 (-1)\<rparr>"

record db =
  db_map :: memtable
  db_wal :: wal
  db_size :: nat
  db_config :: config
  db_set :: sstable_set
  db_rings :: nat

definition WAL_NAME :: bytes where
  "WAL_NAME = str ''wal.log''"

section \<open>Opening\<close>

definition replay_record :: "memtable \<Rightarrow> wal_record \<Rightarrow> memtable" where
  "replay_record m r =
     (case woperation r of
        Insert \<Rightarrow> bt_insert (wkey r) (Some (wvalue r)) m
      | Delete \<Rightarrow> bt_insert (wkey r) None m)"

definition replay :: "wal_record list \<Rightarrow> memtable" where
  "replay rs = foldl replay_record [] rs"

text \<open>\<open>create_dir_all\<close>: one call that makes an empty directory where there is none.\<close>

definition create_dir_all :: "unit io" where
  "create_dir_all w =
     (if root w = Directory then (Ok (), w)
      else case syscall_atomic (\<lambda>d. d) (\<lambda>_ D. D) w of
             (Ok u, w1) \<Rightarrow> (Ok u, w1\<lparr>root := Directory, dir := [], disk := settled []\<rparr>)
           | (Fail s, w1) \<Rightarrow> (Fail s, w1))"

definition with_config :: "(bytes \<Rightarrow> u32) \<Rightarrow> config \<Rightarrow> db io" where
  "with_config crc cfg w =
     (if root w = RegularFile then
        (Err AlreadyExists (cfg_path cfg @
           str '' exists but is not a directory -- lsmrs needs a directory for its data''), w)
      else
        io_bind create_dir_all (\<lambda>_.
        io_bind (wal_open WAL_NAME (cfg_sync cfg)) (\<lambda>l.
        io_bind (wal_read crc l) (\<lambda>rs.
        io_bind (set_open (cfg_path cfg) (cfg_bits_per_key cfg)) (\<lambda>s.
        io_lift (Ok \<lparr>db_map = replay rs, db_wal = l, db_size = 0, db_config = cfg, db_set = s,
                     db_rings = 0\<rparr>))))) w)"

definition db_open :: "(bytes \<Rightarrow> u32) \<Rightarrow> db io" where
  "db_open crc = with_config crc default_config"

section \<open>Operations\<close>

text \<open>As with the set, an operation returns the store it leaves behind, also on an error.\<close>

type_synonym 'a db_op = "db \<Rightarrow> world \<Rightarrow> 'a res \<times> db \<times> world"

definition flush :: "unit db_op" where
  "flush db w =
     (case set_write (db_map db) (db_set db) w of
        (Fail e, s, w1) \<Rightarrow> (Fail e, db\<lparr>db_set := s\<rparr>, w1)
      | (Ok u, s, w1) \<Rightarrow>
          let db1 = db\<lparr>db_set := s, db_map := []\<rparr>
          in case wal_truncate (db_wal db) w1 of
               (Fail e, w2) \<Rightarrow> (Fail e, db1, w2)
             | (Ok u, w2) \<Rightarrow> (Ok (), db1\<lparr>db_rings := db_rings db1 + 1\<rparr>, w2))"

text \<open>What \<open>put\<close> and \<open>delete\<close> do after the log: count, insert, and flush beyond the threshold.\<close>

definition apply_write :: "bytes \<Rightarrow> bytes option \<Rightarrow> nat \<Rightarrow> unit db_op" where
  "apply_write key entry added db w =
     (let db1 = db\<lparr>db_size := db_size db + added, db_map := bt_insert key entry (db_map db)\<rparr>
      in if cfg_table_size (db_config db1) < db_size db1 then
           (case flush db1 w of
              (Fail e, db2, w1) \<Rightarrow> (Fail e, db2, w1)
            | (Ok u, db2, w1) \<Rightarrow> (Ok (), db2\<lparr>db_size := 0\<rparr>, w1))
         else (Ok (), db1, w))"

definition put :: "(bytes \<Rightarrow> u32) \<Rightarrow> bytes \<Rightarrow> bytes \<Rightarrow> unit db_op" where
  "put crc key val db w =
     (case wal_insert crc (db_wal db) key val w of
        (Fail e, w1) \<Rightarrow> (Fail e, db, w1)
      | (Ok u, w1) \<Rightarrow> apply_write key (Some val) (length key + length val) db w1)"

definition delete :: "(bytes \<Rightarrow> u32) \<Rightarrow> bytes \<Rightarrow> unit db_op" where
  "delete crc key db w =
     (case wal_delete crc (db_wal db) key w of
        (Fail e, w1) \<Rightarrow> (Fail e, db, w1)
      | (Ok u, w1) \<Rightarrow> apply_write key None (length key) db w1)"

definition db_get :: "db \<Rightarrow> bytes \<Rightarrow> bytes option res" where
  "db_get db key =
     (case bt_get (db_map db) key of
        Some entry \<Rightarrow> Ok entry
      | None \<Rightarrow> set_get (db_set db) key)"

definition scan :: "db \<Rightarrow> (bytes \<times> bytes) list" where
  "scan db = List.map_filter (\<lambda>(k, v). case v of Some x \<Rightarrow> Some (k, x) | None \<Rightarrow> None) (db_map db)"

section \<open>The compactor thread\<close>

text \<open>
  The inner loop: compact while there is a run to compact, and give up on an error. A run of fewer
  than two tables is the failed assertion of \<open>compact\<close>, which ends the thread (\<open>Fail Panic\<close>).
\<close>

lemma compact_progress:
  assumes "compact start count s w = (Ok u, s', w')"
  shows "length (tables s') < length (tables s)"
proof -
  from assms obtain rep w1 where "compact_prepare s start count w = (Ok rep, w1)"
    and s': "tables s' = splice start count rep (tables s)"
    by (auto simp: compact_def compact_publish_def replace_tables_def Let_def
        split: res.splits prod.splits)
  then have "2 \<le> count" "start + count \<le> length (tables s)"
    by (auto simp: compact_prepare_def split: if_splits)
  then show ?thesis unfolding s' splice_def option_list_def by (auto split: option.split)
qed

function compactor_loop :: "nat \<Rightarrow> f64 \<Rightarrow> unit set_op" where
  "compactor_loop min_run ratio s w =
     (case pick_run s min_run ratio of
        None \<Rightarrow> (Ok (), s, w)
      | Some (start, count) \<Rightarrow>
          (case compact start count s w of
             (Ok u, s1, w1) \<Rightarrow> compactor_loop min_run ratio s1 w1
           | (Fail (Io e), s1, w1) \<Rightarrow> (Ok (), s1, w1)
           | (Fail Panic, s1, w1) \<Rightarrow> (Fail Panic, s1, w1)
           | (Fail Killed, s1, w1) \<Rightarrow> (Fail Killed, s1, w1)))"
  by pat_completeness auto
termination
  by (relation "measure (\<lambda>(min_run, ratio, s, w). length (tables s))")
    (auto dest: compact_progress [OF sym])

declare compactor_loop.simps [simp del]

definition compactor_turn :: "unit db_op" where
  "compactor_turn db w =
     (if db_rings db = 0 then (Ok (), db, w)
      else case compactor_loop (cfg_threshold (db_config db)) (cfg_ratio (db_config db)) (db_set db) w of
             (r, s, w1) \<Rightarrow> (r, db\<lparr>db_set := s, db_rings := db_rings db - 1\<rparr>, w1))"

end
