(* ===== verification/Db_Refine.thy ===== *)
theory Db_Refine
  imports Db
begin

text \<open>
  The store refines a map from keys to values: what a successful operation does to it, and that a
  process stopped at any system call of a write leaves a directory from which the next one sees the
  map either before or after that write.
\<close>

section \<open>Writes as log records\<close>

definition wrec :: "entry \<Rightarrow> wal_record" where
  "wrec e = \<lparr>wkey = fst e, wvalue = value_bytes (snd e),
     woperation = (if snd e = None then Delete else Insert)\<rparr>"

definition write_fits :: "entry \<Rightarrow> bool" where
  "write_fits e \<longleftrightarrow> length (fst e) + length (value_bytes (snd e)) + 13 < 2 ^ 32"

definition apply_writes :: "entry list \<Rightarrow> memtable" where
  "apply_writes ws = fold (\<lambda>(k, v). bt_insert k v) ws []"

lemma record_fits_wrec: "write_fits e \<Longrightarrow> record_fits (wrec e)"
  by (simp add: write_fits_def record_fits_def wrec_def)

lemma write_fits_entry: "write_fits e \<Longrightarrow> entry_fits e"
  by (simp add: write_fits_def entry_fits_def)

lemma replay_wrec: "replay (map wrec ws) = apply_writes ws"
proof -
  have "replay_record m (wrec e) = (\<lambda>(k, v). bt_insert k v) e m" for m e
    by (cases e; cases "snd e") (auto simp: replay_record_def wrec_def)
  then have "foldl replay_record m (map wrec ws) = fold (\<lambda>(k, v). bt_insert k v) ws m" for m
    by (induction ws arbitrary: m) simp_all
  then show ?thesis by (simp add: replay_def apply_writes_def)
qed

lemma apply_writes_simps [simp]:
  "apply_writes [] = []" "apply_writes (ws @ [(k, v)]) = bt_insert k v (apply_writes ws)"
  by (simp_all add: apply_writes_def)

lemma apply_writes_sorted: "key_sorted (apply_writes ws)"
  unfolding apply_writes_def by (rule btree.ordered_fold) simp

lemma map_of_apply_writes: "map_of (apply_writes ws) = map_of (rev ws)"
  using btree.lookup_fold [of "[]" ws]
  by (simp add: apply_writes_def bt_get_def fun_eq_iff split: option.split)

lemma apply_writes_fits:
  assumes "\<forall>e \<in> set ws. write_fits e" and "e \<in> set (apply_writes ws)"
  shows "entry_fits e"
proof -
  have "map_of (apply_writes ws) (fst e) = Some (snd e)"
    using key_sorted_distinct [OF apply_writes_sorted] assms(2) by simp
  then have "e \<in> set ws" by (auto simp: map_of_apply_writes dest: map_of_SomeD)
  then show ?thesis using assms(1) write_fits_entry by blast
qed

lemma apply_writes_Nil [simp]: "apply_writes ws = [] \<longleftrightarrow> ws = []"
proof
  assume "apply_writes ws = []"
  then have "map_of (rev ws) = Map.empty" by (simp flip: map_of_apply_writes)
  then show "ws = []" by simp
qed simp

section \<open>The log under faults\<close>

definition torn :: "(bytes \<Rightarrow> u32) \<Rightarrow> bytes \<Rightarrow> bool" where
  "torn crc tail \<longleftrightarrow>
     (\<exists>r n. record_fits r \<and> n < length (frame crc r) \<and> tail = take n (frame crc r))"

lemma torn_Nil [simp]: "torn crc []"
  unfolding torn_def
  by (rule exI [of _ "wrec ([], None)"], rule exI [of _ 0])
    (simp add: record_fits_def wrec_def value_bytes_def)

lemma read_loop_torn_tail:
  assumes "\<forall>e \<in> set ws. write_fits e" and "torn crc tail"
  shows "read_loop crc (frames crc (map wrec ws) @ tail) [] = Ok (map wrec ws)"
  using assms record_fits_wrec
  by (auto simp: read_loop_frames torn_def read_loop_frame_prefix)

section \<open>The invariant of the store\<close>

definition view :: "entry list list \<Rightarrow> entry list \<Rightarrow> bytes \<Rightarrow> bytes option" where
  "view ess ws k = live (newest (ess @ [apply_writes ws]) k)"

definition db_inv :: "(bytes \<Rightarrow> u32) \<Rightarrow> db \<Rightarrow> world \<Rightarrow> entry list list \<Rightarrow> entry list \<Rightarrow> bool" where
  "db_inv crc db w ess ws \<longleftrightarrow>
     set_inv (db_set db) ess (dir w) \<and> root w = Directory \<and>
     wfile (db_wal db) = WAL_NAME \<and>
     map_of (dir w) WAL_NAME = Some (frames crc (map wrec ws)) \<and>
     (\<forall>e \<in> set ws. write_fits e) \<and> db_map db = apply_writes ws"

text \<open>What the directory stands for: tables, whole log records, and perhaps part of one more.\<close>

definition disk_view :: "(bytes \<Rightarrow> u32) \<Rightarrow> directory \<Rightarrow> (bytes \<Rightarrow> bytes option) \<Rightarrow> bool" where
  "disk_view crc d V \<longleftrightarrow>
     (\<exists>ess ws tail. disk_state d ess \<and> (\<forall>e \<in> set ws. write_fits e) \<and> torn crc tail \<and>
        contents d WAL_NAME = frames crc (map wrec ws) @ tail \<and> V = view ess ws)"

lemma disk_viewI:
  "disk_state d ess \<Longrightarrow> \<forall>e \<in> set ws. write_fits e \<Longrightarrow> torn crc tail \<Longrightarrow>
     contents d WAL_NAME = frames crc (map wrec ws) @ tail \<Longrightarrow> V = view ess ws \<Longrightarrow>
     disk_view crc d V"
  unfolding disk_view_def by blast

lemma extension_WAL: "extension WAL_NAME = Some (str ''log'')"
  by (simp add: WAL_NAME_def extension_def split_name_def Let_def)

lemma WAL_not_table: "extension WAL_NAME \<noteq> Some (str ''sst'')"
  by (simp add: extension_WAL)

lemma others_same_WAL: "others_same w w' \<Longrightarrow> map_of (dir w') WAL_NAME = map_of (dir w) WAL_NAME"
  by (simp add: others_same_def extension_WAL)

lemma view_write: "view ess (ws @ [(k, v)]) = (view ess ws)(k := v)"
  by (auto simp: view_def fun_eq_iff map_of_apply_writes map_add_def
      simp del: apply_writes_simps(2) split: option.split)

text \<open>Once the memtable is a table, replaying its log again changes nothing.\<close>

lemma view_flushed: "view (ess @ [apply_writes ws]) ws = view ess ws"
  "view (ess @ [apply_writes ws]) [] = view ess ws"
  by (auto simp: view_def fun_eq_iff map_add_def split: option.split)

text \<open>
  What the directory of a running store stands for: the entries of its tables, as far as readers can tell
  (the tables themselves may be others, those that a compaction has just written).
\<close>

definition stands :: "directory \<Rightarrow> entry list list \<Rightarrow> bool" where
  "stands d ess \<longleftrightarrow> (\<exists>dess. disk_state d dess \<and> live_eq dess ess)"

lemma live_eq_trans: "live_eq a b \<Longrightarrow> live_eq b c \<Longrightarrow> live_eq a c"
  by (simp add: live_eq_def)

lemma live_eq_view: "live_eq ess ess' \<Longrightarrow> view ess ws = view ess' ws"
  by (auto simp: view_def live_eq_def fun_eq_iff map_add_def split: option.split)

lemma stands_disk_state: "disk_state d ess \<Longrightarrow> stands d ess"
  unfolding stands_def by (intro exI [of _ ess]) simp

lemma stands_view:
  assumes "stands d ess" and "\<forall>e \<in> set ws. write_fits e" and "torn crc tail"
    and "contents d WAL_NAME = frames crc (map wrec ws) @ tail"
  shows "disk_view crc d (view ess ws)"
proof -
  obtain dess where "disk_state d dess" "live_eq dess ess" using assms(1) by (auto simp: stands_def)
  then show ?thesis using disk_viewI [OF _ assms(2-4), of dess "view ess ws"] live_eq_view by simp
qed

lemma stands_same:
  "same_except name w w' \<Longrightarrow> extension name \<noteq> Some (str ''sst'') \<Longrightarrow> stands (dir w) ess \<Longrightarrow> stands (dir w') ess"
  unfolding stands_def using same_except_disk_state by blast

section \<open>Writes\<close>

definition room :: "db \<Rightarrow> bool" where
  "room db \<longleftrightarrow> next_seq (db_set db) + 1 < 2 ^ 64"

text \<open>A log to which a write is being appended.\<close>

lemma stands_view_prefix:
  assumes S: "stands d ess" and ws: "\<forall>e \<in> set ws. write_fits e" and fits: "write_fits (k, v)"
    and n: "contents d WAL_NAME = frames crc (map wrec ws) @ take n (frame crc (wrec (k, v)))"
  shows "disk_view crc d (view ess ws) \<or> disk_view crc d ((view ess ws)(k := v))"
proof (cases "n < length (frame crc (wrec (k, v)))")
  case True
  then have "torn crc (take n (frame crc (wrec (k, v))))"
    using record_fits_wrec [OF fits] unfolding torn_def by blast
  then show ?thesis using stands_view [OF S ws _ n] by simp
next
  case False
  let ?ws = "ws @ [(k, v)]"
  have "\<forall>e \<in> set ?ws. write_fits e" using ws fits by simp
  moreover have "contents d WAL_NAME = frames crc (map wrec ?ws) @ []" using n False by simp
  ultimately show ?thesis using stands_view [OF S _ torn_Nil] view_write by metis
qed

text \<open>
  The invariant, for any relation \<open>J\<close> between a set, its entries and its directory. A store on its own has
  \<open>set_inv\<close> there; in the middle of a compaction it is a weaker one.
\<close>

definition store_inv :: "(sstable_set \<Rightarrow> entry list list \<Rightarrow> directory \<Rightarrow> bool) \<Rightarrow> (bytes \<Rightarrow> u32) \<Rightarrow> db \<Rightarrow>
    world \<Rightarrow> entry list list \<Rightarrow> entry list \<Rightarrow> bool" where
  "store_inv J crc db w ess ws \<longleftrightarrow>
     J (db_set db) ess (dir w) \<and> root w = Directory \<and> wfile (db_wal db) = WAL_NAME \<and>
     map_of (dir w) WAL_NAME = Some (frames crc (map wrec ws)) \<and>
     (\<forall>e \<in> set ws. write_fits e) \<and> db_map db = apply_writes ws"

lemma db_inv_store: "db_inv = store_inv set_inv"
  by (simp add: db_inv_def store_inv_def fun_eq_iff)

text \<open>Both writes, seen as one: log the record, then apply it.\<close>

definition write_op :: "(bytes \<Rightarrow> u32) \<Rightarrow> entry \<Rightarrow> unit db_op" where
  "write_op crc e =
     (case e of (key, Some val) \<Rightarrow> put crc key val | (key, None) \<Rightarrow> delete crc key)"

lemma write_op_unfold:
  "write_op crc e db w =
     (case wal_append crc (db_wal db) (wkey (wrec e)) (wvalue (wrec e)) (woperation (wrec e)) w of
        (Fail s, w1) \<Rightarrow> (Fail s, db, w1)
      | (Ok u, w1) \<Rightarrow>
          apply_write (fst e) (snd e) (length (fst e) + length (value_bytes (snd e))) db w1)"
  by (cases e; cases "snd e")
    (auto simp: write_op_def put_def delete_def wal_insert_def wal_delete_def wrec_def
      split: prod.split res.split)

text \<open>The store once a write is on the log, and what becomes of it.\<close>

definition logged :: "entry \<Rightarrow> db \<Rightarrow> db" where
  "logged e db = db\<lparr>db_size := db_size db + (length (fst e) + length (value_bytes (snd e))),
     db_map := bt_insert (fst e) (snd e) (db_map db)\<rparr>"

lemma logged_simps [simp]:
  "db_config (logged e db) = db_config db" "db_set (logged e db) = db_set db" "db_wal (logged e db) = db_wal db"
  "db_rings (logged e db) = db_rings db" "db_map (logged e db) = bt_insert (fst e) (snd e) (db_map db)"
  by (simp_all add: logged_def)

lemma write_op_logged:
  "write_op crc e db w =
     (case wal_append crc (db_wal db) (wkey (wrec e)) (wvalue (wrec e)) (woperation (wrec e)) w of
        (Fail s, w1) \<Rightarrow> (Fail s, db, w1)
      | (Ok u, w1) \<Rightarrow>
          if cfg_table_size (db_config db) < db_size (logged e db) then
            (case flush (logged e db) w1 of
               (Fail s, db2, w2) \<Rightarrow> (Fail s, db2, w2)
             | (Ok u, db2, w2) \<Rightarrow> (Ok (), db2\<lparr>db_size := 0\<rparr>, w2))
          else (Ok (), logged e db, w1))"
  by (auto simp: write_op_unfold apply_write_def logged_def Let_def split: prod.split res.split)

text \<open>No write touches the data path itself.\<close>

lemma flush_root: "flush db w = (r, db', w') \<Longrightarrow> root w' = root w"
  by (auto simp: flush_def Let_def others_same_def same_except_def split: prod.splits res.splits
      dest!: set_write_others wal_truncate_effect(1))

text \<open>A write takes at most one sequence number.\<close>

lemma flush_seq: "flush db w = (r, db', w') \<Longrightarrow> next_seq (db_set db') \<le> next_seq (db_set db) + 1"
  by (auto simp: flush_def set_write_def replace_tables_def Let_def split: if_splits res.splits prod.splits)

lemma write_op_seq:
  "write_op crc e db w = (r, db', w') \<Longrightarrow> next_seq (db_set db') \<le> next_seq (db_set db) + 1"
  by (auto simp: write_op_unfold apply_write_def Let_def split: res.splits prod.splits if_splits
      dest!: flush_seq)

text \<open>What a write needs of the tables while it runs: that is all it relies on.\<close>

locale keeps_tables =
  fixes J :: "sstable_set \<Rightarrow> entry list list \<Rightarrow> directory \<Rightarrow> bool"
  assumes J_tables: "J s ess d \<Longrightarrow> list_all2 wf_table (tables s) ess"
    and J_stands: "J s ess d \<Longrightarrow> stands d ess"
    and J_same: "same_except name w w' \<Longrightarrow> extension name = Some (str ''log'') \<Longrightarrow>
      J s ess (dir w) \<Longrightarrow> J s ess (dir w')"
    and J_write: "J s ess (dir w) \<Longrightarrow> writable m \<Longrightarrow> next_seq s + 1 < 2 ^ 64 \<Longrightarrow>
      set_write m s w = (r, s', w') \<Longrightarrow>
      (\<exists>st. r = Fail st) \<and> (stands (dir w') ess \<or> stands (dir w') (ess @ [m])) \<or>
      r = Ok () \<and> J s' (ess @ [m]) (dir w')"
begin

lemma get_view:
  assumes "store_inv J crc db w ess ws"
  shows "db_get db k = Ok (view ess ws k)"
  using assms J_tables set_get_newest [of "db_set db" ess k]
  by (auto simp: db_get_def store_inv_def view_def bt_get_def map_add_def split: option.split)

lemma inv_disk_view:
  assumes "store_inv J crc db w ess ws"
  shows "disk_view crc (dir w) (view ess ws)"
  using assms J_stands by (intro stands_view [of _ _ _ _ "[]"]) (auto simp: store_inv_def contents_def)

lemma flush_keeps:
  assumes inv: "store_inv J crc db w ess ws" and room: "room db" and ne: "ws \<noteq> []"
    and op: "flush db w = (r, db', w')"
  shows "disk_view crc (dir w') (view ess ws)"
    and "r = Ok () \<Longrightarrow> store_inv J crc db' w' (ess @ [apply_writes ws]) [] \<and>
      db_config db' = db_config db \<and> db_rings db' = db_rings db + 1"
proof -
  let ?m = "apply_writes ws" and ?l = "db_wal db"
  from inv have I: "J (db_set db) ess (dir w)" "root w = Directory" "wfile ?l = WAL_NAME"
    "map_of (dir w) WAL_NAME = Some (frames crc (map wrec ws))" "\<forall>e \<in> set ws. write_fits e"
    "db_map db = ?m" by (simp_all add: store_inv_def)
  have m: "writable ?m"
    using ne apply_writes_sorted apply_writes_fits [OF I(5)] by (auto simp: writable_def)
  obtain q s1 w1 where sw: "set_write ?m (db_set db) w = (q, s1, w1)" by (metis prod_cases3)
  have others: "others_same w w1" by (rule set_write_others [OF sw])
  then have log1: "map_of (dir w1) WAL_NAME = Some (frames crc (map wrec ws))"
    using others_same_WAL I(4) by simp
  have eff: "(\<exists>st. q = Fail st) \<and> (stands (dir w1) ess \<or> stands (dir w1) (ess @ [?m])) \<or>
     q = Ok () \<and> J s1 (ess @ [?m]) (dir w1)"
    using J_write [OF I(1) m _ sw] room unfolding room_def by blast
  have old: "disk_view crc (dir w1) (view ess ws)" if "stands (dir w1) ess \<or> stands (dir w1) (ess @ [?m])"
    using that stands_view [of "dir w1" ess ws crc "[]"] stands_view [of "dir w1" "ess @ [?m]" ws crc "[]"]
      log1 I(5) by (auto simp: contents_def view_flushed)
  obtain p w2 where tr: "wal_truncate ?l w1 = (p, w2)" by force
  note te = wal_truncate_effect [OF tr]
  have after: "disk_view crc (dir w2) (view ess ws)" if J1: "J s1 (ess @ [?m]) (dir w1)"
  proof (cases "dir w2 = dir w1")
    case True
    then show ?thesis using old J_stands [OF J1] by simp
  next
    case False
    then have "contents (dir w2) WAL_NAME = frames crc (map wrec []) @ []"
      using te(2) I(3) by (auto simp: contents_def)
    moreover have "stands (dir w2) (ess @ [?m])"
      using stands_same [OF te(1) _ J_stands [OF J1]] I(3) WAL_not_table by simp
    ultimately show ?thesis
      using stands_view [of "dir w2" "ess @ [?m]" "[]" crc "[]"] by (simp add: view_flushed del: newest_append)
  qed
  have res: "(r, db', w') = (case q of Fail e \<Rightarrow> (Fail e, db\<lparr>db_set := s1\<rparr>, w1)
      | Ok u \<Rightarrow> (case p of Fail e \<Rightarrow> (Fail e, db\<lparr>db_set := s1, db_map := []\<rparr>, w2)
          | Ok u \<Rightarrow> (Ok (), db\<lparr>db_set := s1, db_map := [], db_rings := db_rings db + 1\<rparr>, w2)))"
    using op sw tr I(6) by (cases q; cases p) (auto simp: flush_def Let_def)
  show "disk_view crc (dir w') (view ess ws)"
    using res eff old after by (cases q; cases p) auto
  show "store_inv J crc db' w' (ess @ [?m]) [] \<and>
      db_config db' = db_config db \<and> db_rings db' = db_rings db + 1" if r: "r = Ok ()"
  proof -
    from r res have qp: "q = Ok ()" "p = Ok ()" "w' = w2"
      "db' = db\<lparr>db_set := s1, db_map := [], db_rings := db_rings db + 1\<rparr>"
      by (auto split: res.splits)
    then have "J s1 (ess @ [?m]) (dir w1)" using eff by auto
    then have "J s1 (ess @ [?m]) (dir w2)" using J_same [OF te(1)] I(3) extension_WAL by simp
    moreover have "root w2 = Directory"
      using te(1) others I(2) by (simp add: same_except_def others_same_def)
    ultimately show ?thesis using qp te(3) I(3) by (simp add: store_inv_def)
  qed
qed

text \<open>The record of a write on the log, in whole or cut off; the memtable follows it.\<close>

lemma append_keeps:
  assumes inv: "store_inv J crc db w ess ws" and fits: "write_fits (k, v)"
    and ap: "wal_append crc (db_wal db) (wkey (wrec (k, v))) (wvalue (wrec (k, v))) (woperation (wrec (k, v))) w = (q, w1)"
  shows "disk_view crc (dir w1) (view ess ws) \<or> disk_view crc (dir w1) ((view ess ws)(k := v))"
    and "q = Ok () \<Longrightarrow> store_inv J crc (logged (k, v) db) w1 ess (ws @ [(k, v)])"
    and "root w1 = Directory"
proof -
  let ?x = "wrec (k, v)" and ?ws = "ws @ [(k, v)]"
  from inv have I: "J (db_set db) ess (dir w)" "root w = Directory" "wfile (db_wal db) = WAL_NAME"
    "map_of (dir w) WAL_NAME = Some (frames crc (map wrec ws))" "\<forall>e \<in> set ws. write_fits e"
    "db_map db = apply_writes ws" by (simp_all add: store_inv_def)
  have ff: "\<forall>e \<in> set ?ws. write_fits e" using I(5) fits by simp
  note we = wal_append_effect [OF ap record_fits_wrec [OF fits]]
  have J1: "J (db_set db) ess (dir w1)" using J_same [OF we(1) _ I(1)] I(3) extension_WAL by simp
  show root1: "root w1 = Directory" using we(1) I(2) by (simp add: same_except_def)
  obtain n where n: "contents (dir w1) WAL_NAME = frames crc (map wrec ws) @ take n (frame crc ?x)"
    using we(2) I(3,4) by (auto simp: contents_def)
  show "disk_view crc (dir w1) (view ess ws) \<or> disk_view crc (dir w1) ((view ess ws)(k := v))"
    by (rule stands_view_prefix [OF J_stands [OF J1] I(5) fits n])
  show "store_inv J crc (logged (k, v) db) w1 ess ?ws" if "q = Ok ()"
  proof -
    have "map_of (dir w1) WAL_NAME = Some (frames crc (map wrec ?ws))"
      using we(3) [OF that] I(3,4) by (simp add: contents_def)
    then show ?thesis using ff I J1 root1 by (simp add: store_inv_def logged_def)
  qed
qed

lemma write_keeps:
  assumes inv: "store_inv J crc db w ess ws" and room: "room db" and fits: "write_fits (k, v)"
    and op: "write_op crc (k, v) db w = (r, db', w')"
  shows "disk_view crc (dir w') (view ess ws) \<or> disk_view crc (dir w') ((view ess ws)(k := v))"
    and "r = Ok () \<Longrightarrow> \<exists>ess' ws'. store_inv J crc db' w' ess' ws' \<and> view ess' ws' = (view ess ws)(k := v)"
    and "root w' = Directory"
proof -
  let ?x = "wrec (k, v)" and ?ws = "ws @ [(k, v)]" and ?db1 = "logged (k, v) db"
  obtain q w1 where ap: "wal_append crc (db_wal db) (wkey ?x) (wvalue ?x) (woperation ?x) w = (q, w1)" by force
  note ak = append_keeps [OF inv fits ap]
  obtain p db2 w2 where fl: "flush ?db1 w1 = (p, db2, w2)" by (metis prod_cases3)
  have res: "(r, db', w') = (case q of Fail s \<Rightarrow> (Fail s, db, w1)
      | Ok u \<Rightarrow> if cfg_table_size (db_config db) < db_size ?db1
          then (case p of Fail s \<Rightarrow> (Fail s, db2, w2) | Ok u \<Rightarrow> (Ok (), db2\<lparr>db_size := 0\<rparr>, w2))
          else (Ok (), ?db1, w1))"
    using op ap fl by (cases q; cases p) (auto simp: write_op_logged)
  have room1: "room ?db1" using room by (simp add: room_def logged_def)
  note fe = flush_keeps [OF ak(2) room1 _ fl]
  show "disk_view crc (dir w') (view ess ws) \<or> disk_view crc (dir w') ((view ess ws)(k := v))"
    using res ak(1) fe(1) view_write [of ess ws k v]
    by (cases q; cases p) (auto split: if_splits)
  show "root w' = Directory" using res ak(3) flush_root [OF fl] by (cases q; cases p) (auto split: if_splits)
  show "\<exists>ess' ws'. store_inv J crc db' w' ess' ws' \<and> view ess' ws' = (view ess ws)(k := v)" if r: "r = Ok ()"
  proof (cases "cfg_table_size (db_config db) < db_size ?db1")
    case True
    then have qp: "q = Ok ()" "p = Ok ()" "db' = db2\<lparr>db_size := 0\<rparr>" "w' = w2"
      using res r by (auto split: res.splits)
    then have "store_inv J crc db' w' (ess @ [apply_writes ?ws]) []"
      using fe(2) by (simp add: store_inv_def)
    then show ?thesis using view_flushed(2) view_write by metis
  next
    case False
    then have "q = Ok ()" "db' = ?db1" "w' = w1" using res r by (auto split: res.splits)
    then show ?thesis using ak(2) view_write by metis
  qed
qed

end

text \<open>A store whose compactor rests.\<close>

interpretation resting: keeps_tables set_inv
proof unfold_locales
  show "list_all2 wf_table (tables s) ess" if "set_inv s ess d" for s ess d
    using that by (simp add: set_inv_def)
  show "stands d ess" if "set_inv s ess d" for s ess d
    using that by (intro stands_disk_state set_inv_disk_state)
  show "set_inv s ess (dir w')"
    if "same_except name w w'" "extension name = Some (str ''log'')" "set_inv s ess (dir w)" for name w w' s ess
    using that same_except_clean [of name w w'] unfolding set_inv_def by simp
  show "(\<exists>st. r = Fail st) \<and> (stands (dir w') ess \<or> stands (dir w') (ess @ [m])) \<or>
      r = Ok () \<and> set_inv s' (ess @ [m]) (dir w')"
    if "set_inv s ess (dir w)" "writable m" "next_seq s + 1 < 2 ^ 64" "set_write m s w = (r, s', w')"
    for s ess w m r s' w'
    using set_write_effect [OF that] stands_disk_state by blast
qed

lemmas db_get_view = resting.get_view [folded db_inv_store]
lemmas db_write_effect = resting.write_keeps(1,2) [folded db_inv_store]
lemmas write_op_root = resting.write_keeps(3) [folded db_inv_store]

section \<open>Writes without faults\<close>

text \<open>The log and the table of the memtable stay below the largest file there can be.\<close>

definition small_write :: "db \<Rightarrow> world \<Rightarrow> entry \<Rightarrow> bool" where
  "small_write db w e \<longleftrightarrow>
     length (contents (dir w) WAL_NAME) + 17 + length (fst e) + length (value_bytes (snd e)) \<le>
       MAX_FILE_SIZE \<and>
     small_table (bits_per_key (db_set db)) (bt_insert (fst e) (snd e) (db_map db))"

lemma bt_insert_neq_Nil [simp]: "bt_insert k v m \<noteq> []"
  by (cases m) auto

lemma wal_append_calm:
  assumes "env w = []" and fits: "record_fits x"
    and "length (contents (dir w) (wfile l)) + length (frame crc x) \<le> MAX_FILE_SIZE"
  shows "\<exists>w'. wal_append crc l (wkey x) (wvalue x) (woperation x) w = (Ok (), w') \<and> env w' = []"
  using assms create_body_frame [OF fits, of crc]
  by (simp add: wal_append_def io_bind_def sys_calm)

lemma flush_calm:
  assumes "env w = []" and "db_map db \<noteq> []" and "small_table (bits_per_key (db_set db)) (db_map db)"
    and "room db"
  shows "\<exists>db' w'. flush db w = (Ok (), db', w')"
proof -
  obtain s w1 where "set_write (db_map db) (db_set db) w = (Ok (), s, w1)" "env w1 = []"
    using set_write_calm [OF assms(1,2,3)] assms(4) by (auto simp: room_def)
  then show ?thesis by (simp add: flush_def wal_truncate_def io_bind_def sys_calm Let_def)
qed

lemma db_write_calm:
  assumes calm: "env w = []" and inv: "db_inv crc db w ess ws" and room: "room db"
    and fits: "write_fits e" and small: "small_write db w e"
  shows "\<exists>db' w'. write_op crc e db w = (Ok (), db', w')"
proof -
  have l: "wfile (db_wal db) = WAL_NAME" using inv by (simp add: db_inv_def)
  have "length (contents (dir w) (wfile (db_wal db))) + length (frame crc (wrec e)) \<le> MAX_FILE_SIZE"
    using small l by (simp add: small_write_def wrec_def)
  from wal_append_calm [OF calm record_fits_wrec [OF fits] this]
  obtain w1 where w1: "wal_append crc (db_wal db) (wkey (wrec e)) (wvalue (wrec e))
      (woperation (wrec e)) w = (Ok (), w1)" "env w1 = []" by blast
  let ?db = "db\<lparr>db_size := db_size db + (length (fst e) + length (value_bytes (snd e))),
    db_map := bt_insert (fst e) (snd e) (db_map db)\<rparr>"
  have "\<exists>db' w'. flush ?db w1 = (Ok (), db', w')"
    using small room by (intro flush_calm [OF w1(2)]) (simp_all add: small_write_def room_def)
  then show ?thesis using w1(1) by (auto simp: write_op_unfold apply_write_def Let_def)
qed

section \<open>Opening\<close>

lemma wal_open_calm:
  assumes "env w = []"
  shows "\<exists>w'. wal_open name sync w = (Ok \<lparr>wfile = name, wsync = sync\<rparr>, w') \<and> env w' = [] \<and>
    same_except name w w' \<and> map_of (dir w') name = Some (contents (dir w) name)"
proof (cases "map_of (dir w) name = None")
  case True
  then show ?thesis
    using assms by (auto simp: wal_open_def io_bind_def sys_calm update_conv' contents_def
        intro: same_except_update)
next
  case False
  then show ?thesis
    using assms by (auto simp: wal_open_def io_bind_def sys_calm contents_def intro: same_except_refl)
qed

lemma with_config_replay:
  assumes calm: "env w = []" and root: "root w = Directory" and state: "disk_state (dir w) ess"
    and log: "read_loop crc (contents (dir w) WAL_NAME) [] = Ok rs"
  shows "\<exists>db w'. with_config crc cfg w = (Ok db, w') \<and> set_inv (db_set db) ess (dir w') \<and>
    db_map db = replay rs \<and> db_size db = 0 \<and> db_config db = cfg \<and>
    db_wal db = \<lparr>wfile = WAL_NAME, wsync = cfg_sync cfg\<rparr> \<and> bits_per_key (db_set db) = cfg_bits_per_key cfg \<and>
    map_of (dir w') WAL_NAME = Some (contents (dir w) WAL_NAME) \<and>
    root w' = Directory \<and> env w' = []"
proof -
  let ?l = "\<lparr>wfile = WAL_NAME, wsync = cfg_sync cfg\<rparr>"
  obtain w1 where w1: "wal_open WAL_NAME (cfg_sync cfg) w = (Ok ?l, w1)" "env w1 = []"
    "same_except WAL_NAME w w1" "map_of (dir w1) WAL_NAME = Some (contents (dir w) WAL_NAME)"
    using wal_open_calm [OF calm, of WAL_NAME "cfg_sync cfg"] by auto
  have rd: "wal_read crc ?l w1 = (Ok rs, w1)"
    using w1(4) log by (simp add: wal_read_def contents_def)
  have "disk_state (dir w1) ess" by (rule same_except_disk_state [OF w1(3) WAL_not_table state])
  from disk_state_reopen [OF this w1(2), of "cfg_path cfg" "cfg_bits_per_key cfg"]
  obtain s w2 where so: "set_open (cfg_path cfg) (cfg_bits_per_key cfg) w1 = (Ok s, w2)"
    "set_inv s ess (dir w2)" "bits_per_key s = cfg_bits_per_key cfg" "env w2 = []" "root w2 = root w1"
    "\<forall>n. extension n \<notin> {Some (str ''sst''), Some (str ''tmp'')} \<longrightarrow>
       map_of (dir w2) n = map_of (dir w1) n"
    by blast
  have "map_of (dir w2) WAL_NAME = Some (contents (dir w) WAL_NAME)"
    using so(6) w1(4) by (simp add: extension_WAL)
  moreover have "with_config crc cfg w = (Ok \<lparr>db_map = replay rs, db_wal = ?l, db_size = 0,
      db_config = cfg, db_set = s, db_rings = 0\<rparr>, w2)"
    using root w1(1) rd so(1)
    by (simp add: with_config_def create_dir_all_def io_bind_def)
  ultimately show ?thesis using so w1(3) root by (simp add: same_except_def)
qed

lemma with_config_calm:
  assumes calm: "env w = []" and root: "root w = Directory" and state: "disk_state (dir w) ess"
    and ws: "\<forall>e \<in> set ws. write_fits e" "torn crc tail"
    and log: "contents (dir w) WAL_NAME = frames crc (map wrec ws) @ tail"
  shows "\<exists>db w'. with_config crc cfg w = (Ok db, w') \<and> set_inv (db_set db) ess (dir w') \<and>
    db_map db = apply_writes ws \<and> db_size db = 0 \<and> db_config db = cfg \<and>
    db_wal db = \<lparr>wfile = WAL_NAME, wsync = cfg_sync cfg\<rparr> \<and> bits_per_key (db_set db) = cfg_bits_per_key cfg \<and>
    map_of (dir w') WAL_NAME = Some (frames crc (map wrec ws) @ tail) \<and>
    root w' = Directory \<and> env w' = []"
proof -
  have "read_loop crc (contents (dir w) WAL_NAME) [] = Ok (map wrec ws)"
    using read_loop_torn_tail [OF ws] log by simp
  from with_config_replay [OF calm root state this, of cfg] show ?thesis
    by (simp add: replay_wrec log)
qed

lemma db_get_opened:
  assumes "set_inv (db_set db) ess d" and "db_map db = apply_writes ws"
  shows "db_get db k = Ok (view ess ws k)"
  using assms set_get_newest [of "db_set db" ess k]
  by (auto simp: db_get_def set_inv_def view_def bt_get_def map_add_def split: option.split)

lemma reopen_disk_view:
  assumes "disk_view crc (dir w) V" and "root w = Directory"
  shows "\<exists>db w'. with_config crc cfg (calm w) = (Ok db, w') \<and> (\<forall>k. db_get db k = Ok (V k))"
proof -
  from assms(1) obtain ess ws tail where d: "disk_state (dir w) ess" "\<forall>e \<in> set ws. write_fits e"
    "torn crc tail" "contents (dir w) WAL_NAME = frames crc (map wrec ws) @ tail" "V = view ess ws"
    by (auto simp: disk_view_def)
  then show ?thesis
    using with_config_calm [of "calm w" ess ws crc tail cfg] assms(2) db_get_opened by fastforce
qed

lemma reopen_db_inv:
  assumes "db_inv crc db w ess ws"
  shows "\<exists>db' w'. with_config crc cfg (calm w) = (Ok db', w') \<and> db_inv crc db' w' ess ws"
proof -
  have "contents (dir w) WAL_NAME = frames crc (map wrec ws) @ []"
    using assms by (simp add: db_inv_def contents_def)
  then show ?thesis
    using with_config_calm [of "calm w" ess ws crc "[]" cfg] assms set_inv_disk_state
    by (fastforce simp: db_inv_def)
qed

lemma fresh_db_inv:
  assumes "root w = Absent \<or> root w = Directory \<and> dir w = []" and "env w = []"
  shows "\<exists>db w'. with_config crc cfg w = (Ok db, w') \<and> db_inv crc db w' [] []"
proof -
  let ?w = "if root w = Absent then w\<lparr>root := Directory, dir := [], disk := settled []\<rparr> else w"
  have "with_config crc cfg w = with_config crc cfg ?w"
  proof (cases "root w = Absent")
    case True
    then show ?thesis
      using assms(2) by (simp add: with_config_def create_dir_all_def io_bind_def syscall_atomic_def
          syscall_no_faults)
  next
    case False
    then show ?thesis by simp
  qed
  moreover have "\<exists>db w'. with_config crc cfg ?w = (Ok db, w') \<and> db_inv crc db w' [] []"
    using with_config_calm [of ?w "[]" "[]" crc "[]" cfg] assms disk_state_empty
    by (auto simp: db_inv_def contents_def)
  ultimately show ?thesis by simp
qed

section \<open>The compactor\<close>

lemma compactor_loop_effect:
  assumes "set_inv s ess (dir w)" and "compactor_loop min_run ratio s w = (r, s', w')"
  shows "\<exists>ess_d ess_m. disk_state (dir w') ess_d \<and> live_eq ess_d ess \<and>
    list_all2 wf_table (tables s') ess_m \<and> live_eq ess_m ess \<and> others_same w w'"
  using assms
proof (induction min_run ratio s w arbitrary: ess rule: compactor_loop.induct)
  case (1 min_run ratio s w)
  note loop = 1(3) [unfolded compactor_loop.simps [of min_run ratio s w]]
  show ?case
  proof (cases "pick_run s min_run ratio")
    case None
    then show ?thesis
      using loop 1(2) set_inv_disk_state [OF 1(2)]
      by (auto simp: set_inv_def intro!: exI [of _ ess])
  next
    case (Some a)
    obtain start count where a: "a = (start, count)" by (cases a)
    obtain q s1 w1 where c: "compact start count s w = (q, s1, w1)" by (metis prod_cases3)
    from compact_effect [OF 1(2) c] obtain ess_d ess_m where e: "disk_state (dir w1) ess_d"
      "live_eq ess_d ess" "list_all2 wf_table (tables s1) ess_m" "live_eq ess_m ess"
      "q = Ok () \<longrightarrow> set_inv s1 ess_m (dir w1)" by blast
    note others = compact_others(1) [OF 1(2) c]
    show ?thesis
    proof (cases q)
      case (Ok u)
      then have "compactor_loop min_run ratio s1 w1 = (r, s', w')"
        using loop Some a c by simp
      moreover have "set_inv s1 ess_m (dir w1)" using e(5) Ok by simp
      ultimately obtain d m where dm: "disk_state (dir w') d" "live_eq d ess_m"
        "list_all2 wf_table (tables s') m" "live_eq m ess_m" "others_same w1 w'"
        using 1(1) [OF Some a [symmetric] c [symmetric] Ok refl] by blast
      then have "live_eq d ess" "live_eq m ess" "others_same w w'"
        using e(4) others live_eq_trans others_same_trans by blast+
      then show ?thesis using dm by blast
    next
      case (Fail st)
      then have "s' = s1 \<and> w' = w1"
        using loop Some a c by (cases st) auto
      then show ?thesis using e others by blast
    qed
  qed
qed

lemma compactor_turn_effect:
  assumes inv: "db_inv crc db w ess ws" and op: "compactor_turn db w = (r, db', w')"
  shows "db_get db' k = Ok (view ess ws k)" and "disk_view crc (dir w') (view ess ws)"
    and "root w' = Directory"
proof -
  from inv have I: "set_inv (db_set db) ess (dir w)" "root w = Directory"
    "map_of (dir w) WAL_NAME = Some (frames crc (map wrec ws))" "\<forall>e \<in> set ws. write_fits e"
    "db_map db = apply_writes ws" by (simp_all add: db_inv_def)
  have "\<exists>ess_d ess_m. disk_state (dir w') ess_d \<and> live_eq ess_d ess \<and>
      list_all2 wf_table (tables (db_set db')) ess_m \<and> live_eq ess_m ess \<and> others_same w w' \<and>
      db_map db' = db_map db"
  proof (cases "db_rings db = 0")
    case True
    then have "db' = db" "w' = w" using op by (simp_all add: compactor_turn_def)
    then show ?thesis
      using I(1) set_inv_disk_state [OF I(1)] by (auto simp: set_inv_def intro!: exI [of _ ess])
  next
    case False
    then show ?thesis
      using op compactor_loop_effect [OF I(1)]
      by (fastforce simp: compactor_turn_def split: prod.splits)
  qed
  then obtain ess_d ess_m where e: "disk_state (dir w') ess_d" "live_eq ess_d ess"
    "list_all2 wf_table (tables (db_set db')) ess_m" "live_eq ess_m ess" "others_same w w'"
    "db_map db' = db_map db" by blast
  have "db_get db' k = Ok (view ess_m ws k)"
    using e(3,6) I(5) set_get_newest [of "db_set db'" ess_m k]
    by (auto simp: db_get_def view_def bt_get_def map_add_def split: option.split)
  then show "db_get db' k = Ok (view ess ws k)" by (simp add: live_eq_view [OF e(4)])
  have "contents (dir w') WAL_NAME = frames crc (map wrec ws) @ []"
    using others_same_WAL [OF e(5)] I(3) by (simp add: contents_def)
  then show "disk_view crc (dir w') (view ess ws)"
    using e(1,2) I(4) live_eq_view by (intro disk_viewI [of _ ess_d ws crc "[]"]) auto
  show "root w' = Directory" using e(5) I(2) by (simp add: others_same_def)
qed

end
