(* ===== verification/Pick_Run.thy ===== *)
theory Pick_Run
  imports SSTable_Set
begin

text \<open>
  The size-tiered choice of a run (\<open>pick_run\<close> in \<^verbatim>\<open>src/src/sstable.rs\<close>): the run it returns is
  one that \<open>compact\<close> accepts, all its tables are of comparable size, and it could not be longer.
\<close>

section \<open>Runs\<close>

lemma run_end_comparable:
  "start < e \<Longrightarrow> start < until \<Longrightarrow> until \<le> e \<Longrightarrow> e < run_end sizes ratio start until \<Longrightarrow>
     comparable sizes start e ratio"
proof (induction sizes ratio start until rule: run_end.induct)
  case (1 sizes ratio start until)
  show ?case
  proof (cases "until < length sizes \<and> comparable sizes start until ratio")
    case True
    then have "run_end sizes ratio start until = run_end sizes ratio start (until + 1)"
      by (subst run_end.simps) simp
    then show ?thesis using 1 True by (cases "e = until") auto
  next
    case False
    then have "run_end sizes ratio start until = until" by (subst run_end.simps) auto
    then show ?thesis using 1 by simp
  qed
qed

lemma run_end_stops:
  "run_end sizes ratio start until < length sizes \<Longrightarrow>
     \<not> comparable sizes start (run_end sizes ratio start until) ratio"
proof (induction sizes ratio start until rule: run_end.induct)
  case (1 sizes ratio start until)
  then show ?case
    by (cases "until < length sizes \<and> comparable sizes start until ratio")
      (auto simp: run_end.simps [of sizes ratio start until])
qed

lemma run_end_le: "until \<le> length sizes \<Longrightarrow> run_end sizes ratio start until \<le> length sizes"
proof (induction sizes ratio start until rule: run_end.induct)
  case (1 sizes ratio start until)
  then show ?case
    by (cases "until < length sizes \<and> comparable sizes start until ratio")
      (auto simp: run_end.simps [of sizes ratio start until])
qed

definition maximal_run :: "nat list \<Rightarrow> f64 \<Rightarrow> nat \<Rightarrow> nat \<Rightarrow> bool" where
  "maximal_run sizes ratio start count \<longleftrightarrow>
     1 \<le> count \<and> start + count \<le> length sizes \<and>
     (\<forall>e. start < e \<longrightarrow> e < start + count \<longrightarrow> comparable sizes start e ratio) \<and>
     (start + count < length sizes \<longrightarrow> \<not> comparable sizes start (start + count) ratio)"

lemma pick_from_maximal:
  "pick_from sizes min_run ratio lo = Some (start, count) \<Longrightarrow>
     lo \<le> start \<and> min_run \<le> count \<and> maximal_run sizes ratio start count"
proof (induction sizes min_run ratio lo rule: pick_from.induct)
  case (1 sizes min_run ratio lo)
  define e where "e = run_end sizes ratio lo (lo + 1)"
  have inside: "lo < length sizes"
    using 1(2) by (cases "lo < length sizes") (simp_all add: pick_from.simps [of sizes min_run ratio lo])
  then have eq: "pick_from sizes min_run ratio lo =
      (if min_run \<le> e - lo then Some (lo, e - lo)
       else pick_from sizes min_run ratio (if lo + 1 < e then e else lo + 1))"
    by (simp only: pick_from.simps [of sizes min_run ratio lo] Let_def e_def if_True)
  have e: "lo < e" "e \<le> length sizes"
    using run_end_ge [of "lo + 1" sizes ratio lo] run_end_le [of "lo + 1" sizes ratio lo] inside
    by (simp_all add: e_def)
  show ?case
  proof (cases "min_run \<le> e - lo")
    case True
    then have sc: "start = lo" "count = e - lo" using 1(2) eq by auto
    have "comparable sizes lo j ratio" if "lo < j" "j < e" for j
      using run_end_comparable [of lo j "lo + 1" sizes ratio] that by (simp add: e_def)
    moreover have "\<not> comparable sizes lo e ratio" if "e < length sizes"
      using run_end_stops [of sizes ratio lo "lo + 1"] that by (simp add: e_def)
    ultimately show ?thesis using True e sc by (simp add: maximal_run_def)
  next
    case False
    then have "pick_from sizes min_run ratio (if lo + 1 < e then e else lo + 1) = Some (start, count)"
      using 1(2) eq by simp
    from 1(1) [OF inside e_def False this] show ?thesis using e by (simp split: if_splits)
  qed
qed

section \<open>The comparison of sizes\<close>

lemma f64_mult_three_halves:
  assumes "n < 2 ^ 51"
  shows "f64_mult (f64_of_nat n) (F64 3 (-1)) = F64 (3 * int n) (-1)"
proof -
  have "3 * n < 2 ^ 53" using assms by simp
  then have "bit_len (3 * n) \<le> 53" by (rule bit_len_less)
  moreover have "nat \<bar>int n * 3\<bar> = 3 * n" by simp
  ultimately show ?thesis
    using assms by (simp add: f64_mult_def f64_of_nat_exact f64_nearest_def sgn_if)
qed

lemma foldr_min_Min: "xs \<noteq> [] \<Longrightarrow> foldr min xs (hd xs) = Min (set xs)" for xs :: "nat list"
proof -
  assume ne: "xs \<noteq> []"
  have "foldr min xs a = Min (insert a (set xs))" for a
    by (induction xs) (auto simp: insert_commute)
  then show ?thesis using ne by (simp add: insert_absorb)
qed

lemma foldr_max_Max: "xs \<noteq> [] \<Longrightarrow> foldr max xs 0 = Max (set xs)" for xs :: "nat list"
proof -
  assume ne: "xs \<noteq> []"
  have "foldr max xs a = Max (insert a (set xs))" for a
    by (induction xs) (auto simp: insert_commute)
  then show ?thesis using ne by simp
qed

lemma comparable_three_halves_window:
  assumes "\<forall>n \<in> set sizes. n < 2 ^ 51" and "start \<le> e" and "e < length sizes"
  shows "comparable sizes start e (F64 3 (-1)) \<longleftrightarrow>
    2 * Max (set (take (e + 1 - start) (drop start sizes))) \<le>
    3 * Min (set (take (e + 1 - start) (drop start sizes)))"
proof -
  let ?w = "take (e + 1 - start) (drop start sizes)"
  have ne: "?w \<noteq> []" using assms(2,3) by simp
  have mem: "Min (set ?w) \<in> set ?w" "Max (set ?w) \<in> set ?w" using ne by (simp_all only: Min_in Max_in List.finite_set set_empty not_False_eq_True)
  have sub: "set ?w \<subseteq> set sizes" by (meson set_drop_subset set_take_subset subset_trans)
  have small: "Min (set ?w) < 2 ^ 51" "Max (set ?w) < 2 ^ 51" using assms(1) mem sub by blast+
  have "comparable sizes start e (F64 3 (-1)) \<longleftrightarrow>
      \<not> f64_less (F64 (3 * int (Min (set ?w))) (-1)) (F64 (int (Max (set ?w))) 0)"
    unfolding comparable_def Let_def foldr_min_Min [OF ne] foldr_max_Max [OF ne]
    unfolding f64_mult_three_halves [OF small(1)] using small(2) by (simp add: f64_of_nat_exact)
  also have "\<dots> \<longleftrightarrow> 2 * Max (set ?w) \<le> 3 * Min (set ?w)"
    by (simp add: f64_less_def Let_def not_less) linarith
  finally show ?thesis .
qed

section \<open>Properties\<close>

text \<open>C23: a run that \<open>pick_run\<close> returns lies inside the set, is at least as long as asked (so that the
  assertions of \<open>compact\<close> hold for every threshold of two or more), consists of tables of comparable
  size, and stops only at the end of the set or before a table that is not comparable.\<close>

theorem pick_run_sound:
  assumes "pick_run s min_run ratio = Some (start, count)"
  shows "min_run \<le> count \<and> 1 \<le> count \<and> start + count \<le> length (tables s) \<and>
    (\<forall>e. start < e \<longrightarrow> e < start + count \<longrightarrow>
       comparable (map (\<lambda>t. length (file_data t)) (tables s)) start e ratio) \<and>
    (start + count < length (tables s) \<longrightarrow>
       \<not> comparable (map (\<lambda>t. length (file_data t)) (tables s)) start (start + count) ratio)"
  using pick_from_maximal [of "map (\<lambda>t. length (file_data t)) (tables s)" min_run ratio 0 start count]
    assms by (simp add: pick_run_def maximal_run_def)

theorem pick_run_sound_witness:
  "\<exists>start count. pick_run
     \<lparr>tables = map (\<lambda>n. \<lparr>path = [], file_data = replicate n 0, first_seq = n, last_seq = n, sparse_index = [],
        index_start = 0, min_key = [], max_key = [], key_filter = \<lparr>bits = [], num_bits = 0, num_probes = 0\<rparr>\<rparr>)
        [9, 10], set_dir = [], bits_per_key = 10, next_seq = 11\<rparr> 2 (F64 3 (-1)) = Some (start, count) \<and>
     start + count \<le> 2 \<and> 2 \<le> count"
proof -
  let ?s = "\<lparr>tables = map (\<lambda>n. \<lparr>path = [], file_data = replicate n 0, first_seq = n, last_seq = n, sparse_index = [],
        index_start = 0, min_key = [], max_key = [], key_filter = \<lparr>bits = [], num_bits = 0, num_probes = 0\<rparr>\<rparr>)
        [9, 10], set_dir = [], bits_per_key = 10, next_seq = 11\<rparr>"
  have c: "comparable [9, 10] 0 1 (F64 3 (-1))"
    using comparable_three_halves_window [of "[9, 10]" 0 1] by simp
  have "run_end [9, 10] (F64 3 (-1)) 0 1 = 2"
    by (subst run_end.simps, use c in simp) (subst run_end.simps, simp)
  then have "pick_run ?s 2 (F64 3 (-1)) = Some (0, 2)"
    by (simp add: pick_run_def pick_from.simps [of _ _ _ 0] Let_def)
  then show ?thesis using pick_run_sound by fastforce
qed

end
