(* ===== verification/Store.thy ===== *)
theory Store
  imports Db_Refine Pick_Run
begin

text \<open>
  What a user of the store can rely on, as statements about whole operations: the effect of writes
  and reads, recovery from a crash at any system call, the invisibility of the compactor thread;
  and three places where the code does less than its documentation or its callers expect.
\<close>

section \<open>An empty store\<close>

definition empty_db :: db where
  "empty_db =
     \<lparr>db_map = [], db_wal = \<lparr>wfile = WAL_NAME, wsync = True\<rparr>, db_size = 0,
      db_config = default_config, db_set = empty_set, db_rings = 0\<rparr>"

definition empty_store :: "sysres list \<Rightarrow> world" where
  "empty_store faults = world_of Directory [(WAL_NAME, [])] faults"

lemma empty_store_inv: "db_inv crc empty_db (empty_store faults) [] []"
  using WAL_not_table
  by (simp add: db_inv_def empty_db_def empty_store_def set_inv_def empty_set_def dir_clean_def)

lemma empty_store_room: "room empty_db"
  by (simp add: room_def empty_db_def)

lemma empty_store_get: "db_get empty_db k = Ok None"
  using db_get_view [OF empty_store_inv] by (simp add: view_def)

lemma demo_fits: "write_fits ([1], Some [7])" "write_fits ([1], None)"
  by (simp_all add: write_fits_def)

lemma empty_store_simps [simp]: "env (empty_store faults) = faults" "calm (empty_store []) = empty_store []"
  by (simp_all add: empty_store_def calm_def)

lemma demo_small: "small_write empty_db (empty_store faults) ([1], Some [7])"
  "small_write empty_db (empty_store faults) ([1], None)"
  by (simp_all add: small_write_def empty_db_def empty_store_def contents_def MAX_FILE_SIZE_def
      small_table_def)

lemma db_get_inv_view: "db_inv crc db w ess ws \<Longrightarrow> db_get db = (\<lambda>k. Ok (view ess ws k))"
  using db_get_view by blast

section \<open>Writes\<close>

text \<open>C1: crash safety of writes. A put or delete is run against any behaviour of the system: every
  call may fail or kill the process in the middle. The process that opens the directory next comes
  up, and sees either exactly the old contents or the old contents with this one write; once the
  write has reported success it sees the write.\<close>

theorem write_crash_safe:
  assumes "db_inv crc db w ess ws" and "room db" and "write_fits (k, v)"
    and "write_op crc (k, v) db w = (r, db', w')"
  shows "\<exists>db2 w2. with_config crc cfg (calm w') = (Ok db2, w2) \<and>
    (db_get db2 = db_get db \<or> db_get db2 = (db_get db)(k := Ok v)) \<and>
    (r = Ok () \<longrightarrow> db_get db2 = (db_get db)(k := Ok v))"
proof -
  note old = db_get_inv_view [OF assms(1)]
  have root: "root w' = Directory" using write_op_root [OF assms] .
  show ?thesis
  proof (cases "r = Ok ()")
    case True
    obtain ess' ws' where e: "db_inv crc db' w' ess' ws'" "view ess' ws' = (view ess ws)(k := v)"
      using db_write_effect(2) [OF assms True] by blast
    obtain db2 w2 where "with_config crc cfg (calm w') = (Ok db2, w2)" "db_inv crc db2 w2 ess' ws'"
      using reopen_db_inv [OF e(1)] by blast
    then show ?thesis using db_get_inv_view [of crc db2 w2 ess' ws'] e(2) old by (auto simp: fun_eq_iff)
  next
    case False
    then show ?thesis
      using db_write_effect(1) [OF assms] reopen_disk_view [OF _ root, of crc _ cfg] old
      by (fastforce simp: fun_eq_iff)
  qed
qed

theorem write_crash_safe_witness:
  "\<exists>r db' w' db2 w2. write_op (\<lambda>bs. 0) ([1], Some [7]) empty_db (empty_store [Kill 9]) = (r, db', w') \<and>
     with_config (\<lambda>bs. 0) default_config (calm w') = (Ok db2, w2) \<and>
     (db_get db2 [1] = Ok None \<or> db_get db2 [1] = Ok (Some [7]))"
proof -
  obtain r db' w' where
    op: "write_op (\<lambda>bs. 0) ([1], Some [7]) empty_db (empty_store [Kill 9]) = (r, db', w')"
    by (metis prod_cases3)
  from write_crash_safe [OF empty_store_inv empty_store_room demo_fits(1) op, of default_config] op
  show ?thesis using empty_store_get by (metis fun_upd_apply)
qed

text \<open>C14: a put that returns \<open>Ok\<close>, with or without a flush, changes the value of its key to the one
  given and of no other key, and leaves the store in a state where all of this applies again.\<close>

theorem put_refines_map:
  assumes "db_inv crc db w ess ws" and "room db" and "write_fits (k, Some v)"
    and "put crc k v db w = (Ok (), db', w')"
  shows "db_get db' = (db_get db)(k := Ok (Some v)) \<and> (\<exists>ess' ws'. db_inv crc db' w' ess' ws')"
proof -
  have "write_op crc (k, Some v) db w = (Ok (), db', w')" using assms(4) by (simp add: write_op_def)
  from db_write_effect(2) [OF assms(1-3) this refl] show ?thesis
    using db_get_inv_view assms(1) by (force simp: fun_eq_iff)
qed

theorem put_refines_map_witness:
  "\<exists>db' w'. put (\<lambda>bs. 0) [1] [7] empty_db (empty_store []) = (Ok (), db', w') \<and>
     db_get db' [1] = Ok (Some [7]) \<and> db_get db' [2] = Ok None"
proof -
  obtain db' w' where op: "put (\<lambda>bs. 0) [1] [7] empty_db (empty_store []) = (Ok (), db', w')"
    using db_write_calm [OF _ empty_store_inv empty_store_room demo_fits(1) demo_small(1), of "[]" "\<lambda>bs. 0"]
    by (auto simp: write_op_def)
  from put_refines_map [OF empty_store_inv empty_store_room demo_fits(1) op] op empty_store_get
  show ?thesis by auto
qed

text \<open>C15: a delete that returns \<open>Ok\<close> removes its key, also when older values of it are in tables, and
  changes no other key.\<close>

theorem delete_refines_map:
  assumes "db_inv crc db w ess ws" and "room db" and "write_fits (k, None)"
    and "delete crc k db w = (Ok (), db', w')"
  shows "db_get db' = (db_get db)(k := Ok None) \<and> (\<exists>ess' ws'. db_inv crc db' w' ess' ws')"
proof -
  have "write_op crc (k, None) db w = (Ok (), db', w')" using assms(4) by (simp add: write_op_def)
  from db_write_effect(2) [OF assms(1-3) this refl] show ?thesis
    using db_get_inv_view assms(1) by (force simp: fun_eq_iff)
qed

theorem delete_refines_map_witness:
  "\<exists>db' w'. delete (\<lambda>bs. 0) [1] empty_db (empty_store []) = (Ok (), db', w') \<and>
     db_get db' [1] = Ok None \<and> db_get db' [2] = Ok None"
proof -
  obtain db' w' where op: "delete (\<lambda>bs. 0) [1] empty_db (empty_store []) = (Ok (), db', w')"
    using db_write_calm [OF _ empty_store_inv empty_store_room demo_fits(2) demo_small(2), of "[]" "\<lambda>bs. 0"]
    by (auto simp: write_op_def)
  from delete_refines_map [OF empty_store_inv empty_store_room demo_fits(2) op] op empty_store_get
  show ?thesis by auto
qed

text \<open>C20: progress. Without faults, and while log and tables stay below the largest file there can be,
  a write returns \<open>Ok\<close>, whether or not it flushes.\<close>

theorem write_returns:
  assumes "env w = []" and "db_inv crc db w ess ws" and "room db" and "write_fits e"
    and "small_write db w e"
  shows "\<exists>db' w'. write_op crc e db w = (Ok (), db', w')"
  using assms by (rule db_write_calm)

theorem write_returns_witness:
  "\<exists>db' w'. write_op (\<lambda>bs. 0) ([1], Some [7]) empty_db (empty_store []) = (Ok (), db', w')"
  by (rule write_returns [OF _ empty_store_inv empty_store_room demo_fits(1) demo_small(1)]) simp

section \<open>Opening and recovery\<close>

text \<open>C18: closing a store at any moment between operations and opening its directory again gives a
  store with the same contents, under any configuration.\<close>

theorem reopen_same_contents:
  assumes "db_inv crc db w ess ws"
  shows "\<exists>db' w'. with_config crc cfg (calm w) = (Ok db', w') \<and> db_get db' = db_get db \<and>
    db_inv crc db' w' ess ws"
  using reopen_db_inv [OF assms, of cfg] db_get_inv_view assms by metis

theorem reopen_same_contents_witness:
  "\<exists>db' w'. with_config (\<lambda>bs. 0) default_config (empty_store []) = (Ok db', w') \<and> db_get db' [1] = Ok None"
  using reopen_same_contents [OF empty_store_inv [of _ "[]"], of "\<lambda>bs. 0" default_config] empty_store_get
  by auto

text \<open>Opening a path that does not exist, or an empty directory, gives an empty store.\<close>

lemma open_fresh_store:
  assumes "root w = Absent \<or> root w = Directory \<and> dir w = []" and "env w = []"
  shows "\<exists>db w'. with_config crc cfg w = (Ok db, w') \<and> (\<forall>k. db_get db k = Ok None) \<and>
    root w' = Directory \<and> db_inv crc db w' [] []"
  using fresh_db_inv [OF assms, of crc cfg] db_get_view
  by (fastforce simp: db_inv_def view_def)

lemma open_fresh_store_witness:
  "\<exists>db w'. with_config (\<lambda>bs. 0) default_config (world_of Absent [] []) = (Ok db, w') \<and>
     db_get db [1] = Ok None"
  using open_fresh_store [of "world_of Absent [] []" "\<lambda>bs. 0" default_config] by auto

text \<open>A data path that is a regular file is refused with an error that names it, and nothing is
  touched.\<close>

lemma open_refuses_regular_file:
  assumes "root w = RegularFile"
  shows "with_config crc cfg w = (Err AlreadyExists (cfg_path cfg @
    str '' exists but is not a directory -- lsmrs needs a directory for its data''), w)"
  using assms by (simp add: with_config_def del: str_simps)

theorem open_refuses_regular_file_witness:
  "\<exists>m. db_open (\<lambda>bs. 0) (world_of RegularFile [] []) =
     (Err AlreadyExists m, (world_of RegularFile [] []))"
  using open_refuses_regular_file [of "world_of RegularFile [] []" "\<lambda>bs. 0" default_config]
  by (auto simp: db_open_def)

section \<open>The compactor\<close>

text \<open>C16: a turn of the compactor thread is invisible: whatever fails in it, and wherever the process
  dies in it, the running store answers every get as before, and so does the next process.\<close>

theorem compactor_invisible:
  assumes "db_inv crc db w ess ws" and "compactor_turn db w = (r, db', w')"
  shows "db_get db' = db_get db \<and>
    (\<exists>db2 w2. with_config crc cfg (calm w') = (Ok db2, w2) \<and> db_get db2 = db_get db)"
proof -
  note eff = compactor_turn_effect [OF assms]
  from reopen_disk_view [OF eff(2,3), of cfg] show ?thesis
    using eff(1) db_get_inv_view [OF assms(1)] by (auto simp: fun_eq_iff)
qed

theorem compactor_invisible_witness:
  "\<exists>r db' w'. compactor_turn (empty_db\<lparr>db_rings := 1\<rparr>) (empty_store [Kill 0]) = (r, db', w') \<and>
     db_get db' [1] = Ok None"
proof -
  have inv: "db_inv (\<lambda>bs. 0) (empty_db\<lparr>db_rings := 1\<rparr>) (empty_store [Kill 0]) [] []"
    using empty_store_inv [of "\<lambda>bs. 0"] by (simp add: db_inv_def)
  have get: "db_get (empty_db\<lparr>db_rings := 1\<rparr>) [1] = Ok None"
    using db_get_view [OF inv] by (simp add: view_def)
  obtain r db' w' where
    op: "compactor_turn (empty_db\<lparr>db_rings := 1\<rparr>) (empty_store [Kill 0]) = (r, db', w')"
    by (metis prod_cases3)
  from compactor_invisible [OF inv op] get op show ?thesis by auto
qed

section \<open>Where the code does less than expected\<close>

text \<open>
  The live entries of a memtable, in key order.
\<close>

lemma scan_facts:
  assumes "key_sorted (db_map db)"
  shows "key_sorted (scan db)" and "map_of (scan db) k = live (map_of (db_map db) k)"
proof -
  have "key_sorted (List.map_filter f m) \<and> fst ` set (List.map_filter f m) \<subseteq> fst ` set m \<and>
      map_of (List.map_filter f m) k = live (map_of m k)"
    if f: "f = (\<lambda>(k, v). case v of Some x \<Rightarrow> Some (k, x) | None \<Rightarrow> None)" and m: "key_sorted m" for f and m :: memtable
    using m
  proof (induction m)
    case Nil
    then show ?case by (simp add: List.map_filter_def)
  next
    case (Cons e m)
    obtain a v where e: "e = (a, v)" by (cases e)
    have "map_of m a = None" using Cons.prems e by (intro map_of_below) auto
    moreover have "List.map_filter f (e # m) =
        (case v of Some x \<Rightarrow> (a, x) # List.map_filter f m | None \<Rightarrow> List.map_filter f m)"
      by (cases v) (simp_all add: e f List.map_filter_def)
    moreover have IH: "key_sorted (List.map_filter f m)" "fst ` set (List.map_filter f m) \<subseteq> fst ` set m"
      "map_of (List.map_filter f m) k = live (map_of m k)"
      using Cons by simp_all
    moreover have "\<forall>x \<in> fst ` set (List.map_filter f m). a < x"
    proof -
      have "\<forall>x \<in> fst ` set m. a < x" using Cons.prems e by simp
      then show ?thesis using IH(2) by blast
    qed
    ultimately show ?case using e by (cases v) auto
  qed
  from this [OF refl assms] show "key_sorted (scan db)" "map_of (scan db) k = live (map_of (db_map db) k)"
    by (simp_all add: scan_def)
qed

lemma flush_same_view:
  assumes "db_inv crc db w ess ws" and "room db" and "flush db w = (Ok (), db', w')"
  shows "db_map db' = [] \<and> db_get db' = db_get db"
proof -
  have wal: "wfile (db_wal db) = WAL_NAME" "db_map db = apply_writes ws" using assms(1) by (simp_all add: db_inv_def)
  have map: "db_map db' = []" using assms(3) by (auto simp: flush_def Let_def split: prod.splits res.splits)
  show ?thesis
  proof (cases "ws = []")
    case True
    then have "db_set db' = db_set db" "db_map db = []"
      using assms(3) wal by (auto simp: flush_def set_write_def Let_def split: prod.splits res.splits)
    then show ?thesis using map by (simp add: db_get_def fun_eq_iff split: option.split)
  next
    case False
    from resting.flush_keeps(2) [folded db_inv_store, OF assms(1,2) False assms(3)]
    have "db_inv crc db' w' (ess @ [apply_writes ws]) []" by simp
    then show ?thesis
      using map db_get_inv_view [OF assms(1)] db_get_inv_view view_flushed [of ess ws] by simp
  qed
qed

text \<open>C40: \<open>scan\<close> lists the live keys of the memtable in order, each once with its value, and nothing
  else: a flush that succeeds changes no get, and after it \<open>scan\<close> is empty.\<close>

theorem scan_sees_memtable_only:
  assumes "db_inv crc db w ess ws" and "room db" and "flush db w = (Ok (), db', w')"
  shows "key_sorted (scan db) \<and> (\<forall>k. map_of (scan db) k = live (map_of (rev ws) k)) \<and>
    scan db' = [] \<and> db_get db' = db_get db"
proof -
  have m: "db_map db = apply_writes ws" using assms(1) by (simp add: db_inv_def)
  then have "key_sorted (db_map db)" using apply_writes_sorted by simp
  from scan_facts [OF this] show ?thesis
    using m flush_same_view [OF assms] by (auto simp: map_of_apply_writes scan_def List.map_filter_def)
qed

theorem scan_sees_memtable_only_witness:
  "\<exists>db w db' w'. write_op (\<lambda>bs. 0) ([1], Some [7]) empty_db (empty_store []) = (Ok (), db, w) \<and>
     flush db w = (Ok (), db', w') \<and> map_of (scan db) [1] = Some [7] \<and> scan db' = [] \<and> db_get db' [1] = Ok (Some [7])"
proof -
  let ?crc = "\<lambda>bs. 0 :: u32" and ?e = "([1], Some [7]) :: entry"
  have "length (contents (dir (empty_store [])) (wfile (db_wal empty_db))) + length (frame ?crc (wrec ?e)) \<le> MAX_FILE_SIZE"
    by (simp add: contents_def wrec_def MAX_FILE_SIZE_def empty_db_def empty_store_def)
  from wal_append_calm [OF _ record_fits_wrec [OF demo_fits(1)] this] obtain w where
    w: "wal_append ?crc (db_wal empty_db) (wkey (wrec ?e)) (wvalue (wrec ?e)) (woperation (wrec ?e)) (empty_store []) = (Ok (), w)"
    "env w = []" by auto
  let ?db = "logged ?e empty_db"
  have op: "write_op ?crc ?e empty_db (empty_store []) = (Ok (), ?db, w)"
    using w(1) by (simp add: write_op_logged logged_def empty_db_def default_config_def)
  obtain ess ws where e: "db_inv ?crc ?db w ess ws" "view ess ws = (view [] [])([1] := Some [7])"
    using db_write_effect(2) [OF empty_store_inv empty_store_room demo_fits(1) op refl] by blast
  have ok: "small_table (bits_per_key (db_set ?db)) (db_map ?db)" "room ?db" "db_map ?db \<noteq> []"
    by (simp_all add: empty_db_def empty_set_def small_table_def room_def)
  then obtain db' w' where f: "flush ?db w = (Ok (), db', w')" using flush_calm [OF w(2) ok(3,1,2)] by blast
  from scan_sees_memtable_only [OF e(1) ok(2) f] have
    s: "\<forall>k. map_of (scan ?db) k = live (map_of (rev ws) k)" "scan db' = []" "db_get db' = db_get ?db" by blast+
  have "map_of (scan ?db) [1] = Some [7]"
    by (simp add: scan_def List.map_filter_def empty_db_def)
  moreover have "db_get db' [1] = Ok (Some [7])" using s(3) db_get_view [OF e(1), of "[1]"] e(2) by simp
  ultimately show ?thesis using op f s(2) by blast
qed


text \<open>A reopened store has replayed its log into the memtable but counts its size from zero: the
  memtable grows up to one more threshold before it is flushed.\<close>

theorem reopen_forgets_size:
  assumes "db_inv crc db w ess ws"
  shows "\<exists>db' w'. with_config crc cfg (calm w) = (Ok db', w') \<and> db_map db' = db_map db \<and> db_size db' = 0"
proof -
  have log: "contents (dir w) WAL_NAME = frames crc (map wrec ws) @ []"
    using assms by (simp add: db_inv_def contents_def)
  show ?thesis
    using with_config_calm [of "calm w" ess ws crc "[]" cfg] assms log set_inv_disk_state
    by (fastforce simp: db_inv_def)
qed

theorem reopen_forgets_size_witness:
  "\<exists>db' w' db2 w2. write_op (\<lambda>bs. 0) ([1], Some [7]) empty_db (empty_store []) = (Ok (), db', w') \<and>
     with_config (\<lambda>bs. 0) default_config (calm w') = (Ok db2, w2) \<and>
     db_map db2 = db_map db' \<and> db_size db2 = 0"
proof -
  obtain db' w' where op: "write_op (\<lambda>bs. 0) ([1], Some [7]) empty_db (empty_store []) = (Ok (), db', w')"
    using db_write_calm [OF _ empty_store_inv empty_store_room demo_fits(1) demo_small(1), of "[]" "\<lambda>bs. 0"] by auto
  obtain ess' ws' where e: "db_inv (\<lambda>bs. 0) db' w' ess' ws'"
    using db_write_effect(2) [OF empty_store_inv empty_store_room demo_fits(1) op refl] by blast
  from reopen_forgets_size [OF e, of default_config] op show ?thesis by blast
qed

text \<open>C37: a torn record at the end of the log costs later acknowledged writes. The store opens over it
  (the tail is not cut off), a put succeeds and is seen, and after the next open it is gone: the
  replay stops at the torn record, which claims more bytes than the put appended.\<close>

theorem torn_log_loses_acknowledged_put:
  assumes "env w = []" and "root w = Directory" and "disk_state (dir w) ess"
    and "\<forall>e \<in> set ws. write_fits e" and "record_fits x" and "4 \<le> n"
    and "contents (dir w) WAL_NAME = frames crc (map wrec ws) @ take n (frame crc x)"
    and "n + 17 + length k + length v < length (frame crc x)"
    and "length k + length v \<le> cfg_table_size cfg"
    and "length (contents (dir w) WAL_NAME) + 17 + length k + length v \<le> MAX_FILE_SIZE"
  shows "\<exists>db w1 db' w' db2 w2. with_config crc cfg w = (Ok db, w1) \<and>
    put crc k v db w1 = (Ok (), db', w') \<and> db_get db' k = Ok (Some v) \<and>
    with_config crc cfg (calm w') = (Ok db2, w2) \<and> db_get db2 k = Ok (view ess ws k)"
proof -
  let ?e = "(k, Some v) :: entry"
  have fits: "write_fits ?e"
    using assms(5,8) by (simp add: write_fits_def record_fits_def)
  have torn: "torn crc (take n (frame crc x))"
    using assms(5,8) unfolding torn_def by (intro exI [of _ x] exI [of _ n]) simp
  obtain db w1 where o: "with_config crc cfg w = (Ok db, w1)" "set_inv (db_set db) ess (dir w1)"
    "db_map db = apply_writes ws" "db_size db = 0" "db_config db = cfg"
    "db_wal db = \<lparr>wfile = WAL_NAME, wsync = cfg_sync cfg\<rparr>"
    "map_of (dir w1) WAL_NAME = Some (frames crc (map wrec ws) @ take n (frame crc x))"
    "root w1 = Directory" "env w1 = []"
    using with_config_calm [OF assms(1-4) torn assms(7), of cfg] by blast
  have cont: "contents (dir w1) WAL_NAME = contents (dir w) WAL_NAME"
    using o(7) assms(7) by (simp add: contents_def)
  obtain w2 where ap: "wal_append crc (db_wal db) (wkey (wrec ?e)) (wvalue (wrec ?e)) (woperation (wrec ?e)) w1 =
      (Ok (), w2)" "env w2 = []"
    using wal_append_calm [OF o(9) record_fits_wrec [OF fits], of "db_wal db" crc] assms(10) cont o(6)
    by (auto simp: wrec_def)
  note we = wal_append_effect [OF ap(1) record_fits_wrec [OF fits]]
  let ?db = "db\<lparr>db_size := length k + length v, db_map := bt_insert k (Some v) (db_map db)\<rparr>"
  have pt: "put crc k v db w1 = (Ok (), ?db, w2)"
    using ap(1) o(4,5) assms(9) write_op_unfold [of crc ?e db w1]
    by (simp add: write_op_def apply_write_def Let_def)
  have log2: "contents (dir w2) WAL_NAME =
      frames crc (map wrec ws) @ take n (frame crc x) @ frame crc (wrec ?e)"
    using we(3) o(6,7) by (simp add: contents_def)
  have state: "disk_state (dir w2) ess"
    using same_except_disk_state [OF we(1) _ set_inv_disk_state [OF o(2)]] o(6) WAL_not_table by simp
  have root2: "root w2 = Directory" using we(1) o(8) by (simp add: same_except_def)
  have read: "read_loop crc (contents (dir w2) WAL_NAME) [] = Ok (map wrec ws)"
    unfolding log2 using assms(4,5,6,8) record_fits_wrec
    by (intro read_loop_torn_append) (auto simp: wrec_def)
  obtain db2 w3 where o2: "with_config crc cfg (calm w2) = (Ok db2, w3)"
    "set_inv (db_set db2) ess (dir w3)" "db_map db2 = apply_writes ws"
    using with_config_replay [of "calm w2" ess crc "map wrec ws" cfg] state root2 read
    by (auto simp: replay_wrec)
  have "db_get ?db k = Ok (Some v)"
    using map_of_bt_insert [of "apply_writes ws" k "Some v"] apply_writes_sorted o(3)
    by (simp add: db_get_def bt_get_def)
  then show ?thesis using o(1) pt o2(1) db_get_opened [OF o2(2,3)] by blast
qed

theorem torn_log_loses_acknowledged_put_witness:
  "\<exists>db w1 db' w' db2 w2. with_config (\<lambda>bs. 0) default_config
       (world_of Directory [(WAL_NAME, take 4 (frame (\<lambda>bs. 0)
          \<lparr>wkey = [1, 2, 3, 4], wvalue = [5, 6, 7], woperation = Insert\<rparr>))] []) = (Ok db, w1) \<and>
     put (\<lambda>bs. 0) [1] [7] db w1 = (Ok (), db', w') \<and> db_get db' [1] = Ok (Some [7]) \<and>
     with_config (\<lambda>bs. 0) default_config (calm w') = (Ok db2, w2) \<and> db_get db2 [1] = Ok None"
proof -
  let ?x = "\<lparr>wkey = [1, 2, 3, 4], wvalue = [5, 6, 7], woperation = Insert\<rparr>"
  let ?w = "world_of Directory [(WAL_NAME, take 4 (frame (\<lambda>bs. 0) ?x))] []"
  have "disk_state (dir ?w) []"
    unfolding disk_state_def using WAL_not_table
    by (intro exI [of _ "[]"] exI [of _ 0]) (simp add: dir_matches_def)
  from torn_log_loses_acknowledged_put [of ?w "[]" "[]" ?x 4 "\<lambda>bs. 0" "[1]" "[7]" default_config, OF _ _ this]
  show ?thesis
    by (simp add: record_fits_def contents_def default_config_def MAX_FILE_SIZE_def view_def)
qed

section \<open>The default size ratio\<close>

text \<open>With the default ratio of 1.5 the floating point comparison of \<open>pick_run\<close> is exact for files
  below \<open>2 ^ 51\<close> bytes: a window of tables passes if and only if no table is more than one and a half
  times as large as another.\<close>

lemma default_ratio_exact:
  assumes "\<forall>n \<in> set sizes. n < 2 ^ 51" and "start \<le> e" and "e < length sizes"
  shows "comparable sizes start e (cfg_ratio default_config) \<longleftrightarrow>
    (\<forall>a \<in> set (take (e + 1 - start) (drop start sizes)).
     \<forall>b \<in> set (take (e + 1 - start) (drop start sizes)). 2 * a \<le> 3 * b)"
proof -
  let ?w = "set (take (e + 1 - start) (drop start sizes))"
  have ne: "?w \<noteq> {}" using assms(2,3) by simp
  have "2 * Max ?w \<le> 3 * Min ?w \<longleftrightarrow> (\<forall>a \<in> ?w. \<forall>b \<in> ?w. 2 * a \<le> 3 * b)"
  proof
    assume le: "2 * Max ?w \<le> 3 * Min ?w"
    show "\<forall>a \<in> ?w. \<forall>b \<in> ?w. 2 * a \<le> 3 * b"
    proof (intro ballI)
      fix a b assume "a \<in> ?w" "b \<in> ?w"
      then have "a \<le> Max ?w" "Min ?w \<le> b" by simp_all
      then show "2 * a \<le> 3 * b" using le by linarith
    qed
  next
    assume "\<forall>a \<in> ?w. \<forall>b \<in> ?w. 2 * a \<le> 3 * b"
    moreover have "Max ?w \<in> ?w" "Min ?w \<in> ?w" using ne by (simp_all only: Max_in Min_in List.finite_set not_False_eq_True)
    ultimately show "2 * Max ?w \<le> 3 * Min ?w" by blast
  qed
  then show ?thesis
    using comparable_three_halves_window [OF assms] by (simp add: default_config_def)
qed

lemma default_ratio_exact_witness:
  "\<not> comparable [100, 151] 0 1 (cfg_ratio default_config) \<and> comparable [100, 150] 0 1 (cfg_ratio default_config)"
  using default_ratio_exact [of "[100, 151]" 0 1] default_ratio_exact [of "[100, 150]" 0 1] by simp

end
