(* ===== verification/Phases.thy ===== *)
theory Phases
  imports Store
begin

text \<open>
  A compaction in its phases, for theory Interleaving: what the set, its entries and the directory have to do
  with each other between any two system calls of \<open>compact\<close> (\<^verbatim>\<open>src/src/sstable.rs\<close>), that the writer can
  write and flush in every phase, and what each call of the compactor leaves, whatever its outcome.
\<close>

section \<open>The phases\<close>

text \<open>The calls of \<open>write_table\<close>, by the one that comes next.\<close>

datatype stage = To_create | To_fill | To_sync | To_rename | To_sync_dir

fun next_stage :: "stage \<Rightarrow> stage option" where
  "next_stage To_create = Some To_fill"
| "next_stage To_fill = Some To_sync"
| "next_stage To_sync = Some To_rename"
| "next_stage To_rename = Some To_sync_dir"
| "next_stage To_sync_dir = None"

text \<open>The stages in the order of the code; a call is before another if it has more of them to come.\<close>

fun stages_left :: "stage \<Rightarrow> nat" where
  "stages_left To_create = 4"
| "stages_left To_fill = 3"
| "stages_left To_sync = 2"
| "stages_left To_rename = 1"
| "stages_left To_sync_dir = 0"

lemma stages_left_next: "stages_left g = (case next_stage g of None \<Rightarrow> 0 | Some h \<Rightarrow> Suc (stages_left h))"
  by (cases g) auto

lemma stages_left_inject: "stages_left g = stages_left h \<longleftrightarrow> g = h"
  by (cases g; cases h) auto

instantiation stage :: linorder
begin

definition less_eq_stage :: "stage \<Rightarrow> stage \<Rightarrow> bool" where
  "g \<le> h \<longleftrightarrow> stages_left h \<le> stages_left g"

definition less_stage :: "stage \<Rightarrow> stage \<Rightarrow> bool" where
  "g < h \<longleftrightarrow> stages_left h < stages_left g"

instance
  by standard (auto simp: less_eq_stage_def less_stage_def stages_left_inject)

end

lemma stage_order [simp]:
  "g \<le> To_sync_dir" "To_create \<le> g" "To_sync \<le> g \<longleftrightarrow> g \<in> {To_sync, To_rename, To_sync_dir}"
  "g < To_sync \<longleftrightarrow> g = To_create \<or> g = To_fill" "g < To_sync_dir \<longleftrightarrow> g \<noteq> To_sync_dir"
  by (cases g; simp add: less_eq_stage_def less_stage_def)+

fun table_call :: "sstable \<Rightarrow> stage \<Rightarrow> unit io" where
  "table_call t To_create = sys_create (tmp_name (span_of t))"
| "table_call t To_fill = sys_append (tmp_name (span_of t)) (file_data t)"
| "table_call t To_sync = sys_sync (tmp_name (span_of t))"
| "table_call t To_rename = sys_rename (tmp_name (span_of t)) (sst_name (span_of t))"
| "table_call t To_sync_dir = sys_sync_dir"

text \<open>
  Where the compactor is: waiting, writing the merged table of a run, between that and the swap, or
  unlinking.
\<close>

datatype phase =
    Idle
  | Writing nat nat sstable stage
  | Merged nat nat "sstable option"
  | Unlinking "sstable list"

text \<open>After a call of \<open>write_table\<close>.\<close>

definition after_call :: "nat \<Rightarrow> nat \<Rightarrow> sstable \<Rightarrow> stage \<Rightarrow> phase" where
  "after_call start count t g =
     (case next_stage g of Some g' \<Rightarrow> Writing start count t g' | None \<Rightarrow> Merged start count (Some t))"

section \<open>The invariant of each phase\<close>

text \<open>The table files on the disk that the set does not have.\<close>

fun extra :: "phase \<Rightarrow> sstable list" where
  "extra Idle = []"
| "extra (Writing start count t g) = (if g = To_sync_dir then [t] else [])"
| "extra (Merged start count replacement) = option_list replacement"
| "extra (Unlinking us) = us"

definition all_dead :: "entry list list \<Rightarrow> bool" where
  "all_dead ess \<longleftrightarrow> (\<forall>k. live (newest ess k) = None)"

text \<open>The span of a merged table is that of its run, and its entries are the newest of its run.\<close>

definition covers :: "sstable \<Rightarrow> nat \<Rightarrow> nat \<Rightarrow> sstable list \<Rightarrow> bool" where
  "covers t start count ts \<longleftrightarrow>
     2 \<le> count \<and> start + count \<le> length ts \<and>
     span_of t = (first_seq (hd (take count (drop start ts))), last_seq (last (take count (drop start ts))))"

definition merges :: "sstable \<Rightarrow> nat \<Rightarrow> nat \<Rightarrow> entry list list \<Rightarrow> bool" where
  "merges t start count ess \<longleftrightarrow>
     (\<exists>M. wf_table t M \<and> (\<forall>k. map_of M k = visible (start = 0) (newest (take count (drop start ess)) k)))"

text \<open>A table that is stored by its file, once there is one of that name.\<close>

definition storable :: "sstable \<Rightarrow> bool" where
  "storable t \<longleftrightarrow> stored [(sst_name (span_of t), file_data t)] t"

text \<open>
  The run that was merged is still where it was; an unlinked table is covered by one of the set, or is
  the oldest of a run with nothing alive in it. A table that is too large for a file does not get beyond
  the second call.
\<close>

fun side :: "phase \<Rightarrow> sstable_set \<Rightarrow> entry list list \<Rightarrow> bool" where
  "side Idle s ess \<longleftrightarrow> True"
| "side (Writing start count t g) s ess \<longleftrightarrow>
     covers t start count (tables s) \<and>
     (length (file_data t) \<le> MAX_FILE_SIZE \<longrightarrow> storable t \<and> merges t start count ess)"
| "side (Merged start count None) s ess \<longleftrightarrow>
     2 \<le> count \<and> start + count \<le> length (tables s) \<and> start = 0 \<and> all_dead (take count ess)"
| "side (Merged start count (Some t)) s ess \<longleftrightarrow> covers t start count (tables s) \<and> merges t start count ess"
| "side (Unlinking us) s ess \<longleftrightarrow>
     (\<forall>u \<in> set us. \<exists>t \<in> set (tables s). strictly_within (span_of u) (span_of t)) \<or>
     (\<exists>eus. list_all2 wf_table us eus \<and> all_dead eus \<and> spans_ok (next_seq s) (us @ tables s))"

text \<open>What the temporary file has.\<close>

fun drafted :: "phase \<Rightarrow> directory \<Rightarrow> bool" where
  "drafted (Writing start count t g) d \<longleftrightarrow>
     (g = To_fill \<longrightarrow> map_of d (tmp_name (span_of t)) = Some []) \<and>
     (g \<in> {To_sync, To_rename} \<longrightarrow> map_of d (tmp_name (span_of t)) = Some (file_data t)) \<and>
     (To_sync \<le> g \<longrightarrow> length (file_data t) \<le> MAX_FILE_SIZE)"
| "drafted _ d \<longleftrightarrow> True"

definition phase_inv :: "phase \<Rightarrow> sstable_set \<Rightarrow> entry list list \<Rightarrow> directory \<Rightarrow> bool" where
  "phase_inv ph s ess d \<longleftrightarrow> held s ess (extra ph) d \<and> side ph s ess \<and> drafted ph d"

lemma phase_inv_Idle: "phase_inv Idle = set_inv"
  by (simp add: phase_inv_def held_Nil fun_eq_iff)

lemma held_lengths: "held s ess xs d \<Longrightarrow> length ess = length (tables s)"
  unfolding held_def by (metis list_all2_lengthD)

lemma covers_flushed: "covers t start count ts \<Longrightarrow> covers t start count (ts @ us)"
  by (simp add: covers_def)

lemma merges_flushed:
  "merges t start count ess \<Longrightarrow> start + count \<le> length ess \<Longrightarrow> merges t start count (ess @ fs)"
  by (simp add: merges_def)

lemma side_flushed:
  assumes "side ph s ess" and "length ess = length (tables s)" and "spans_ok (next_seq s) (tables s)"
    and "first_seq t = next_seq s" and "last_seq t = next_seq s" and "next_seq s + 1 < 2 ^ 64"
  shows "side ph (s\<lparr>tables := tables s @ [t], next_seq := next_seq s + 1\<rparr>) (ess @ [m])"
proof (cases ph)
  case (Writing start count u g)
  then show ?thesis using assms(1,2) by (auto simp: covers_flushed merges_flushed covers_def)
next
  case (Merged start count replacement)
  then show ?thesis
    using assms(1,2) by (cases replacement) (auto simp: covers_flushed merges_flushed covers_def)
next
  case (Unlinking us)
  have "spans_ok (next_seq s + 1) (us @ tables s @ [t])" if "spans_ok (next_seq s) (us @ tables s)"
    using spans_ok_snoc [OF that assms(4-6)] by simp
  then show ?thesis using assms(1) Unlinking by fastforce
qed simp

section \<open>What the disk stands for in each phase\<close>

lemma dir_matches_within:
  assumes "dir_clean d all" and "set us \<subseteq> set all"
    and "\<forall>u \<in> set all. u \<in> set us \<or> (\<exists>t \<in> set us. strictly_within (span_of u) (span_of t))"
    and "\<forall>u \<in> set all. fst (span_of u) < 2 ^ 64 \<and> snd (span_of u) < 2 ^ 64"
  shows "dir_matches d us"
  unfolding dir_matches_def
proof (intro conjI ballI impI)
  show "stored d t" if "t \<in> set us" for t
    using assms(1,2) that by (auto simp: dir_clean_def)
  show "distinct (map fst d)" using assms(1) by (simp add: dir_clean_def)
  fix n assume n: "n \<in> fst ` set d" "extension n = Some (str ''sst'')"
  then obtain u where u: "u \<in> set all" "n = path u" using assms(1) unfolding dir_clean_def by blast
  then have "stored d u" using assms(1) by (simp add: dir_clean_def)
  then have "parse_span n = Some (span_of u)" using u assms(4) by (simp add: stored_def parse_span_sst_name_eq)
  then show "n \<in> path ` set us \<or> leftover us n"
    using assms(3) u by (auto simp: leftover_def strictly_within_def)
qed

lemma live_eq_dead: "all_dead eus \<Longrightarrow> live_eq (eus @ ess) ess"
  unfolding live_eq_def all_dead_def
proof
  fix k assume "\<forall>k. live (newest eus k) = None"
  then show "live (newest (eus @ ess) k) = live (newest ess k)"
    by (cases "newest ess k") (auto simp: map_add_def live_def split: option.splits dest: spec [of _ k])
qed

lemma all_dead_Cons: "all_dead (e # eus) \<Longrightarrow> all_dead eus"
  unfolding all_dead_def
proof
  fix k assume "\<forall>k. live (newest (e # eus) k) = None"
  then have "live (newest (e # eus) k) = None" by blast
  then show "live (newest eus k) = None"
    by (cases "newest eus k") (auto simp: map_add_def live_def split: option.splits)
qed

lemma visible_dead: "visible True x = None \<longleftrightarrow> live x = None"
  by (auto simp: visible_def live_def split: option.splits)

lemma all_dead_visible: "all_dead eus \<longleftrightarrow> (\<forall>k. visible True (newest eus k) = None)"
  by (simp add: all_dead_def visible_dead)

lemma held_range:
  assumes "held s ess xs d" and "u \<in> set (tables s @ xs)"
  shows "fst (span_of u) < 2 ^ 64 \<and> snd (span_of u) < 2 ^ 64"
  using assms spans_ok_range [of "next_seq s" "tables s" u]
  by (auto simp: held_def span_of_def spans_ok_def)

text \<open>The run of a merged table, and the set once it is swapped in.\<close>

lemma merged_split:
  assumes "2 \<le> count" and "start + count \<le> length (tables s)" and "length ess = length (tables s)"
  obtains pre run post epre erun epost where "tables s = pre @ run @ post" and "ess = epre @ erun @ epost"
    and "length pre = start" and "length run = count" and "length epre = start" and "length erun = count"
    and "take count (drop start (tables s)) = run" and "take count (drop start ess) = erun"
    and "drop (start + count) (tables s) = post" and "take start (tables s) = pre" and "2 \<le> length run"
proof -
  show thesis
    using assms
    by (intro that [of "take start (tables s)" "take count (drop start (tables s))" "drop (start + count) (tables s)"
          "take start ess" "take count (drop start ess)" "drop (start + count) ess"])
      (simp_all flip: take_run)
qed

text \<open>The merged table on the disk beside its run: the next process would take it for the run.\<close>

lemma merged_stands:
  assumes H: "held s ess [t] d" and S: "covers t start count (tables s)" "merges t start count ess"
  shows "stands d ess"
proof -
  from H have ts: "list_all2 wf_table (tables s) ess" "spans_ok (next_seq s) (tables s)"
    "dir_clean d (tables s @ [t])" unfolding held_def by blast+
  from S obtain M where S': "2 \<le> count" "start + count \<le> length (tables s)"
    "span_of t = (first_seq (hd (take count (drop start (tables s)))),
      last_seq (last (take count (drop start (tables s)))))"
    "wf_table t M" "\<forall>k. map_of M k = visible (start = 0) (newest (take count (drop start ess)) k)"
    by (auto simp: covers_def merges_def)
  obtain pre run post epre erun epost where sp: "tables s = pre @ run @ post" "ess = epre @ erun @ epost"
    "length pre = start" "length run = count" "length epre = start" "length erun = count"
    "take count (drop start (tables s)) = run" "take count (drop start ess) = erun" "2 \<le> length run"
    using merged_split [OF S'(1,2) held_lengths [OF H]] by metis
  have t: "span_of t = (first_seq (hd run), last_seq (last run))" using S'(3) sp(7) by simp
  have ok: "spans_ok (next_seq s) (pre @ run @ post)" using ts(2) sp(1) by simp
  note rs = run_span [OF ok sp(9) t]
  have "dir_matches d (pre @ [t] @ post)"
    using ts(3) held_range [OF H] rs(1) unfolding sp(1) by (intro dir_matches_within) auto
  moreover have "list_all2 wf_table (pre @ [t] @ post) (epre @ M # epost)"
    using ts(1) sp S'(4) by (simp add: list_all2_append list_all2_appendI)
  moreover have "live_eq (epre @ M # epost) ess"
  proof -
    have "start = 0 \<longleftrightarrow> epre = []" using sp(5) by auto
    then have "\<forall>k. map_of M k = visible (epre = []) (newest erun k)" using S'(5) unfolding sp(8) by simp
    then show ?thesis unfolding sp(2) by (rule live_eq_merged)
  qed
  ultimately show ?thesis using rs(2) unfolding stands_def disk_state_def by blast
qed

lemma held_stands: "held s ess [] d \<Longrightarrow> stands d ess"
  by (auto simp: held_Nil intro: stands_disk_state set_inv_disk_state)

text \<open>
  Readers cannot tell, from the disk in any phase, what the compactor is doing: the tables that the next
  process would open have the same newest values as those of the set.
\<close>

lemma phase_stands:
  assumes "phase_inv ph s ess d"
  shows "stands d ess"
proof -
  from assms have H: "held s ess (extra ph) d" and S: "side ph s ess" and D: "drafted ph d"
    by (simp_all add: phase_inv_def)
  from H have ts: "list_all2 wf_table (tables s) ess" "spans_ok (next_seq s) (tables s)"
    "dir_clean d (tables s @ extra ph)" unfolding held_def by blast+
  note range = held_range [OF H]
  show ?thesis
  proof (cases ph)
    case Idle
    then show ?thesis using H held_stands by simp
  next
    case (Writing start count t g)
    then show ?thesis using H S D held_stands merged_stands [of s ess t d start count] by (cases "g = To_sync_dir") auto
  next
    case (Merged start count replacement)
    then show ?thesis
      using H S held_stands merged_stands [of s ess _ d start count] by (cases replacement) (auto simp: option_list_def)
  next
    case (Unlinking us)
    from S Unlinking have "(\<forall>u \<in> set us. \<exists>t \<in> set (tables s). strictly_within (span_of u) (span_of t)) \<or>
      (\<exists>eus. list_all2 wf_table us eus \<and> all_dead eus \<and> spans_ok (next_seq s) (us @ tables s))" by simp
    then show ?thesis
    proof (elim disjE exE conjE)
      assume w: "\<forall>u \<in> set us. \<exists>t \<in> set (tables s). strictly_within (span_of u) (span_of t)"
      have "dir_matches d (tables s)"
        using w ts(3) range Unlinking by (intro dir_matches_within [of d "tables s @ us"]) auto
      then show ?thesis using ts by (intro stands_disk_state) (auto simp: disk_state_def)
    next
      fix eus assume e: "list_all2 wf_table us eus" "all_dead eus" "spans_ok (next_seq s) (us @ tables s)"
      have "dir_clean d (us @ tables s)" using ts(3) Unlinking by (auto simp: dir_clean_def)
      moreover have "list_all2 wf_table (us @ tables s) (eus @ ess)"
        using e(1) ts(1) by (simp add: list_all2_appendI)
      ultimately show ?thesis
        using e(3) live_eq_dead [OF e(2)] dir_clean_matches unfolding stands_def disk_state_def by blast
    qed
  qed
qed

text \<open>Writes and flushes go on in every phase.\<close>

lemma covers_seq:
  assumes "covers t start count (tables s)" and "spans_ok n (tables s)"
  shows "fst (span_of t) < n" and "snd (span_of t) < n" and "fst (span_of t) \<le> snd (span_of t)"
proof -
  obtain pre run post where sp: "tables s = pre @ run @ post" "take count (drop start (tables s)) = run" "2 \<le> length run"
    using assms(1) take_run [of start count "tables s"] by (auto simp: covers_def)
  have "spans_ok n (pre @ [t] @ post)"
    using assms(1,2) sp by (intro run_span(2) [of _ _ run]) (simp_all add: covers_def)
  then have "first_seq t \<le> last_seq t" "last_seq t < n" by (auto simp: spans_ok_def)
  then show "fst (span_of t) < n" "snd (span_of t) < n" "fst (span_of t) \<le> snd (span_of t)"
    by (simp_all add: span_of_def)
qed

text \<open>A flush has a temporary file of its own.\<close>

lemma drafted_flushed:
  assumes "side ph s ess" and "spans_ok (next_seq s) (tables s)" and "drafted ph (dir w)"
    and "next_seq s + 1 < 2 ^ 64" and op: "set_write m s w = (r, s', w')"
  shows "drafted ph (dir w')"
proof (cases ph)
  case (Writing start count t g)
  let ?n = "next_seq s"
  have "covers t start count (tables s)" using assms(1) Writing by simp
  note c = covers_seq [OF this assms(2)]
  have "tmp_name (span_of t) \<noteq> tmp_name (?n, ?n)"
    using tmp_name_inject [of "span_of t" "(?n, ?n)"] c assms(4) by auto
  then have "map_of (dir w') (tmp_name (span_of t)) = map_of (dir w) (tmp_name (span_of t))"
    by (intro set_write_names [OF op]) simp_all
  then show ?thesis using assms(3) Writing by simp
qed simp_all

lemma drafted_same:
  assumes "same_except name w w'" and "extension name = Some (str ''log'')" and "drafted ph (dir w)"
  shows "drafted ph (dir w')"
proof (cases ph)
  case (Writing start count t g)
  have "tmp_name (span_of t) \<noteq> name" using assms(2) extension_tmp_name [of "span_of t"] by auto
  then have "map_of (dir w') (tmp_name (span_of t)) = map_of (dir w) (tmp_name (span_of t))"
    using assms(1) by (simp add: same_except_def)
  then show ?thesis using assms(3) Writing by simp
qed simp_all

interpretation in_phase: keeps_tables "phase_inv ph" for ph
proof unfold_locales
  show "list_all2 wf_table (tables s) ess" if "phase_inv ph s ess d" for s ess d
    using that by (simp add: phase_inv_def held_def)
  show "stands d ess" if "phase_inv ph s ess d" for s ess d
    using that by (rule phase_stands)
  show "phase_inv ph s ess (dir w')"
    if "same_except name w w'" "extension name = Some (str ''log'')" "phase_inv ph s ess (dir w)"
    for name w w' s ess
    using that same_except_clean [of name w w'] drafted_same [of name w w'] unfolding phase_inv_def held_def by simp
  show "(\<exists>st. r = Fail st) \<and> (stands (dir w') ess \<or> stands (dir w') (ess @ [m])) \<or>
      r = Ok () \<and> phase_inv ph s' (ess @ [m]) (dir w')"
    if a: "phase_inv ph s ess (dir w)" "writable m" "next_seq s + 1 < 2 ^ 64" "set_write m s w = (r, s', w')"
    for s ess w m r s' w'
  proof -
    from a(1) have H: "held s ess (extra ph) (dir w)" and S: "side ph s ess"
      and D: "drafted ph (dir w)" by (simp_all add: phase_inv_def)
    have ok: "spans_ok (next_seq s) (tables s)" using H unfolding held_def by blast
    note D' = drafted_flushed [OF S ok D a(3,4)]
    from held_write [OF H a(2,3,4)]
    consider (failed) st where "r = Fail st" "held s ess (extra ph) (dir w')"
      | (published) t where "first_seq t = next_seq s" "last_seq t = next_seq s"
        "(\<exists>st. r = Fail st) \<or> r = Ok () \<and> s' = s\<lparr>tables := tables s @ [t], next_seq := next_seq s + 1\<rparr>"
        "held (s\<lparr>tables := tables s @ [t], next_seq := next_seq s + 1\<rparr>) (ess @ [m]) (extra ph) (dir w')"
      by blast
    then show ?thesis
    proof cases
      case failed
      then show ?thesis using S D' phase_stands [of ph s ess "dir w'"] by (simp add: phase_inv_def)
    next
      case (published t)
      let ?s = "s\<lparr>tables := tables s @ [t], next_seq := next_seq s + 1\<rparr>"
      have P: "phase_inv ph ?s (ess @ [m]) (dir w')"
        using side_flushed [OF S held_lengths [OF H] ok published(1,2) a(3)] published(4) D'
        by (simp add: phase_inv_def)
      then show ?thesis using published(3) phase_stands [OF P] by blast
    qed
  qed
qed

section \<open>The steps of the compactor\<close>

text \<open>The merge itself only reads.\<close>

lemma merge_run:
  assumes inv: "set_inv s ess d" and m: "merge (take count (drop start (tables s))) (start = 0) = Ok M"
  shows "list_all2 wf_table (take count (drop start (tables s))) (take count (drop start ess))"
    and "key_sorted M" and "\<forall>k. map_of M k = visible (start = 0) (newest (take count (drop start ess)) k)"
    and "\<forall>e \<in> set M. entry_fits e"
proof -
  show ts: "list_all2 wf_table (take count (drop start (tables s))) (take count (drop start ess))"
    using inv by (intro list_all2_takeI list_all2_dropI) (simp add: set_inv_def)
  show "key_sorted M" "\<forall>k. map_of M k = visible (start = 0) (newest (take count (drop start ess)) k)"
    using merge_wf [OF ts, of "start = 0"] m by auto
  show "\<forall>e \<in> set M. entry_fits e" using merge_entry_fits [OF ts m] by blast
qed

lemma begin_nothing:
  assumes inv: "set_inv s ess d" and run: "2 \<le> count" "start + count \<le> length (tables s)"
    and m: "merge (take count (drop start (tables s))) (start = 0) = Ok []"
  shows "phase_inv (Merged start count None) s ess d"
proof -
  let ?erun = "take count (drop start ess)"
  note mr = merge_run [OF inv m]
  have "?erun \<noteq> []" using mr(1) run list_all2_lengthD [OF mr(1)] by auto
  then obtain k where "newest ?erun k \<noteq> None" using wf_run_visible [OF mr(1)] by blast
  then have start: "start = 0" using mr(3) by (cases "start = 0") (auto simp: visible_def)
  then have "all_dead (take count ess)" using mr(3) by (simp add: all_dead_visible)
  then show ?thesis using inv run start by (simp add: phase_inv_def held_Nil option_list_def)
qed

lemma begin_table:
  assumes inv: "set_inv s ess d" and run: "2 \<le> count" "start + count \<le> length (tables s)"
    and m: "merge (take count (drop start (tables s))) (start = 0) = Ok M" "M \<noteq> []"
    and t: "build_table (first_seq (hd (take count (drop start (tables s)))),
      last_seq (last (take count (drop start (tables s))))) n b M = Ok t"
  shows "phase_inv (Writing start count t To_create) s ess d"
proof -
  note mr = merge_run [OF inv m(1)]
  have "covers t start count (tables s)"
    using run t by (auto simp: covers_def elim!: build_table_writer)
  moreover have "storable t \<and> merges t start count ess" if size: "length (file_data t) \<le> MAX_FILE_SIZE"
    using built_table(1,3) [OF t size m(2) mr(2,4)] built_table(2) [OF t size m(2) mr(2,4)] mr(3)
    unfolding storable_def merges_def by auto
  ultimately show ?thesis using inv by (simp add: phase_inv_def held_Nil)
qed

text \<open>The rename makes the merged table one more file on the disk.\<close>

lemma publish_held:
  assumes H: "held s ess [] d" and S: "covers t start count (tables s)" "storable t"
    and d': "map_of d' = (map_of d)(tmp_name (span_of t) := None, sst_name (span_of t) \<mapsto> file_data t)"
      "distinct (map fst d')"
  shows "held s ess [t] d'"
proof -
  from H have ts: "list_all2 wf_table (tables s) ess" "spans_ok (next_seq s) (tables s)"
    "dir_clean d (tables s)" "distinct (map path (tables s))" by (simp_all add: held_def)
  have path: "path t = sst_name (span_of t)" using S(2) by (simp only: storable_def stored_def)
  have st: "stored d' t"
    using S(2) d'(1) unfolding storable_def stored_def path by (simp del: str_simps)
  obtain pre run post where sp: "tables s = pre @ run @ post" "take count (drop start (tables s)) = run" "2 \<le> length run"
    using S(1) take_run [of start count "tables s"] by (auto simp: covers_def)
  have t: "span_of t = (first_seq (hd run), last_seq (last run))" using S(1) sp(2) by (simp add: covers_def)
  have ok: "spans_ok (next_seq s) (pre @ run @ post)" using ts(2) sp(1) by simp
  have stored: "\<forall>u \<in> set (pre @ run @ post). stored d u" using ts(3) sp(1) by (simp add: dir_clean_def)
  have ne: "\<forall>u \<in> set (tables s). path u \<noteq> path t"
    using run_new_path [OF ok sp(3) stored t st] sp(1) by simp
  have "dir_clean d' (tables s @ [t])"
    by (rule dir_clean_publish [OF ts(3) d' st ne]) simp
  moreover have "distinct (map path (tables s @ [t]))" using ts(4) ne by auto
  moreover have "first_seq t \<le> last_seq t \<and> last_seq t < next_seq s"
    using covers_seq [OF S(1) ts(2)] by (simp add: span_of_def)
  ultimately show ?thesis using ts(1,2) by (simp add: held_def)
qed

lemma held_same:
  assumes "same_except name w w'" and "extension name \<noteq> Some (str ''sst'')" and "held s ess xs (dir w)"
  shows "held s ess xs (dir w')"
  using assms same_except_clean unfolding held_def by blast

text \<open>
  One call of \<open>write_table\<close>: whatever its outcome, the disk stands for what it stood for; when it is
  done the next phase begins, and when it fails before the rename the set is at rest again.
\<close>

lemma call_effect:
  assumes inv: "phase_inv (Writing start count t g) s ess (dir w)" and op: "table_call t g w = (r, w')"
  shows "stands (dir w') ess"
    and "r = Ok () \<Longrightarrow> phase_inv (after_call start count t g) s ess (dir w')"
    and "r = Fail st \<Longrightarrow> g \<noteq> To_sync_dir \<Longrightarrow> set_inv s ess (dir w')"
    and "others_same w w'"
proof -
  let ?tmp = "tmp_name (span_of t)"
  from inv have H: "held s ess (extra (Writing start count t g)) (dir w)" and D: "drafted (Writing start count t g) (dir w)"
    and C: "covers t start count (tables s)"
    and B: "length (file_data t) \<le> MAX_FILE_SIZE \<Longrightarrow> storable t \<and> merges t start count ess"
    by (simp_all add: phase_inv_def)
  have tmp: "extension ?tmp \<noteq> Some (str ''sst'')" by (rule tmp_name_not_table)
  have "stands (dir w') ess \<and> (r = Ok () \<longrightarrow> phase_inv (after_call start count t g) s ess (dir w')) \<and>
      ((\<exists>st. r = Fail st) \<longrightarrow> g \<noteq> To_sync_dir \<longrightarrow> set_inv s ess (dir w')) \<and> others_same w w'"
  proof (cases g)
    case To_create
    then have c: "sys_create ?tmp w = (r, w')" using op by simp
    note eff = sys_create_effect [OF c]
    have "held s ess [] (dir w')" using held_same [OF eff(1) tmp] H To_create by simp
    then show ?thesis
      using To_create eff(2) C B held_stands others_same_tmp [OF eff(1)]
      by (auto simp: after_call_def phase_inv_def held_Nil)
  next
    case To_fill
    then have c: "sys_append ?tmp (file_data t) w = (r, w')" using op by simp
    note eff = sys_append_effect [OF c]
    have "held s ess [] (dir w')" using held_same [OF eff(1) tmp] H To_fill by simp
    then show ?thesis
      using To_fill D eff(2) C B held_stands others_same_tmp [OF eff(1)]
      by (auto simp: after_call_def phase_inv_def held_Nil contents_def)
  next
    case To_sync
    then have "dir w' = dir w" "root w' = root w" using op sys_sync_effect [of ?tmp w r w'] sys_sync_dir_effect [of w r w'] by simp_all
    then show ?thesis
      using To_sync H D C B held_stands by (auto simp: after_call_def phase_inv_def held_Nil others_same_def)
  next
    case To_rename
    then have c: "sys_rename ?tmp (sst_name (span_of t)) w = (r, w')" and f: "map_of (dir w) ?tmp = Some (file_data t)"
      and size: "length (file_data t) \<le> MAX_FILE_SIZE" and H': "held s ess [] (dir w)"
      using op D H by simp_all
    note B' = B [OF size]
    from c f show ?thesis
    proof (cases rule: sys_rename_effect)
      case renamed
      have dist: "distinct (map fst (dir w'))" using renamed(4) H' by (simp add: held_def dir_clean_def)
      have P: "held s ess [t] (dir w')" using publish_held [OF H' C _ renamed(2) dist] B' by blast
      have "others_same w w'"
        using renamed(2,3) table_names_named [of _ "span_of t"] by (simp add: others_same_def)
      then show ?thesis
        using P B' C To_rename size renamed(1) merged_stands [OF P C]
        by (auto simp: after_call_def phase_inv_def)
    next
      case (failed st)
      then show ?thesis using H' held_stands To_rename by (auto simp: held_Nil others_same_def)
    qed
  next
    case To_sync_dir
    then have "dir w' = dir w" "root w' = root w" using op sys_sync_effect [of ?tmp w r w'] sys_sync_dir_effect [of w r w'] by simp_all
    then show ?thesis
      using To_sync_dir H D C B merged_stands [of s ess t "dir w" start count]
      by (auto simp: after_call_def phase_inv_def others_same_def option_list_def)
  qed
  then show "stands (dir w') ess" "r = Ok () \<Longrightarrow> phase_inv (after_call start count t g) s ess (dir w')"
    "r = Fail st \<Longrightarrow> g \<noteq> To_sync_dir \<Longrightarrow> set_inv s ess (dir w')" "others_same w w'" by blast+
qed

lemma write_table_built: "write_table s span n M w = (Ok t, w') \<Longrightarrow> build_table span n (bits_per_key s) M = Ok t"
  by (auto simp: write_table_def io_bind_eq)

text \<open>
  \<open>write_table\<close> is its five calls: what each of them does from one state to the next, \<open>write_table\<close> does from the
  first to the last.
\<close>

lemma write_table_chain:
  assumes wt: "write_table s span n M w = (Ok t, w')"
    and call: "\<And>g v v'. table_call t g v = (Ok (), v') \<Longrightarrow>
      R (f g) v (case next_stage g of Some g' \<Rightarrow> f g' | None \<Rightarrow> z) v'"
    and trans: "\<And>a u b v c y. R a u b v \<Longrightarrow> R b v c y \<Longrightarrow> R a u c y"
  shows "R (f To_create) w z w'"
proof -
  from wt obtain w1 w2 w3 w4 where c: "build_table span n (bits_per_key s) M = Ok t"
    "sys_create (tmp_name span) w = (Ok (), w1)" "sys_append (tmp_name span) (file_data t) w1 = (Ok (), w2)"
    "sys_sync (tmp_name span) w2 = (Ok (), w3)" "sys_rename (tmp_name span) (sst_name span) w3 = (Ok (), w4)"
    "sys_sync_dir w4 = (Ok (), w')"
    by (auto simp: write_table_def publish_def io_bind_eq)
  have "span_of t = span" using c(1) by (auto elim: build_table_writer)
  then have calls: "table_call t To_create w = (Ok (), w1)" "table_call t To_fill w1 = (Ok (), w2)"
    "table_call t To_sync w2 = (Ok (), w3)" "table_call t To_rename w3 = (Ok (), w4)"
    "table_call t To_sync_dir w4 = (Ok (), w')" using c(2-6) by simp_all
  note cs = calls [THEN call, unfolded next_stage.simps option.case]
  show "R (f To_create) w z w'" using trans [OF trans [OF trans [OF trans [OF cs(1,2)] cs(3)] cs(4)] cs(5)] .
qed

text \<open>A merge that nothing comes in between.\<close>

lemma prepare_phase:
  assumes inv: "set_inv s ess (dir w)" and op: "compact_prepare s start count w = (Ok replacement, w')"
  shows "phase_inv (Merged start count replacement) s ess (dir w')"
proof -
  let ?run = "take count (drop start (tables s))"
  let ?span = "(first_seq (hd ?run), last_seq (last ?run))"
  have bounds: "2 \<le> count" "start + count \<le> length (tables s)"
    using op by (auto simp: compact_prepare_def split: if_splits)
  obtain M where m: "merge ?run (start = 0) = Ok M"
    "(M = [] \<and> replacement = None \<and> w' = w) \<or>
     (M \<noteq> [] \<and> (\<exists>t. replacement = Some t \<and> write_table s ?span (length M) M w = (Ok t, w')))"
    using op by (auto simp: compact_prepare_def Let_def io_bind_eq split: if_splits)
  from m(2) show ?thesis
  proof (elim disjE conjE exE)
    assume "M = []" "replacement = None" "w' = w"
    then show ?thesis using begin_nothing [OF inv bounds] m(1) by simp
  next
    fix t assume ne: "M \<noteq> []" and r: "replacement = Some t" and wt: "write_table s ?span (length M) M w = (Ok t, w')"
    let ?R = "\<lambda>a u b v. phase_inv a s ess (dir u) \<longrightarrow> phase_inv b s ess (dir v)"
    have call: "?R (Writing start count t g) v
        (case next_stage g of Some g' \<Rightarrow> Writing start count t g' | None \<Rightarrow> Merged start count (Some t)) v'"
      if "table_call t g v = (Ok (), v')" for g v v'
      using call_effect(2) [OF _ that refl] by (auto simp: after_call_def)
    have "?R (Writing start count t To_create) w (Merged start count (Some t)) w'"
      by (rule write_table_chain [where R = ?R and f = "\<lambda>g. Writing start count t g", OF wt call]) auto
    then show ?thesis using begin_table [OF inv bounds m(1) ne write_table_built [OF wt]] r by blast
  qed
qed

text \<open>
  The swap, on the set as it is by then: the run is where it was, since tables were added at the end only.
\<close>

lemma swap_effect:
  assumes inv: "phase_inv (Merged start count replacement) s ess d"
  shows "\<exists>ess'. phase_inv (Unlinking (take count (drop start (tables s))))
      (replace_tables (splice start count replacement) s) ess' d \<and> live_eq ess' ess"
proof -
  from inv have H: "held s ess (option_list replacement) d" and S: "side (Merged start count replacement) s ess"
    by (simp_all add: phase_inv_def)
  have bounds: "2 \<le> count" "start + count \<le> length (tables s)" using S by (cases replacement; simp add: covers_def)+
  obtain pre run post epre erun epost where sp: "tables s = pre @ run @ post" "ess = epre @ erun @ epost"
    "length pre = start" "length run = count" "length epre = start" "length erun = count"
    "take count (drop start (tables s)) = run" "take count (drop start ess) = erun"
    "drop (start + count) (tables s) = post" "take start (tables s) = pre" "2 \<le> length run"
    using merged_split [OF bounds held_lengths [OF H]] by metis
  let ?s = "s\<lparr>tables := pre @ option_list replacement @ post\<rparr>"
  have s': "replace_tables (splice start count replacement) s = ?s"
    using sp(9,10) by (simp add: replace_tables_def splice_def)
  from H have ts: "list_all2 wf_table (tables s) ess" "spans_ok (next_seq s) (pre @ run @ post)"
    "dir_clean d (tables s @ option_list replacement)" "distinct (map path (tables s @ option_list replacement))"
    unfolding held_def sp(1) by blast+
  have parts: "list_all2 wf_table pre epre" "list_all2 wf_table run erun" "list_all2 wf_table post epost"
    using ts(1) sp by (simp_all add: list_all2_append)
  have same: "set (tables ?s @ run) = set (tables s @ option_list replacement)" using sp(1) by auto
  have clean: "dir_clean d (tables ?s @ run)" using ts(3) unfolding dir_clean_def same .
  have dist: "distinct (map path (tables ?s @ run))" using ts(4) sp(1) by auto
  have old: "\<forall>u \<in> set run. first_seq u \<le> last_seq u \<and> last_seq u < next_seq s"
    using ts(2) by (auto simp: spans_ok_def)
  show ?thesis
  proof (cases replacement)
    case None
    with S have dead: "start = 0" "all_dead erun" using sp(8) by auto
    then have e: "pre = []" "epre = []" using sp(3,5) by auto
    have "held ?s epost run d"
      using parts(3) ts(2) clean dist old e None
      by (auto simp: held_def option_list_def spans_ok_append)
    moreover have "side (Unlinking run) ?s epost"
      using parts(2) dead(2) ts(2) e None by (auto simp: option_list_def)
    ultimately have "phase_inv (Unlinking run) ?s epost d" by (simp add: phase_inv_def)
    moreover have "live_eq epost ess"
      using live_eq_dead [OF dead(2), of epost] sp(2) e by (simp add: live_eq_def)
    ultimately show ?thesis unfolding s' sp(7) by blast
  next
    case (Some t)
    with S obtain M where t: "span_of t = (first_seq (hd run), last_seq (last run))" "wf_table t M"
      "\<forall>k. map_of M k = visible (start = 0) (newest erun k)" using sp(7,8) by (auto simp: covers_def merges_def)
    note rs = run_span [OF ts(2) sp(11) t(1)]
    have "list_all2 wf_table (pre @ [t] @ post) (epre @ M # epost)"
      using parts t(2) by (simp add: list_all2_appendI)
    then have "held ?s (epre @ M # epost) run d"
      using rs(2) clean dist old Some by (simp add: held_def option_list_def)
    moreover have "side (Unlinking run) ?s (epre @ M # epost)"
      using rs(1) Some by (auto simp: option_list_def)
    ultimately have "phase_inv (Unlinking run) ?s (epre @ M # epost) d" by (simp add: phase_inv_def)
    moreover have "live_eq (epre @ M # epost) ess"
    proof -
      have "start = 0 \<longleftrightarrow> epre = []" using sp(5) by auto
      then show ?thesis unfolding sp(2) using t(3) by (intro live_eq_merged) simp
    qed
    ultimately show ?thesis unfolding s' sp(7) by blast
  qed
qed

text \<open>Unlinking one input.\<close>

lemma unlinked_one:
  assumes "phase_inv (Unlinking (t # ts)) s ess d"
  shows "phase_inv (Unlinking ts) s ess (AList.delete (path t) d)"
proof -
  from assms have H: "held s ess (t # ts) d" and S: "side (Unlinking (t # ts)) s ess"
    by (simp_all add: phase_inv_def)
  have "dir_clean d ([t] @ (tables s @ ts))" "distinct (map path ([t] @ (tables s @ ts)))"
    using H by (auto simp: held_def dir_clean_def)
  from dir_clean_unlinked [OF this] have "dir_clean (AList.delete (path t) d) (tables s @ ts)" by simp
  then have "held s ess ts (AList.delete (path t) d)" using H by (simp add: held_def)
  moreover have "side (Unlinking ts) s ess"
    using S
  proof (simp only: side.simps, elim disjE exE conjE)
    fix eus assume e: "list_all2 wf_table (t # ts) eus" "all_dead eus" "spans_ok (next_seq s) ((t # ts) @ tables s)"
    then obtain eu eus' where "eus = eu # eus'" by (cases eus) auto
    then have "list_all2 wf_table ts eus' \<and> all_dead eus' \<and> spans_ok (next_seq s) (ts @ tables s)"
      using e all_dead_Cons spans_ok_append [of "next_seq s" "[t]" "ts @ tables s"] by auto
    then show "(\<forall>u \<in> set ts. \<exists>t \<in> set (tables s). strictly_within (span_of u) (span_of t)) \<or>
        (\<exists>eus. list_all2 wf_table ts eus \<and> all_dead eus \<and> spans_ok (next_seq s) (ts @ tables s))" by blast
  qed simp
  ultimately show ?thesis by (simp add: phase_inv_def)
qed

lemma unlink_effect:
  assumes inv: "phase_inv (Unlinking (t # ts)) s ess (dir w)" and op: "sys_remove (path t) w = (r, w')"
  shows "stands (dir w') ess" and "r = Ok () \<Longrightarrow> phase_inv (Unlinking ts) s ess (dir w')"
    and "others_same w w'"
proof -
  have st: "stored (dir w) t" using inv by (auto simp: phase_inv_def held_def dir_clean_def)
  have "map_of (dir w) (path t) \<noteq> None" using stored_present [OF st] by simp
  from op this have "stands (dir w') ess \<and> (r = Ok () \<longrightarrow> phase_inv (Unlinking ts) s ess (dir w'))"
    using phase_stands [OF inv] unlinked_one [OF inv] phase_stands [OF unlinked_one [OF inv]]
    by (cases rule: sys_remove_effect) auto
  then show "stands (dir w') ess" "r = Ok () \<Longrightarrow> phase_inv (Unlinking ts) s ess (dir w')" by blast+
  have "extension (path t) = Some (str ''sst'')" using st extension_sst_name [of "span_of t"] by (simp add: stored_def)
  then show "others_same w w'"
    using remove_files_others [of "[t]" w r w'] op by (simp add: io_bind_def split: res.splits)
qed

end
