(* ===== verification/Flushing.thy ===== *)
theory Flushing
  imports Phases
begin

text \<open>
  A flush in its phases, for theory Interleaving: the writer writes the table of its memtable with the five
  calls of \<open>write_table\<close>, adds it to the set, and cuts the log (\<^verbatim>\<open>src/src/db.rs\<close>). From the rename to the
  push the disk has a table that the set does not have. The trick is to look at the set as it is going to
  be: with that table pushed, the set, its entries and the directory are in the phase of the compactor.
\<close>

section \<open>The phases\<close>

datatype writing = Ready | Full | Flushing sstable stage | Pushing sstable | Flushed

definition after_draft :: "sstable \<Rightarrow> stage \<Rightarrow> writing" where
  "after_draft t g = (case next_stage g of Some g' \<Rightarrow> Flushing t g' | None \<Rightarrow> Pushing t)"

abbreviation pushed :: "sstable \<Rightarrow> sstable_set \<Rightarrow> sstable_set" where
  "pushed t s \<equiv> s\<lparr>tables := tables s @ [t], next_seq := next_seq s + 1\<rparr>"

text \<open>The table that has its name already but is not in the set, and the set with it.\<close>

fun named :: "writing \<Rightarrow> sstable option" where
  "named (Flushing t g) = (if g = To_sync_dir then Some t else None)"
| "named (Pushing t) = Some t"
| "named _ = None"

definition base :: "writing \<Rightarrow> sstable_set \<Rightarrow> sstable_set" where
  "base wr s = (case named wr of None \<Rightarrow> s | Some t \<Rightarrow> pushed t s)"

text \<open>The compactor has chosen its run from the set, not from what it is going to be.\<close>

fun inside :: "phase \<Rightarrow> sstable_set \<Rightarrow> bool" where
  "inside (Writing start count t g) s \<longleftrightarrow> start + count \<le> length (tables s)"
| "inside (Merged start count replacement) s \<longleftrightarrow> start + count \<le> length (tables s)"
| "inside _ s \<longleftrightarrow> True"

text \<open>
  \<open>E\<close> are the entries of \<open>base wr s\<close>, \<open>ws\<close> the writes in the memtable and \<open>L\<close> those on the log.
\<close>

fun writer_inv :: "writing \<Rightarrow> sstable_set \<Rightarrow> entry list list \<Rightarrow> entry list \<Rightarrow> entry list \<Rightarrow> directory \<Rightarrow> bool" where
  "writer_inv Ready s E ws L d \<longleftrightarrow> L = ws"
| "writer_inv Full s E ws L d \<longleftrightarrow> L = ws \<and> ws \<noteq> []"
| "writer_inv (Flushing t g) s E ws L d \<longleftrightarrow>
     L = ws \<and> next_seq s + 1 < 2 ^ 64 \<and> span_of t = (next_seq s, next_seq s) \<and>
     (length (file_data t) \<le> MAX_FILE_SIZE \<longrightarrow> wf_table t (apply_writes ws) \<and> storable t) \<and>
     drafted (Writing 0 0 t g) d \<and>
     (g = To_sync_dir \<longrightarrow> map_of (last E) = map_of (apply_writes ws))"
| "writer_inv (Pushing t) s E ws L d \<longleftrightarrow>
     L = ws \<and> next_seq s + 1 < 2 ^ 64 \<and> map_of (last E) = map_of (apply_writes ws)"
| "writer_inv Flushed s E ws L d \<longleftrightarrow> ws = [] \<and> view E L = view E []"

lemma base_simps [simp]:
  "base Ready s = s" "base Full s = s" "base Flushed s = s" "base (Pushing t) s = pushed t s"
  "base (Flushing t g) s = (if g = To_sync_dir then pushed t s else s)"
  by (simp_all add: base_def)

lemma base_run:
  "start + count \<le> length (tables s) \<Longrightarrow> take count (drop start (tables (base wr s))) = take count (drop start (tables s))"
  "length (tables s) \<le> length (tables (base wr s))"
  by (auto simp: base_def split: option.split)

section \<open>Entries and contents\<close>

text \<open>A table determines its entries.\<close>

lemma wf_table_unique:
  assumes "wf_table t m" and "wf_table t m'"
  shows "map_of m = map_of m'"
proof
  fix k
  have "map_option found_of (map_of m k) = map_option found_of (map_of m' k)"
    using sst_get_wf [OF assms(1), of k] sst_get_wf [OF assms(2), of k] by simp
  moreover have "inj found_of" by (rule injI) (auto split: option.splits elim!: found_of.elims)
  ultimately show "map_of m k = map_of m' k" by (metis option.inj_map injD)
qed

lemma view_twice:
  assumes "map_of m = map_of (apply_writes ws)"
  shows "view (ess @ [m]) ws = view ess ws" and "view (ess @ [m]) [] = view ess ws"
  using assms by (auto simp: view_def fun_eq_iff map_add_def split: option.split)

text \<open>The entries of the table that is not in the set yet.\<close>

lemma named_entries:
  assumes "phase_inv ph (base wr s) E d" and "named wr = Some t"
  obtains ess m where "E = ess @ [m]" and "list_all2 wf_table (tables s) ess" and "wf_table t m"
proof -
  have "list_all2 wf_table (tables s @ [t]) E"
    using assms by (simp add: phase_inv_def held_def base_def)
  then show thesis using that by (auto simp: list_all2_append1 list_all2_Cons1)
qed

lemma writer_named:
  "writer_inv wr s E ws L d \<Longrightarrow> named wr = Some t \<Longrightarrow>
     L = ws \<and> map_of (last E) = map_of (apply_writes ws) \<and> next_seq s + 1 < 2 ^ 64"
  by (cases wr) (auto split: if_splits)

lemma writer_get:
  assumes ph: "phase_inv ph (base wr (db_set db)) E d" and wr: "writer_inv wr (db_set db) E ws L d'"
    and map: "db_map db = apply_writes ws"
  shows "db_get db k = Ok (view E ws k)"
proof -
  have get: "db_get db k = Ok (view ess ws k)" if "list_all2 wf_table (tables (db_set db)) ess" for ess
    using that map set_get_newest [of "db_set db" ess k]
    by (auto simp: db_get_def view_def bt_get_def map_add_def split: option.split)
  show ?thesis
  proof (cases "named wr")
    case None
    then show ?thesis using ph by (intro get) (simp add: base_def phase_inv_def held_def)
  next
    case (Some t)
    from named_entries [OF ph this] obtain ess m where e: "E = ess @ [m]" "list_all2 wf_table (tables (db_set db)) ess" .
    then have "map_of m = map_of (apply_writes ws)" using writer_named [OF wr Some] by simp
    then show ?thesis using get [OF e(2)] view_twice(1) e(1) by simp
  qed
qed

text \<open>The log goes with the tables: replaying it gives the contents.\<close>

lemma writer_log: "writer_inv wr s E ws L d \<Longrightarrow> view E L = view E ws"
  by (cases wr) auto

section \<open>The compactor beside a flush\<close>

lemma table_call_names:
  assumes "table_call t g w = (r, w')" and "n \<noteq> tmp_name (span_of t)" and "n \<noteq> sst_name (span_of t)"
  shows "map_of (dir w') n = map_of (dir w) n"
proof (cases g)
  case To_create
  then show ?thesis using sys_create_effect(1) [of "tmp_name (span_of t)" w r w'] assms by (simp add: same_except_def)
next
  case To_fill
  then show ?thesis
    using sys_append_effect(1) [of "tmp_name (span_of t)" "file_data t" w r w'] assms by (simp add: same_except_def)
next
  case To_rename
  show ?thesis
  proof (cases "map_of (dir w) (tmp_name (span_of t))")
    case None
    then show ?thesis
      using assms(1) To_rename by (auto simp: sys_rename_def on_existing_def io_lift_def)
  next
    case (Some c)
    from assms(1) To_rename have "sys_rename (tmp_name (span_of t)) (sst_name (span_of t)) w = (r, w')" by simp
    from this Some show ?thesis by (cases rule: sys_rename_effect) (simp_all add: assms)
  qed
qed (use assms sys_sync_effect [of "tmp_name (span_of t)" w r w'] sys_sync_dir_effect [of w r w'] in simp_all)

lemma writer_inv_cong:
  assumes "writer_inv wr s E ws L d"
    and "\<And>t g. wr = Flushing t g \<Longrightarrow> g \<noteq> To_sync_dir \<Longrightarrow>
      map_of d' (tmp_name (next_seq s, next_seq s)) = map_of d (tmp_name (next_seq s, next_seq s))"
  shows "writer_inv wr s E ws L d'"
proof (cases wr)
  case (Flushing t g)
  then show ?thesis using assms by (cases "g = To_sync_dir") auto
qed (use assms in simp_all)

text \<open>Both threads, and the directory they share.\<close>

definition joint :: "writing \<Rightarrow> phase \<Rightarrow> sstable_set \<Rightarrow> entry list list \<Rightarrow> entry list \<Rightarrow> entry list \<Rightarrow> directory \<Rightarrow> bool" where
  "joint wr ph s E ws L d \<longleftrightarrow> phase_inv ph (base wr s) E d \<and> inside ph s \<and> writer_inv wr s E ws L d"

lemma inside_after: "inside (after_call start count t g) s \<longleftrightarrow> start + count \<le> length (tables s)"
  by (simp add: after_call_def split: option.split)

text \<open>Their temporary files are not the same.\<close>

lemma drafts_apart:
  assumes "phase_inv (Writing start count u g) s E d" and "next_seq s + 1 < 2 ^ 64"
  shows "tmp_name (next_seq s, next_seq s) \<noteq> tmp_name (span_of u)"
proof -
  have "covers u start count (tables s)" "spans_ok (next_seq s) (tables s)"
    using assms(1) by (simp_all add: phase_inv_def held_def)
  from covers_seq [OF this] show ?thesis
    using tmp_name_inject [of "(next_seq s, next_seq s)" "span_of u"] assms(2) by (cases "span_of u") auto
qed

lemma joint_call:
  assumes inv: "joint wr (Writing start count u g) s E ws L (dir w)" and op: "table_call u g w = (r, w')"
  shows "stands (dir w') E"
    and "r = Ok () \<Longrightarrow> joint wr (after_call start count u g) s E ws L (dir w')"
    and "r = Fail st \<Longrightarrow> g \<noteq> To_sync_dir \<Longrightarrow> joint wr Idle s E ws L (dir w')"
    and "others_same w w'"
proof -
  from inv have J: "phase_inv (Writing start count u g) (base wr s) E (dir w)"
    "start + count \<le> length (tables s)" "writer_inv wr s E ws L (dir w)" by (simp_all add: joint_def)
  note ce = call_effect [OF J(1) op]
  have "writer_inv wr s E ws L (dir w')"
  proof (rule writer_inv_cong [OF J(3)])
    fix t h assume wr: "wr = Flushing t h" "h \<noteq> To_sync_dir"
    then have "tmp_name (next_seq s, next_seq s) \<noteq> tmp_name (span_of u)"
      using drafts_apart [OF J(1)] J(3) by simp
    then show "map_of (dir w') (tmp_name (next_seq s, next_seq s)) = map_of (dir w) (tmp_name (next_seq s, next_seq s))"
      by (intro table_call_names [OF op]) (simp_all add: tmp_name_neq_sst_name)
  qed
  then show "r = Ok () \<Longrightarrow> joint wr (after_call start count u g) s E ws L (dir w')"
    "r = Fail st \<Longrightarrow> g \<noteq> To_sync_dir \<Longrightarrow> joint wr Idle s E ws L (dir w')"
    using ce(2,3) J(2) by (simp_all add: joint_def inside_after phase_inv_Idle)
  show "stands (dir w') E" "others_same w w'" by (rule ce(1), rule ce(4))
qed

lemma joint_unlink:
  assumes inv: "joint wr (Unlinking (u # us)) s E ws L (dir w)" and op: "sys_remove (path u) w = (r, w')"
  shows "stands (dir w') E" and "r = Ok () \<Longrightarrow> joint wr (Unlinking us) s E ws L (dir w')" and "others_same w w'"
proof -
  from inv have J: "phase_inv (Unlinking (u # us)) (base wr s) E (dir w)" "writer_inv wr s E ws L (dir w)"
    by (simp_all add: joint_def)
  note ue = unlink_effect [OF J(1) op]
  have st: "stored (dir w) u" using J(1) by (auto simp: phase_inv_def held_def dir_clean_def)
  then have ne: "path u \<noteq> tmp_name sp" for sp by (simp add: stored_def tmp_name_neq_sst_name [symmetric])
  have "map_of (dir w) (path u) \<noteq> None" using stored_present [OF st] by simp
  with op have "map_of (dir w') (tmp_name sp) = map_of (dir w) (tmp_name sp)" for sp
    by (cases rule: sys_remove_effect) (simp_all add: delete_conv' ne [symmetric])
  then have "writer_inv wr s E ws L (dir w')" by (intro writer_inv_cong [OF J(2)]) simp
  then show "r = Ok () \<Longrightarrow> joint wr (Unlinking us) s E ws L (dir w')"
    using ue(2) by (simp add: joint_def)
  show "stands (dir w') E" "others_same w w'" by (rule ue(1), rule ue(3))
qed

lemma joint_begin:
  assumes inv: "joint wr Idle s E ws L d" and run: "2 \<le> count" "start + count \<le> length (tables s)"
    and m: "merge (take count (drop start (tables s))) (start = 0) = Ok M"
  shows "M = [] \<Longrightarrow> joint wr (Merged start count None) s E ws L d"
    and "M \<noteq> [] \<Longrightarrow> build_table (first_seq (hd (take count (drop start (tables s)))),
      last_seq (last (take count (drop start (tables s))))) n b M = Ok t \<Longrightarrow>
      joint wr (Writing start count t To_create) s E ws L d"
proof -
  from inv have J: "set_inv (base wr s) E d" "writer_inv wr s E ws L d"
    by (simp_all add: joint_def phase_inv_Idle)
  have run': "start + count \<le> length (tables (base wr s))" using run(2) base_run(2) [of s wr] by simp
  note eq = base_run(1) [OF run(2), of wr]
  show "joint wr (Merged start count None) s E ws L d" if "M = []"
    using begin_nothing [OF J(1) run(1) run'] m that run(2) J(2) unfolding eq by (simp add: joint_def)
  show "joint wr (Writing start count t To_create) s E ws L d"
    if "M \<noteq> []" "build_table (first_seq (hd (take count (drop start (tables s)))),
      last_seq (last (take count (drop start (tables s))))) n b M = Ok t"
    using begin_table [OF J(1) run(1) run'] m that run(2) J(2) unfolding eq by (simp add: joint_def)
qed

lemma joint_swap:
  assumes inv: "joint wr (Merged start count replacement) s E ws L d"
  shows "\<exists>E'. joint wr (Unlinking (take count (drop start (tables s))))
      (replace_tables (splice start count replacement) s) E' ws L d \<and> live_eq E' E"
proof -
  let ?edit = "replace_tables (splice start count replacement)"
  from inv have J: "phase_inv (Merged start count replacement) (base wr s) E d"
    "start + count \<le> length (tables s)" "writer_inv wr s E ws L d" by (simp_all add: joint_def)
  have swap: "?edit (base wr s) = base wr (?edit s)"
    using J(2) by (simp add: base_def replace_tables_def splice_def split: option.split)
  from swap_effect [OF J(1)] obtain E' where E': "phase_inv (Unlinking (take count (drop start (tables s))))
      (base wr (?edit s)) E' d" "live_eq E' E"
    unfolding swap base_run(1) [OF J(2)] by blast
  have seq: "next_seq (?edit s) = next_seq s" by (simp add: replace_tables_def)
  have last: "map_of (last E') = map_of (last E)" if nm: "named wr = Some t" for t
  proof -
    obtain ess m where e: "E = ess @ [m]" "wf_table t m" by (rule named_entries [OF J(1) nm])
    obtain ess' m' where e': "E' = ess' @ [m']" "wf_table t m'" by (rule named_entries [OF E'(1) nm])
    show ?thesis using wf_table_unique [OF e(2) e'(2)] e(1) e'(1) by simp
  qed
  have "writer_inv wr (?edit s) E' ws L d"
    using J(3) last seq live_eq_view [OF E'(2)] by (cases wr) (auto split: if_splits)
  then show ?thesis using E' by (auto simp: joint_def)
qed

section \<open>The writer beside a compaction\<close>

text \<open>A file of its own does not matter to the compactor.\<close>

lemma phase_same:
  assumes "same_except name w w'" and "extension name \<noteq> Some (str ''sst'')"
    and "\<And>start count u g. ph = Writing start count u g \<Longrightarrow> name \<noteq> tmp_name (span_of u)"
    and "phase_inv ph s E (dir w)"
  shows "phase_inv ph s E (dir w')"
proof -
  have "drafted ph (dir w')"
  proof (cases ph)
    case (Writing start count u g)
    then have "map_of (dir w') (tmp_name (span_of u)) = map_of (dir w) (tmp_name (span_of u))"
      using assms(1,3) by (auto simp: same_except_def)
    then show ?thesis using assms(4) Writing by (simp add: phase_inv_def)
  qed simp_all
  then show ?thesis using assms(4) held_same [OF assms(1,2)] by (simp add: phase_inv_def)
qed

text \<open>The rename of a flush, in any phase of the compactor.\<close>

lemma phase_publish:
  assumes inv: "phase_inv ph s E (dir w)" and room: "next_seq s + 1 < 2 ^ 64"
    and t: "wf_table t m" "storable t" "span_of t = (next_seq s, next_seq s)"
    and d': "map_of (dir w') = (map_of (dir w))(tmp_name (span_of t) := None, sst_name (span_of t) \<mapsto> file_data t)"
      "distinct (map fst (dir w'))"
  shows "phase_inv ph (pushed t s) (E @ [m]) (dir w')"
proof -
  from inv have H: "held s E (extra ph) (dir w)" and S: "side ph s E" and D: "drafted ph (dir w)"
    by (simp_all add: phase_inv_def)
  have ok: "spans_ok (next_seq s) (tables s)" using H unfolding held_def by blast
  have path: "path t = sst_name (span_of t)" using t(2) by (simp only: storable_def stored_def)
  have st: "stored (dir w') t" using t(2) d'(1) unfolding storable_def stored_def path by (simp del: str_simps)
  have "held (pushed t s) (E @ [m]) (extra ph) (dir w')" by (rule held_publish [OF H room t(1,3) st d'])
  moreover have "side ph (pushed t s) (E @ [m])"
    using t(3) by (intro side_flushed [OF S held_lengths [OF H] ok _ _ room]) (simp_all add: span_of_def)
  moreover have "drafted ph (dir w')"
  proof (cases ph)
    case (Writing start count u g)
    have "tmp_name (span_of u) \<noteq> tmp_name (span_of t)"
      using drafts_apart [OF inv [unfolded Writing] room] t(3) by simp
    then have "map_of (dir w') (tmp_name (span_of u)) = map_of (dir w) (tmp_name (span_of u))"
      using d'(1) by simp
    then show ?thesis using D Writing by simp
  qed simp_all
  ultimately show ?thesis by (simp add: phase_inv_def)
qed

lemma inside_pushed: "inside ph s \<Longrightarrow> inside ph (pushed t s)"
  by (cases ph) simp_all

text \<open>One call of a flush.\<close>

lemma joint_draft:
  assumes inv: "joint (Flushing t g) ph s E ws L (dir w)" and op: "table_call t g w = (r, w')"
  shows "\<exists>E'. stands (dir w') E' \<and> view E' ws = view E ws"
    and "r = Ok () \<Longrightarrow> \<exists>E'. joint (after_draft t g) ph s E' ws L (dir w') \<and>
      (if g = To_rename then view E' ws = view E ws else E' = E)"
    and "others_same w w'"
proof -
  let ?tmp = "tmp_name (span_of t)"
  from inv have J: "phase_inv ph (if g = To_sync_dir then pushed t s else s) E (dir w)" "inside ph s"
    and W: "L = ws" "next_seq s + 1 < 2 ^ 64" "span_of t = (next_seq s, next_seq s)"
      "length (file_data t) \<le> MAX_FILE_SIZE \<Longrightarrow> wf_table t (apply_writes ws) \<and> storable t"
      "drafted (Writing 0 0 t g) (dir w)" "g = To_sync_dir \<Longrightarrow> map_of (last E) = map_of (apply_writes ws)"
    unfolding joint_def writer_inv.simps base_simps by blast+
  have same: "phase_inv ph s E (dir w') \<and> others_same w w'" if "same_except ?tmp w w'" "g \<noteq> To_sync_dir"
  proof -
    have "phase_inv ph s E (dir w)" using J(1) that(2) by simp
    then show ?thesis
      using phase_same [OF that(1) tmp_name_not_table, of ph s E] drafts_apart [of _ _ _ _ s E "dir w"] W(2,3)
        others_same_tmp [OF that(1)] by auto
  qed
  have same_dir: "phase_inv ph (if g = To_sync_dir then pushed t s else s) E (dir w') \<and> others_same w w'"
    if "dir w' = dir w" "root w' = root w" using J(1) that by (simp add: others_same_def)
  have "(\<exists>E'. stands (dir w') E' \<and> view E' ws = view E ws) \<and>
      (r = Ok () \<longrightarrow> (\<exists>E'. joint (after_draft t g) ph s E' ws L (dir w') \<and>
        (if g = To_rename then view E' ws = view E ws else E' = E))) \<and> others_same w w'"
  proof (cases g)
    case To_create
    then have c: "sys_create ?tmp w = (r, w')" using op by simp
    note eff = sys_create_effect [OF c]
    have P: "phase_inv ph s E (dir w') \<and> others_same w w'" using same [OF eff(1)] To_create by simp
    then have "r = Ok () \<longrightarrow> joint (after_draft t g) ph s E ws L (dir w')"
      using To_create eff(2) J(2) W by (auto simp: joint_def after_draft_def)
    then show ?thesis using phase_stands [OF conjunct1 [OF P]] P To_create by auto
  next
    case To_fill
    then have c: "sys_append ?tmp (file_data t) w = (r, w')" using op by simp
    note eff = sys_append_effect [OF c]
    have P: "phase_inv ph s E (dir w') \<and> others_same w w'" using same [OF eff(1)] To_fill by simp
    then have "r = Ok () \<longrightarrow> joint (after_draft t g) ph s E ws L (dir w')"
      using To_fill eff(2) J(2) W by (auto simp: joint_def after_draft_def contents_def)
    then show ?thesis using phase_stands [OF conjunct1 [OF P]] P To_fill by auto
  next
    case To_sync
    then have d: "dir w' = dir w" "root w' = root w" using op sys_sync_effect [of ?tmp w r w'] sys_sync_dir_effect [of w r w'] by simp_all
    have P: "phase_inv ph s E (dir w') \<and> others_same w w'" using same_dir [OF d] To_sync by simp
    then have "joint (after_draft t g) ph s E ws L (dir w')"
      using To_sync d J(2) W by (auto simp: joint_def after_draft_def)
    then show ?thesis using phase_stands [OF conjunct1 [OF P]] P To_sync by auto
  next
    case To_rename
    then have c: "sys_rename ?tmp (sst_name (span_of t)) w = (r, w')" and f: "map_of (dir w) ?tmp = Some (file_data t)"
      and size: "length (file_data t) \<le> MAX_FILE_SIZE" and P0: "phase_inv ph s E (dir w)"
      using op W(5) J(1) by simp_all
    from c f show ?thesis
    proof (cases rule: sys_rename_effect)
      case renamed
      have dist: "distinct (map fst (dir w'))" using renamed(4) P0 by (simp add: phase_inv_def held_def dir_clean_def)
      have P: "phase_inv ph (pushed t s) (E @ [apply_writes ws]) (dir w')"
        using W(4) [OF size] by (intro phase_publish [OF P0 W(2) _ _ W(3) renamed(2) dist]) simp_all
      have v: "view (E @ [apply_writes ws]) ws = view E ws" by (rule view_twice) simp
      have "joint (after_draft t g) ph s (E @ [apply_writes ws]) ws L (dir w')"
        using P To_rename J(2) W size by (simp add: joint_def after_draft_def)
      moreover have "others_same w w'"
        using renamed(2,3) table_names_named [of _ "span_of t"] by (simp add: others_same_def)
      ultimately show ?thesis using phase_stands [OF P] v To_rename by auto
    next
      case (failed st)
      then show ?thesis using phase_stands [OF P0] by (auto simp: others_same_def)
    qed
  next
    case To_sync_dir
    then have d: "dir w' = dir w" "root w' = root w" using op sys_sync_effect [of ?tmp w r w'] sys_sync_dir_effect [of w r w'] by simp_all
    have P: "phase_inv ph (pushed t s) E (dir w') \<and> others_same w w'" using same_dir [OF d] To_sync_dir by simp
    then have "joint (after_draft t g) ph s E ws L (dir w')"
      using To_sync_dir J(2) W by (simp add: joint_def after_draft_def)
    then show ?thesis using phase_stands [OF conjunct1 [OF P]] P To_sync_dir by auto
  qed
  then show "\<exists>E'. stands (dir w') E' \<and> view E' ws = view E ws"
    "r = Ok () \<Longrightarrow> \<exists>E'. joint (after_draft t g) ph s E' ws L (dir w') \<and>
      (if g = To_rename then view E' ws = view E ws else E' = E)"
    "others_same w w'" by blast+
qed

text \<open>The start of a flush, and its push.\<close>

lemma joint_start:
  assumes inv: "joint Full ph s E ws L d" and room: "next_seq s + 1 < 2 ^ 64" and fits: "\<forall>e \<in> set ws. write_fits e"
    and t: "build_table (next_seq s, next_seq s) n b (apply_writes ws) = Ok t"
  shows "joint (Flushing t To_create) ph s E ws L d"
proof -
  have m: "apply_writes ws \<noteq> []" "key_sorted (apply_writes ws)" "\<forall>e \<in> set (apply_writes ws). entry_fits e"
    using inv apply_writes_sorted apply_writes_fits [OF fits] by (auto simp: joint_def)
  have "span_of t = (next_seq s, next_seq s)" using t by (auto elim: build_table_writer)
  moreover have "wf_table t (apply_writes ws) \<and> storable t" if size: "length (file_data t) \<le> MAX_FILE_SIZE"
    using built_table(1,3) [OF t size m] built_table(2) [OF t size m] unfolding storable_def by auto
  ultimately show ?thesis using inv room by (simp add: joint_def)
qed

lemma joint_push:
  assumes "joint (Pushing t) ph s E ws L d"
  shows "joint Flushed ph (pushed t s) E [] L d" and "view E [] = view E ws"
proof -
  from assms have J: "phase_inv ph (base (Pushing t) s) E d" "inside ph s" "L = ws" "map_of (last E) = map_of (apply_writes ws)"
    by (simp_all add: joint_def)
  obtain ess m where e: "E = ess @ [m]" by (rule named_entries [OF J(1)]) simp_all
  then have "map_of m = map_of (apply_writes ws)" using J(4) by simp
  from view_twice [OF this] e show v: "view E [] = view E ws" by simp
  show "joint Flushed ph (pushed t s) E [] L d" using J inside_pushed v by (simp add: joint_def)
qed

end
