(* ===== verification/Interleaving.thy ===== *)
theory Interleaving
  imports Flushing
begin

text \<open>
  The compactor thread of \<^verbatim>\<open>src/src/db.rs\<close> beside the thread that writes. A compaction is not one step: it merges
  a snapshot of the tables, writes the merged table with five calls, swaps it in under the lock, then unlinks
  its inputs one by one. A write is not one step either: it goes to the log and into the memtable, and if that
  is full its table is written with five calls and pushed, and the log is cut. Here all of these are steps of a
  relation, and every interleaving is shown to be what the writes alone would be.
\<close>

section \<open>The two threads\<close>

record system =
  sys_db :: db
  sys_phase :: phase
  sys_writing :: writing
  sys_world :: world

text \<open>
  The writer logs (\<open>do_log\<close>, which counts as the write), builds the table of a full memtable (\<open>do_flush\<close>), writes
  it (\<open>do_draft\<close>), adds it to the set and clears the memtable (\<open>do_push\<close>), and cuts the log and rings the
  compactor (\<open>do_cut\<close>). The compactor merges (\<open>do_begin\<close> if nothing is left of the run, \<open>do_build\<close> otherwise),
  writes (\<open>do_call\<close>), gives up at an error of a call before the merged table has its name (\<open>do_give_up\<close>, which
  ends its turn), swaps, unlinks, and looks for the next run, or ends its turn (\<open>do_wait\<close>) when there is none.
\<close>

definition picked :: "db \<Rightarrow> (nat \<times> nat) option" where
  "picked db = pick_run (db_set db) (cfg_threshold (db_config db)) (cfg_ratio (db_config db))"

definition run_at :: "nat \<Rightarrow> nat \<Rightarrow> sstable_set \<Rightarrow> sstable list" where
  "run_at start count s = take count (drop start (tables s))"

definition log_entry :: "(bytes \<Rightarrow> u32) \<Rightarrow> entry \<Rightarrow> db \<Rightarrow> unit io" where
  "log_entry crc e db = wal_append crc (db_wal db) (wkey (wrec e)) (wvalue (wrec e)) (woperation (wrec e))"

text \<open>Whether a write fills the memtable.\<close>

definition after_log :: "entry \<Rightarrow> db \<Rightarrow> writing" where
  "after_log e db = (if cfg_table_size (db_config db) < db_size (logged e db) then Full else Ready)"

definition flushed_span :: "db \<Rightarrow> nat \<times> nat" where
  "flushed_span db = (next_seq (db_set db), next_seq (db_set db))"

inductive step :: "(bytes \<Rightarrow> u32) \<Rightarrow> system \<Rightarrow> entry option \<Rightarrow> system \<Rightarrow> bool" for crc where
  do_log: "sys_writing x = Ready \<Longrightarrow> log_entry crc e (sys_db x) (sys_world x) = (Ok (), w') \<Longrightarrow> write_fits e \<Longrightarrow>
    step crc x (Some e)
      (x\<lparr>sys_db := logged e (sys_db x), sys_writing := after_log e (sys_db x), sys_world := w'\<rparr>)"
| do_flush: "sys_writing x = Full \<Longrightarrow> room (sys_db x) \<Longrightarrow>
    build_table (flushed_span (sys_db x)) (length (db_map (sys_db x))) (bits_per_key (db_set (sys_db x)))
      (db_map (sys_db x)) = Ok t \<Longrightarrow>
    step crc x None (x\<lparr>sys_writing := Flushing t To_create\<rparr>)"
| do_draft: "sys_writing x = Flushing t g \<Longrightarrow> table_call t g (sys_world x) = (Ok (), w') \<Longrightarrow>
    step crc x None (x\<lparr>sys_writing := after_draft t g, sys_world := w'\<rparr>)"
| do_push: "sys_writing x = Pushing t \<Longrightarrow>
    step crc x None (x\<lparr>sys_db := (sys_db x)\<lparr>db_set := pushed t (db_set (sys_db x)), db_map := []\<rparr>, sys_writing := Flushed\<rparr>)"
| do_cut: "sys_writing x = Flushed \<Longrightarrow> wal_truncate (db_wal (sys_db x)) (sys_world x) = (Ok (), w') \<Longrightarrow>
    step crc x None (x\<lparr>sys_db := (sys_db x)\<lparr>db_rings := db_rings (sys_db x) + 1, db_size := 0\<rparr>,
      sys_writing := Ready, sys_world := w'\<rparr>)"
| do_begin: "sys_phase x = Idle \<Longrightarrow> 0 < db_rings (sys_db x) \<Longrightarrow> picked (sys_db x) = Some (start, count) \<Longrightarrow>
    2 \<le> count \<Longrightarrow> start + count \<le> length (tables (db_set (sys_db x))) \<Longrightarrow>
    merge (run_at start count (db_set (sys_db x))) (start = 0) = Ok [] \<Longrightarrow>
    step crc x None (x\<lparr>sys_phase := Merged start count None\<rparr>)"
| do_build: "sys_phase x = Idle \<Longrightarrow> 0 < db_rings (sys_db x) \<Longrightarrow> picked (sys_db x) = Some (start, count) \<Longrightarrow>
    2 \<le> count \<Longrightarrow> start + count \<le> length (tables (db_set (sys_db x))) \<Longrightarrow>
    merge (run_at start count (db_set (sys_db x))) (start = 0) = Ok M \<Longrightarrow> M \<noteq> [] \<Longrightarrow>
    build_table (first_seq (hd (run_at start count (db_set (sys_db x)))),
      last_seq (last (run_at start count (db_set (sys_db x))))) (length M) (bits_per_key (db_set (sys_db x))) M = Ok t \<Longrightarrow>
    step crc x None (x\<lparr>sys_phase := Writing start count t To_create\<rparr>)"
| do_call: "sys_phase x = Writing start count t g \<Longrightarrow> table_call t g (sys_world x) = (Ok (), w') \<Longrightarrow>
    step crc x None (x\<lparr>sys_phase := after_call start count t g, sys_world := w'\<rparr>)"
| do_give_up: "sys_phase x = Writing start count t g \<Longrightarrow> g \<noteq> To_sync_dir \<Longrightarrow>
    table_call t g (sys_world x) = (Fail (Io err), w') \<Longrightarrow>
    step crc x None (x\<lparr>sys_db := (sys_db x)\<lparr>db_rings := db_rings (sys_db x) - 1\<rparr>, sys_phase := Idle, sys_world := w'\<rparr>)"
| do_swap: "sys_phase x = Merged start count replacement \<Longrightarrow>
    step crc x None
      (x\<lparr>sys_db := (sys_db x)\<lparr>db_set := replace_tables (splice start count replacement) (db_set (sys_db x))\<rparr>,
         sys_phase := Unlinking (run_at start count (db_set (sys_db x)))\<rparr>)"
| do_unlink: "sys_phase x = Unlinking (t # ts) \<Longrightarrow> sys_remove (path t) (sys_world x) = (Ok (), w') \<Longrightarrow>
    step crc x None (x\<lparr>sys_phase := Unlinking ts, sys_world := w'\<rparr>)"
| do_finish: "sys_phase x = Unlinking [] \<Longrightarrow> step crc x None (x\<lparr>sys_phase := Idle\<rparr>)"
| do_wait: "sys_phase x = Idle \<Longrightarrow> 0 < db_rings (sys_db x) \<Longrightarrow> picked (sys_db x) = None \<Longrightarrow>
    step crc x None (x\<lparr>sys_db := (sys_db x)\<lparr>db_rings := db_rings (sys_db x) - 1\<rparr>\<rparr>)"

text \<open>A run, with the writes that were done in it.\<close>

inductive steps :: "(bytes \<Rightarrow> u32) \<Rightarrow> system \<Rightarrow> entry list \<Rightarrow> system \<Rightarrow> bool" for crc where
  stay: "steps crc x [] x"
| move: "steps crc x es y \<Longrightarrow> step crc y l z \<Longrightarrow> steps crc x (es @ option_list l) z"

text \<open>The next action of one of the threads, with whatever outcome: all that matters is the disk it leaves.\<close>

inductive attempt :: "(bytes \<Rightarrow> u32) \<Rightarrow> system \<Rightarrow> entry option \<Rightarrow> world \<Rightarrow> bool" for crc where
  try_log: "sys_writing x = Ready \<Longrightarrow> log_entry crc e (sys_db x) (sys_world x) = (r, w') \<Longrightarrow> write_fits e \<Longrightarrow>
    attempt crc x (Some e) w'"
| try_draft: "sys_writing x = Flushing t g \<Longrightarrow> table_call t g (sys_world x) = (r, w') \<Longrightarrow> attempt crc x None w'"
| try_cut: "sys_writing x = Flushed \<Longrightarrow> wal_truncate (db_wal (sys_db x)) (sys_world x) = (r, w') \<Longrightarrow>
    attempt crc x None w'"
| try_call: "sys_phase x = Writing start count t g \<Longrightarrow> table_call t g (sys_world x) = (r, w') \<Longrightarrow> attempt crc x None w'"
| try_unlink: "sys_phase x = Unlinking (t # ts) \<Longrightarrow> sys_remove (path t) (sys_world x) = (r, w') \<Longrightarrow>
    attempt crc x None w'"

inductive_cases stepE: "step crc x l y"
inductive_cases attemptE: "attempt crc x l w'"

lemmas step_cases = stepE [consumes 1, case_names do_log do_flush do_draft do_push do_cut do_begin do_build do_call
  do_give_up do_swap do_unlink do_finish do_wait]
lemmas attempt_cases = attemptE [consumes 1, case_names try_log try_draft try_cut try_call try_unlink]

section \<open>Every interleaving\<close>

text \<open>The log on the disk has the writes \<open>L\<close>, the memtable has \<open>ws\<close>.\<close>

definition backed :: "(bytes \<Rightarrow> u32) \<Rightarrow> db \<Rightarrow> world \<Rightarrow> entry list \<Rightarrow> entry list \<Rightarrow> bool" where
  "backed crc db w L ws \<longleftrightarrow>
     root w = Directory \<and> wfile (db_wal db) = WAL_NAME \<and>
     map_of (dir w) WAL_NAME = Some (frames crc (map wrec L)) \<and>
     (\<forall>e \<in> set L. write_fits e) \<and> (\<forall>e \<in> set ws. write_fits e) \<and> db_map db = apply_writes ws"

definition sys_state :: "(bytes \<Rightarrow> u32) \<Rightarrow> system \<Rightarrow> entry list list \<Rightarrow> entry list \<Rightarrow> entry list \<Rightarrow> bool" where
  "sys_state crc x E ws L \<longleftrightarrow>
     joint (sys_writing x) (sys_phase x) (db_set (sys_db x)) E ws L (dir (sys_world x)) \<and>
     backed crc (sys_db x) (sys_world x) L ws"

definition sys_inv :: "(bytes \<Rightarrow> u32) \<Rightarrow> system \<Rightarrow> entry list list \<Rightarrow> entry list \<Rightarrow> bool" where
  "sys_inv crc x E ws \<longleftrightarrow> (\<exists>L. sys_state crc x E ws L)"

text \<open>What a step of the two threads does to the entries, the memtable and the log: it logs a write, gives the
  table of a flush its name, clears the memtable or cuts the log; otherwise it leaves the contents of the tables.\<close>

definition carried :: "writing \<Rightarrow> writing \<Rightarrow> entry option \<Rightarrow> entry list list \<Rightarrow> entry list \<Rightarrow> entry list \<Rightarrow>
    entry list list \<Rightarrow> entry list \<Rightarrow> entry list \<Rightarrow> bool" where
  "carried wr wr' l E ws L E' ws' L' \<longleftrightarrow>
     (case l of
        Some e \<Rightarrow> wr = Ready \<and> (wr' = Ready \<or> wr' = Full) \<and> E' = E \<and> ws' = ws @ [e] \<and> L' = L @ [e]
      | None \<Rightarrow>
          live_eq E' E \<and> ws' = ws \<and> L' = L \<and> (\<forall>t. wr' = Ready \<or> wr' = Flushing t To_sync_dir \<longrightarrow> wr = wr') \<or>
          (\<exists>t. wr = Flushing t To_rename \<and> wr' = Flushing t To_sync_dir) \<and> view E' ws = view E ws \<and> ws' = ws \<and> L' = L \<or>
          (\<exists>t. wr = Pushing t) \<and> wr' = Flushed \<and> E' = E \<and> L' = L \<or>
          wr = Flushed \<and> wr' = Ready \<and> E' = E \<and> ws' = ws \<and> L' = [])"

definition written :: "(bytes \<Rightarrow> bytes option) \<Rightarrow> entry list \<Rightarrow> bytes \<Rightarrow> bytes option" where
  "written m es = foldl (\<lambda>m (k, v). m(k := v)) m es"

lemma written_simps [simp]: "written m [] = m" "written m (es @ [(k, v)]) = (written m es)(k := v)"
  by (simp_all add: written_def)

lemma option_list_simps [simp]: "option_list None = []" "option_list (Some z) = [z]"
  by (simp_all add: option_list_def)

lemma sys_stateI:
  "joint (sys_writing x) (sys_phase x) (db_set (sys_db x)) E ws L (dir (sys_world x)) \<Longrightarrow>
     backed crc (sys_db x) (sys_world x) L ws \<Longrightarrow> sys_state crc x E ws L"
  unfolding sys_state_def by blast

lemma backed_store: "J (db_set db) ess (dir w) \<Longrightarrow> backed crc db w ws ws \<longleftrightarrow> store_inv J crc db w ess ws"
  by (auto simp: backed_def store_inv_def)

lemma backed_others: "backed crc db w L ws \<Longrightarrow> others_same w w' \<Longrightarrow> backed crc db w' L ws"
  using others_same_WAL [of w w'] by (simp add: backed_def others_same_def)

lemma backed_db:
  "backed crc db w L ws \<Longrightarrow> db_wal db' = db_wal db \<Longrightarrow> db_map db' = db_map db \<Longrightarrow> backed crc db' w L ws"
  by (simp add: backed_def)

lemma sys_inv_idle:
  assumes "sys_phase x = Idle" and "sys_writing x = Ready" and "db_inv crc (sys_db x) (sys_world x) ess ws"
  shows "sys_inv crc x ess ws"
  using assms backed_store [of set_inv "sys_db x" ess "sys_world x" crc ws]
  by (auto simp: sys_inv_def sys_state_def joint_def phase_inv_Idle db_inv_store store_inv_def)

text \<open>The disk stands for the contents if its tables do and the log is untouched.\<close>

lemma backed_disk_view:
  assumes "backed crc db w L ws" and "others_same w w'" and "stands (dir w') E"
  shows "disk_view crc (dir w') (view E L)" and "root w' = Directory"
  using assms stands_view [of "dir w'" E L crc "[]"] others_same_WAL [OF assms(2)]
  by (auto simp: backed_def contents_def others_same_def)

lemma joint_log: "joint wr ph s E ws L d \<Longrightarrow> view E L = view E ws"
  unfolding joint_def using writer_log by blast

lemma joint_stands: "joint wr ph s E ws L d \<Longrightarrow> stands d E"
  unfolding joint_def using phase_stands by blast

text \<open>The log of a writer that is ready.\<close>

lemma log_keeps:
  assumes J: "joint Ready ph (db_set db) E ws L (dir w)" and B: "backed crc db w L ws" and fits: "write_fits (k, v)"
    and op: "log_entry crc (k, v) db w = (r, w')"
  shows "disk_view crc (dir w') (view E ws) \<or> disk_view crc (dir w') ((view E ws)(k := v))"
    and "r = Ok () \<Longrightarrow> joint (after_log (k, v) db) ph (db_set db) E (ws @ [(k, v)]) (ws @ [(k, v)]) (dir w') \<and>
      backed crc (logged (k, v) db) w' (ws @ [(k, v)]) (ws @ [(k, v)])"
    and "root w' = Directory"
proof -
  from J have P: "phase_inv ph (db_set db) E (dir w)" "inside ph (db_set db)" "L = ws" by (simp_all add: joint_def)
  have inv: "store_inv (phase_inv ph) crc db w E ws" using B P(1,3) backed_store by blast
  note ak = in_phase.append_keeps [OF inv fits op [unfolded log_entry_def]]
  show "disk_view crc (dir w') (view E ws) \<or> disk_view crc (dir w') ((view E ws)(k := v))" "root w' = Directory"
    by (rule ak(1), rule ak(3))
  assume "r = Ok ()"
  then have I: "store_inv (phase_inv ph) crc (logged (k, v) db) w' E (ws @ [(k, v)])" by (rule ak(2))
  then have "phase_inv ph (db_set db) E (dir w')" by (simp add: store_inv_def)
  then show "joint (after_log (k, v) db) ph (db_set db) E (ws @ [(k, v)]) (ws @ [(k, v)]) (dir w') \<and>
      backed crc (logged (k, v) db) w' (ws @ [(k, v)]) (ws @ [(k, v)])"
    using P(2) I backed_store [of "phase_inv ph" "logged (k, v) db" E w' crc "ws @ [(k, v)]"]
    by (simp add: joint_def after_log_def)
qed

lemma cut_keeps:
  assumes J: "joint Flushed ph (db_set db) E ws L (dir w)" and B: "backed crc db w L ws"
    and op: "wal_truncate (db_wal db) w = (r, w')"
  shows "disk_view crc (dir w') (view E ws)" and "root w' = Directory"
    and "r = Ok () \<Longrightarrow> joint Ready ph (db_set db) E ws [] (dir w') \<and> backed crc db w' [] ws"
proof -
  from J have P: "phase_inv ph (db_set db) E (dir w)" "inside ph (db_set db)" "ws = []" "view E L = view E []"
    by (simp_all add: joint_def)
  have l: "wfile (db_wal db) = WAL_NAME" "root w = Directory" using B by (simp_all add: backed_def)
  note te = wal_truncate_effect [OF op, unfolded l(1)]
  have P': "phase_inv ph (db_set db) E (dir w')" using in_phase.J_same [OF te(1) extension_WAL P(1)] .
  show root: "root w' = Directory" using te(1) l(2) by (simp add: same_except_def)
  from te(2) show "disk_view crc (dir w') (view E ws)"
  proof
    assume d: "dir w' = dir w"
    then have "others_same w w'" using root l(2) by (simp add: others_same_def)
    from backed_disk_view(1) [OF B this phase_stands [OF P']] show ?thesis using P(3,4) by simp
  next
    assume "map_of (dir w') WAL_NAME = Some []"
    then show ?thesis using stands_view [OF phase_stands [OF P'], of "[]" crc "[]"] P(3) by (simp add: contents_def)
  qed
  show "joint Ready ph (db_set db) E ws [] (dir w') \<and> backed crc db w' [] ws" if "r = Ok ()"
    using te(3) that P' P(2,3) B root by (simp add: joint_def backed_def)
qed

lemma step_state:
  assumes inv: "sys_state crc x E ws L" and "step crc x l y"
  shows "\<exists>E' ws' L'. sys_state crc y E' ws' L' \<and> view E' ws' = written (view E ws) (option_list l) \<and>
    carried (sys_writing x) (sys_writing y) l E ws L E' ws' L'"
proof -
  from inv have J: "joint (sys_writing x) (sys_phase x) (db_set (sys_db x)) E ws L (dir (sys_world x))"
    and B: "backed crc (sys_db x) (sys_world x) L ws" by (simp_all add: sys_state_def)
  have next_state: ?thesis if "sys_state crc y E' ws' L'" "view E' ws' = written (view E ws) (option_list l)"
    "carried (sys_writing x) (sys_writing y) l E ws L E' ws' L'" for E' ws' L' using that by blast
  from assms(2) show ?thesis
  proof (cases rule: step_cases)
    case (do_log e w')
    obtain k v where e: "e = (k, v)" by (cases e)
    note lk = log_keeps(2) [OF J [unfolded do_log(3)] B do_log(5,4) [unfolded e] refl]
    have S: "sys_state crc y E (ws @ [(k, v)]) (ws @ [(k, v)])"
      using lk do_log(2) e by (intro sys_stateI) simp_all
    show ?thesis by (rule next_state [OF S]) (use do_log(1-3) e J in
        \<open>simp_all add: view_write written_def carried_def joint_def after_log_def\<close>)
  next
    case (do_flush t)
    have "joint (Flushing t To_create) (sys_phase x) (db_set (sys_db x)) E ws L (dir (sys_world x))"
      using do_flush(3,4,5) J B by (intro joint_start) (auto simp: room_def backed_def flushed_span_def)
    then have S: "sys_state crc y E ws L" using do_flush(2) B by (intro sys_stateI) simp_all
    show ?thesis by (rule next_state [OF S]) (use do_flush(1,2) in \<open>simp_all add: carried_def\<close>)
  next
    case (do_draft t g w')
    note jd = joint_draft [OF J [unfolded do_draft(3)] do_draft(4)]
    from jd(2) obtain E' where E': "joint (after_draft t g) (sys_phase x) (db_set (sys_db x)) E' ws L (dir w')"
      "if g = To_rename then view E' ws = view E ws else E' = E" by blast
    have S: "sys_state crc y E' ws L"
      using E'(1) do_draft(2) backed_others [OF B jd(3)] by (intro sys_stateI) simp_all
    show ?thesis by (rule next_state [OF S]) (use do_draft(1-3) E'(2) in \<open>cases g; simp add: carried_def after_draft_def\<close>)+
  next
    case (do_push t)
    note jp = joint_push [OF J [unfolded do_push(3)]]
    have S: "sys_state crc y E [] L" using jp(1) do_push(2) B by (intro sys_stateI) (simp_all add: backed_def)
    show ?thesis by (rule next_state [OF S]) (use do_push(1-3) jp(2) in \<open>simp_all add: carried_def\<close>)
  next
    case (do_cut w')
    note ck = cut_keeps(3) [OF J [unfolded do_cut(3)] B do_cut(4) refl]
    have "backed crc ((sys_db x)\<lparr>db_rings := db_rings (sys_db x) + 1, db_size := 0\<rparr>) w' [] ws"
      by (rule backed_db [OF conjunct2 [OF ck]]) simp_all
    then have S: "sys_state crc y E ws []" using ck do_cut(2) by (intro sys_stateI) simp_all
    show ?thesis by (rule next_state [OF S]) (use do_cut(1-3) in \<open>simp_all add: carried_def\<close>)
  next
    case (do_begin start count)
    have "joint (sys_writing x) (Merged start count None) (db_set (sys_db x)) E ws L (dir (sys_world x))"
      using do_begin(8) J do_begin(3)
      by (intro joint_begin(1) [OF _ do_begin(6,7)]) (simp_all add: run_at_def)
    then have S: "sys_state crc y E ws L" using do_begin(2) B by (intro sys_stateI) simp_all
    show ?thesis by (rule next_state [OF S]) (use do_begin(1,2) in \<open>simp_all add: carried_def\<close>)
  next
    case (do_build start count M t)
    have "joint (sys_writing x) (Writing start count t To_create) (db_set (sys_db x)) E ws L (dir (sys_world x))"
      using do_build(8,9,10) J do_build(3)
      by (intro joint_begin(2) [OF _ do_build(6,7)]) (simp_all add: run_at_def)
    then have S: "sys_state crc y E ws L" using do_build(2) B by (intro sys_stateI) simp_all
    show ?thesis by (rule next_state [OF S]) (use do_build(1,2) in \<open>simp_all add: carried_def\<close>)
  next
    case (do_call start count t g w')
    note jc = joint_call [OF J [unfolded do_call(3)] do_call(4)]
    have S: "sys_state crc y E ws L"
      using jc(2) do_call(2) backed_others [OF B jc(4)] by (intro sys_stateI) simp_all
    show ?thesis by (rule next_state [OF S]) (use do_call(1,2) in \<open>simp_all add: carried_def\<close>)
  next
    case (do_give_up start count t g err w')
    note jc = joint_call [OF J [unfolded do_give_up(3)] do_give_up(5)]
    have "backed crc ((sys_db x)\<lparr>db_rings := db_rings (sys_db x) - 1\<rparr>) w' L ws"
      by (rule backed_db [OF backed_others [OF B jc(4)]]) simp_all
    then have S: "sys_state crc y E ws L"
      using jc(3) [OF refl do_give_up(4)] do_give_up(2) by (intro sys_stateI) simp_all
    show ?thesis by (rule next_state [OF S]) (use do_give_up(1,2) in \<open>simp_all add: carried_def\<close>)
  next
    case (do_swap start count replacement)
    let ?s = "db_set (sys_db x)"
    from joint_swap [OF J [unfolded do_swap(3)]] obtain E' where E': "live_eq E' E"
      "joint (sys_writing x) (Unlinking (run_at start count ?s)) (replace_tables (splice start count replacement) ?s)
         E' ws L (dir (sys_world x))" unfolding run_at_def by blast
    have S: "sys_state crc y E' ws L" using E'(2) do_swap(2) backed_db [OF B] by (intro sys_stateI) simp_all
    show ?thesis by (rule next_state [OF S]) (use live_eq_view [OF E'(1)] E'(1) do_swap(1,2) in \<open>simp_all add: carried_def\<close>)
  next
    case (do_unlink t ts w')
    note ju = joint_unlink [OF J [unfolded do_unlink(3)] do_unlink(4)]
    have S: "sys_state crc y E ws L"
      using ju(2) do_unlink(2) backed_others [OF B ju(3)] by (intro sys_stateI) simp_all
    show ?thesis by (rule next_state [OF S]) (use do_unlink(1,2) in \<open>simp_all add: carried_def\<close>)
  next
    case do_finish
    then have S: "sys_state crc y E ws L"
      using J B by (intro sys_stateI) (simp_all add: joint_def phase_inv_def)
    show ?thesis by (rule next_state [OF S]) (use do_finish(1,2) in \<open>simp_all add: carried_def\<close>)
  next
    case do_wait
    then have S: "sys_state crc y E ws L"
      using J backed_db [OF B] by (intro sys_stateI) simp_all
    show ?thesis by (rule next_state [OF S]) (use do_wait(1,2) in \<open>simp_all add: carried_def\<close>)
  qed
qed

lemma step_keeps:
  assumes "sys_inv crc x E ws" and "step crc x l y"
  shows "\<exists>E' ws'. sys_inv crc y E' ws' \<and> view E' ws' = written (view E ws) (option_list l)"
  using assms step_state unfolding sys_inv_def by blast

lemma steps_keep:
  assumes "steps crc x es y" and "sys_inv crc x E ws"
  shows "\<exists>E' ws'. sys_inv crc y E' ws' \<and> view E' ws' = written (view E ws) es"
  using assms
proof (induction rule: steps.induct)
  case (stay x)
  then show ?case by auto
next
  case (move x es y l z)
  then obtain E1 ws1 where one: "sys_inv crc y E1 ws1" "view E1 ws1 = written (view E ws) es" by blast
  from step_keeps [OF one(1) move(2)] one(2) show ?case
    by (auto simp: written_def)
qed

lemma attempt_effect:
  assumes inv: "sys_inv crc x E ws" and "attempt crc x l w'"
  shows "(disk_view crc (dir w') (view E ws) \<or> disk_view crc (dir w') (written (view E ws) (option_list l))) \<and>
    root w' = Directory"
proof -
  from inv obtain L where J: "joint (sys_writing x) (sys_phase x) (db_set (sys_db x)) E ws L (dir (sys_world x))"
    and B: "backed crc (sys_db x) (sys_world x) L ws" by (auto simp: sys_inv_def sys_state_def)
  note dv = backed_disk_view [OF B]
  from assms(2) show ?thesis
  proof (cases rule: attempt_cases)
    case (try_log e r)
    obtain k v where e: "e = (k, v)" by (cases e)
    show ?thesis
      using log_keeps(1,3) [OF J [unfolded try_log(2)] B try_log(4,3) [unfolded e]] try_log(1) e
      by (auto simp: written_def)
  next
    case (try_draft t g r)
    have L: "L = ws" using J [unfolded try_draft(2)] by (simp add: joint_def)
    note jd = joint_draft [OF J [unfolded try_draft(2)] try_draft(3)]
    from jd(1) obtain E' where "stands (dir w') E'" "view E' ws = view E ws" by blast
    then show ?thesis using dv [OF jd(3)] L by metis
  next
    case (try_cut r)
    show ?thesis using cut_keeps(1,2) [OF J [unfolded try_cut(2)] B try_cut(3)] by blast
  next
    case (try_call start count t g r)
    note jc = joint_call [OF J [unfolded try_call(2)] try_call(3)]
    show ?thesis using dv [OF jc(4,1)] joint_log [OF J] by simp
  next
    case (try_unlink t ts r)
    note ju = joint_unlink [OF J [unfolded try_unlink(2)] try_unlink(3)]
    show ?thesis using dv [OF ju(3,1)] joint_log [OF J] by simp
  qed
qed

text \<open>The steps are those of \<open>compact\<close>: one after the other, without the writer, they are its result.\<close>

lemma steps_trans: "steps crc y fs z \<Longrightarrow> steps crc x es y \<Longrightarrow> steps crc x (es @ fs) z"
proof (induction rule: steps.induct)
  case (stay y)
  then show ?case by simp
next
  case (move y fs z l u)
  then show ?case using steps.move [of crc x "es @ fs" z l u] by simp
qed

lemma steps_one: "step crc x None y \<Longrightarrow> steps crc x [] y"
  using steps.move [OF steps.stay] by (force simp: option_list_def)

lemma unlink_steps:
  "remove_files us w = (Ok u, w') \<Longrightarrow>
     steps crc (x\<lparr>sys_phase := Unlinking us, sys_world := w\<rparr>) [] (x\<lparr>sys_phase := Idle, sys_world := w'\<rparr>)"
proof (induction us arbitrary: w)
  case Nil
  let ?x = "x\<lparr>sys_phase := Unlinking [], sys_world := w\<rparr>"
  have eq: "x\<lparr>sys_phase := Idle, sys_world := w\<rparr> = ?x\<lparr>sys_phase := Idle\<rparr>" by simp
  have "steps crc ?x [] (?x\<lparr>sys_phase := Idle\<rparr>)" by (intro steps_one step.do_finish) simp
  then show ?case using Nil unfolding eq [symmetric] by simp
next
  case (Cons t us)
  then obtain w1 where w1: "sys_remove (path t) w = (Ok (), w1)" "remove_files us w1 = (Ok u, w')"
    by (auto simp: io_bind_def split: res.splits prod.splits)
  have "steps crc (x\<lparr>sys_phase := Unlinking (t # us), sys_world := w\<rparr>) []
      (x\<lparr>sys_phase := Unlinking us, sys_world := w1\<rparr>)"
    using step.do_unlink [of "x\<lparr>sys_phase := Unlinking (t # us), sys_world := w\<rparr>" t us w1 crc] w1(1)
    by (auto intro!: steps_one)
  from steps_trans [OF Cons.IH [OF w1(2)] this] show ?case by simp
qed

text \<open>The five calls are \<open>write_table\<close>, the merge and the calls \<open>compact_prepare\<close>.\<close>

lemma steps_none: "steps crc x [] y \<Longrightarrow> steps crc y [] z \<Longrightarrow> steps crc x [] z"
  using steps_trans by fastforce

lemma write_table_steps:
  assumes "write_table s span n M w = (Ok t, w')"
  shows "steps crc (x\<lparr>sys_phase := Writing start count t To_create, sys_world := w\<rparr>) []
      (x\<lparr>sys_phase := Merged start count (Some t), sys_world := w'\<rparr>)"
proof -
  let ?R = "\<lambda>a u b v. steps crc (x\<lparr>sys_phase := a, sys_world := u\<rparr>) [] (x\<lparr>sys_phase := b, sys_world := v\<rparr>)"
  show ?thesis
  proof (rule write_table_chain [where R = ?R and f = "\<lambda>g. Writing start count t g", OF assms])
    show "?R (Writing start count t g) v
        (case next_stage g of Some g' \<Rightarrow> Writing start count t g' | None \<Rightarrow> Merged start count (Some t)) v'"
      if "table_call t g v = (Ok (), v')" for g v v'
      using step.do_call [of "x\<lparr>sys_phase := Writing start count t g, sys_world := v\<rparr>" start count t g v' crc] that
      by (auto simp: after_call_def intro!: steps_one)
  qed (rule steps_none)
qed

lemma flush_table_steps:
  assumes "write_table s span n M w = (Ok t, w')"
  shows "steps crc (x\<lparr>sys_writing := Flushing t To_create, sys_world := w\<rparr>) []
      (x\<lparr>sys_writing := Pushing t, sys_world := w'\<rparr>)"
proof -
  let ?R = "\<lambda>a u b v. steps crc (x\<lparr>sys_writing := a, sys_world := u\<rparr>) [] (x\<lparr>sys_writing := b, sys_world := v\<rparr>)"
  show ?thesis
  proof (rule write_table_chain [where R = ?R and f = "\<lambda>g. Flushing t g", OF assms])
    show "?R (Flushing t g) v (case next_stage g of Some g' \<Rightarrow> Flushing t g' | None \<Rightarrow> Pushing t) v'"
      if "table_call t g v = (Ok (), v')" for g v v'
      using step.do_draft [of "x\<lparr>sys_writing := Flushing t g, sys_world := v\<rparr>" t g v' crc] that
      by (auto simp: after_draft_def intro!: steps_one)
  qed (rule steps_none)
qed

lemma prepare_steps:
  assumes idle: "sys_phase x = Idle" "0 < db_rings (sys_db x)" "picked (sys_db x) = Some (start, count)"
    and op: "compact_prepare (db_set (sys_db x)) start count (sys_world x) = (Ok replacement, w')"
  shows "steps crc x [] (x\<lparr>sys_phase := Merged start count replacement, sys_world := w'\<rparr>)"
proof -
  let ?s = "db_set (sys_db x)" and ?run = "run_at start count (db_set (sys_db x))"
  let ?span = "(first_seq (hd ?run), last_seq (last ?run))"
  have bounds: "2 \<le> count" "start + count \<le> length (tables ?s)"
    using op by (auto simp: compact_prepare_def split: if_splits)
  obtain M where m: "merge ?run (start = 0) = Ok M"
    "(M = [] \<and> replacement = None \<and> w' = sys_world x) \<or>
     (M \<noteq> [] \<and> (\<exists>t. replacement = Some t \<and> write_table ?s ?span (length M) M (sys_world x) = (Ok t, w')))"
    using op by (auto simp: compact_prepare_def run_at_def Let_def io_bind_eq split: if_splits)
  from m(2) show ?thesis
  proof (elim disjE conjE exE)
    assume "M = []" and r: "replacement = None" "w' = sys_world x"
    then have "merge ?run (start = 0) = Ok []" using m(1) by simp
    from step.do_begin [OF idle bounds this] have "steps crc x [] (x\<lparr>sys_phase := Merged start count None\<rparr>)"
      by (rule steps_one)
    then show ?thesis using r by (cases x) simp
  next
    fix t assume ne: "M \<noteq> []" and r: "replacement = Some t"
      and wt: "write_table ?s ?span (length M) M (sys_world x) = (Ok t, w')"
    from step.do_build [OF idle bounds m(1) ne write_table_built [OF wt]]
    have one: "steps crc x [] (x\<lparr>sys_phase := Writing start count t To_create\<rparr>)" by (rule steps_one)
    have eq: "x\<lparr>sys_phase := Writing start count t To_create\<rparr> =
        x\<lparr>sys_phase := Writing start count t To_create, sys_world := sys_world x\<rparr>" by (cases x) simp
    have one': "steps crc x [] (x\<lparr>sys_phase := Writing start count t To_create, sys_world := sys_world x\<rparr>)"
      unfolding eq [symmetric] by (rule one)
    from steps_trans [OF write_table_steps [where crc = crc and x = x and start = start and count = count, OF wt] one'] r
    show ?thesis by simp
  qed
qed

lemma compact_as_steps:
  assumes "sys_phase x = Idle" and "0 < db_rings (sys_db x)"
    and "picked (sys_db x) = Some (start, count)"
    and "compact start count (db_set (sys_db x)) (sys_world x) = (Ok u, s', w')"
  shows "steps crc x [] (x\<lparr>sys_db := (sys_db x)\<lparr>db_set := s'\<rparr>, sys_world := w'\<rparr>)"
proof -
  let ?s = "db_set (sys_db x)"
  obtain replacement w1 where c: "compact_prepare ?s start count (sys_world x) = (Ok replacement, w1)"
    "s' = replace_tables (splice start count replacement) ?s"
    "remove_files (run_at start count ?s) w1 = (Ok u, w')"
    using assms(4) by (auto simp: run_at_def compact_def compact_publish_def Let_def split: res.splits prod.splits)
  let ?x1 = "x\<lparr>sys_phase := Merged start count replacement, sys_world := w1\<rparr>"
  let ?x2 = "x\<lparr>sys_db := (sys_db x)\<lparr>db_set := s'\<rparr>, sys_phase := Unlinking (run_at start count ?s), sys_world := w1\<rparr>"
  have one: "steps crc x [] ?x1" by (intro prepare_steps assms c)
  have eq: "?x2 = ?x1\<lparr>sys_db := (sys_db ?x1)\<lparr>db_set := replace_tables (splice start count replacement) (db_set (sys_db ?x1))\<rparr>,
      sys_phase := Unlinking (run_at start count (db_set (sys_db ?x1)))\<rparr>"
    using c(2) by simp
  have "step crc ?x1 None ?x2" unfolding eq by (rule step.do_swap) simp
  note two = steps_trans [OF steps_one [OF this] one]
  have "steps crc ?x2 [] (x\<lparr>sys_db := (sys_db x)\<lparr>db_set := s'\<rparr>, sys_phase := Idle, sys_world := w'\<rparr>)"
    using unlink_steps [OF c(3), of crc "x\<lparr>sys_db := (sys_db x)\<lparr>db_set := s'\<rparr>\<rparr>"] by simp
  from steps_trans [OF this two] show ?thesis using assms(1) by (cases x) simp
qed

text \<open>The steps of the writer are a write.\<close>

lemma flush_steps:
  assumes "sys_writing x = Full" and "room (sys_db x)" and "db_map (sys_db x) \<noteq> []"
    and "flush (sys_db x) (sys_world x) = (Ok u, db', w')"
  shows "steps crc x [] (x\<lparr>sys_db := db'\<lparr>db_size := 0\<rparr>, sys_writing := Ready, sys_world := w'\<rparr>)"
proof -
  let ?db = "sys_db x" and ?s = "db_set (sys_db x)"
  obtain t w1 where c: "write_table ?s (flushed_span ?db) (length (db_map ?db)) (db_map ?db) (sys_world x) = (Ok t, w1)"
    "wal_truncate (db_wal ?db) w1 = (Ok (), w')"
    "db' = ?db\<lparr>db_set := pushed t ?s, db_map := [], db_rings := db_rings ?db + 1\<rparr>"
    using assms(2-4)
    by (auto simp: flush_def set_write_def flushed_span_def replace_tables_def room_def Let_def
        split: res.splits prod.splits if_splits)
  let ?x1 = "x\<lparr>sys_writing := Flushing t To_create\<rparr>" and ?x2 = "x\<lparr>sys_writing := Pushing t, sys_world := w1\<rparr>"
  have one: "steps crc x [] ?x1"
    by (intro steps_one step.do_flush assms(1,2) write_table_built [OF c(1)])
  have eq: "?x1 = x\<lparr>sys_writing := Flushing t To_create, sys_world := sys_world x\<rparr>" by (cases x) simp
  have two: "steps crc ?x1 [] ?x2"
    using flush_table_steps [OF c(1), of crc x] unfolding eq [symmetric] .
  let ?x3 = "?x2\<lparr>sys_db := ?db\<lparr>db_set := pushed t ?s, db_map := []\<rparr>, sys_writing := Flushed\<rparr>"
  have "step crc ?x2 None ?x3" using step.do_push [of ?x2 t crc] by simp
  then have three: "steps crc ?x2 [] ?x3" by (rule steps_one)
  let ?x4 = "?x3\<lparr>sys_db := (sys_db ?x3)\<lparr>db_rings := db_rings ?db + 1, db_size := 0\<rparr>, sys_writing := Ready, sys_world := w'\<rparr>"
  have "step crc ?x3 None ?x4" using step.do_cut [of ?x3 w' crc] c(2) by simp
  then have four: "steps crc ?x3 [] ?x4" by (rule steps_one)
  have "?x4 = x\<lparr>sys_db := db'\<lparr>db_size := 0\<rparr>, sys_writing := Ready, sys_world := w'\<rparr>" using c(3) by simp
  then show ?thesis using steps_none [OF steps_none [OF steps_none [OF one two] three] four] by simp
qed

lemma write_as_steps:
  assumes "sys_writing x = Ready" and "room (sys_db x)" and "write_fits e"
    and "write_op crc e (sys_db x) (sys_world x) = (Ok u, db', w')"
  shows "steps crc x [e] (x\<lparr>sys_db := db', sys_world := w'\<rparr>)"
proof -
  let ?db1 = "logged e (sys_db x)"
  obtain w1 where w1: "log_entry crc e (sys_db x) (sys_world x) = (Ok (), w1)"
    "(after_log e (sys_db x) = Ready \<and> db' = ?db1 \<and> w' = w1) \<or>
     (after_log e (sys_db x) = Full \<and> (\<exists>db2. flush ?db1 w1 = (Ok (), db2, w') \<and> db' = db2\<lparr>db_size := 0\<rparr>))"
    using assms(4) by (auto simp: write_op_logged log_entry_def after_log_def split: res.splits prod.splits if_splits)
  let ?x1 = "x\<lparr>sys_db := ?db1, sys_writing := after_log e (sys_db x), sys_world := w1\<rparr>"
  have "step crc x (Some e) ?x1" by (rule step.do_log [OF assms(1) w1(1) assms(3)])
  then have one: "steps crc x [e] ?x1" using steps.move [OF steps.stay] by fastforce
  from w1(2) show ?thesis
  proof (elim disjE conjE exE)
    assume "after_log e (sys_db x) = Ready" "db' = ?db1" "w' = w1"
    then show ?thesis using one assms(1) by (cases x) simp
  next
    fix db2 assume full: "after_log e (sys_db x) = Full" and fl: "flush ?db1 w1 = (Ok (), db2, w')"
      and db': "db' = db2\<lparr>db_size := 0\<rparr>"
    have "steps crc ?x1 [] (?x1\<lparr>sys_db := db2\<lparr>db_size := 0\<rparr>, sys_writing := Ready, sys_world := w'\<rparr>)"
      using full fl assms(2) by (intro flush_steps) (simp_all add: room_def)
    from steps_trans [OF this one] show ?thesis using db' assms(1) by (cases x) simp
  qed
qed

section \<open>What holds of every interleaving\<close>

lemma sys_get:
  assumes "sys_inv crc x E ws"
  shows "db_get (sys_db x) = (\<lambda>k. Ok (view E ws k))"
  using assms writer_get [of "sys_phase x" "sys_writing x" "sys_db x" E _ ws]
  by (fastforce simp: sys_inv_def sys_state_def joint_def backed_def fun_eq_iff)

lemma sys_reopen:
  assumes "sys_inv crc x E ws"
  shows "\<exists>db2 w2. with_config crc cfg (calm (sys_world x)) = (Ok db2, w2) \<and> db_get db2 = (\<lambda>k. Ok (view E ws k))"
proof -
  from assms obtain L where J: "joint (sys_writing x) (sys_phase x) (db_set (sys_db x)) E ws L (dir (sys_world x))"
    and B: "backed crc (sys_db x) (sys_world x) L ws" by (auto simp: sys_inv_def sys_state_def)
  note dv = backed_disk_view [OF B others_same_refl joint_stands [OF J]]
  show ?thesis
    using reopen_disk_view [OF dv(1,2), of cfg] joint_log [OF J] by (auto simp: fun_eq_iff)
qed

text \<open>C2: however the writer and the compactor are interleaved, with the calls of a flush, its push and the
  cut of the log between those of a compaction, its swap and each unlink, every get answers as if there had been
  the writes alone, each when it is on the log; and wherever in between the process is killed, the next one opens
  the directory to the same contents. Calls succeed in an interleaving, but for a compaction that fails before the
  directory is synced for its table: it is given up and both threads go on. After any other failure, of a put, a
  flush, that sync or an unlink, nothing is claimed of the process that goes on.\<close>

theorem interleaving_refines_writes:
  assumes "steps crc x es y" and "sys_phase x = Idle" and "sys_writing x = Ready"
    and "db_inv crc (sys_db x) (sys_world x) ess ws"
  shows "db_get (sys_db y) = (\<lambda>k. Ok (written (view ess ws) es k)) \<and>
    (\<exists>db2 w2. with_config crc cfg (calm (sys_world y)) = (Ok db2, w2) \<and> db_get db2 = db_get (sys_db y))"
proof -
  have "sys_inv crc x ess ws" using assms(2-4) by (rule sys_inv_idle)
  from steps_keep [OF assms(1) this] obtain ess' ws' where y: "sys_inv crc y ess' ws'"
    "view ess' ws' = written (view ess ws) es" by blast
  show ?thesis using sys_get [OF y(1)] sys_reopen [OF y(1), of cfg] y(2) by auto
qed

text \<open>Two flushed tables of which a run is picked: a ratio that any two small files satisfy.\<close>

lemma set_write_size:
  assumes op: "set_write m s w = (Ok (), s', w')" and m: "m \<noteq> []" "length m * bits_per_key s + 127 < 2 ^ 64"
  shows "\<exists>t. tables s' = tables s @ [t] \<and> length (file_data t) \<le> 5 * rsize m + length m * bits_per_key s + 179"
proof -
  obtain t where t: "write_table s (next_seq s, next_seq s) (length m) m w = (Ok t, w')"
    "tables s' = tables s @ [t]"
    using op m(1) by (auto simp: set_write_def Let_def replace_tables_def split: prod.splits res.splits if_splits)
  from t(1) have "build_table (next_seq s, next_seq s) (length m) (bits_per_key s) m = Ok t"
    by (cases rule: write_table_effect) auto
  from build_table_size [OF this m] t(2) show ?thesis by blast
qed

lemma pick_run_two:
  assumes "list_all2 wf_table [A, B] ess" and "length (file_data A) < 2 ^ 20" and "length (file_data B) < 2 ^ 20"
    and "tables s = [A, B]"
  shows "pick_run s 2 (F64 1 20) = Some (0, 2)"
proof -
  let ?a = "length (file_data A)" and ?b = "length (file_data B)"
  have "0 < length (file_data t)" if "wf_table t es" for t es
  proof -
    have "length (enc_records es) \<le> length (file_data t)" and "es \<noteq> []"
      using that unfolding wf_table_def by (metis length_take min.cobounded1, blast)
    then show ?thesis by (cases es) auto
  qed
  then have pos: "0 < ?a" "0 < ?b" using assms(1) by (auto simp: list_all2_Cons1)
  have mult: "f64_mult (F64 (int n) 0) (F64 1 20) = F64 (int n) 20" if "n < 2 ^ 20" for n
    using that bit_len_less [of n 53] by (simp add: f64_mult_def f64_nearest_def sgn_if)
  have lt: "int ?a < 1048576" "int ?b < 1048576" using assms(2,3) by simp_all
  have near: "\<not> int ?a * 1048576 < int ?b" "\<not> int ?b * 1048576 < int ?a"
    using pos lt by linarith+
  have c: "comparable [?a, ?b] 0 1 (F64 1 20)"
    using pos assms(2,3)
    by (simp add: near comparable_def f64_of_nat_exact mult f64_less_def min_def max_def)
  have "run_end [?a, ?b] (F64 1 20) 0 1 = 2"
    by (subst run_end.simps, use c in simp) (subst run_end.simps, simp)
  then show ?thesis
    using assms(4) by (simp add: pick_run_def pick_from.simps [of _ _ _ 0] Let_def)
qed

definition demo_config :: config where
  "demo_config = default_config\<lparr>cfg_threshold := 2, cfg_ratio := F64 1 20, cfg_table_size := 0\<rparr>"

abbreviation "demo_a \<equiv> [([1], Some [7])] :: entry list"
abbreviation "demo_b \<equiv> [([2], Some [8])] :: entry list"
abbreviation "demo_merged \<equiv> [([1], Some [7]), ([2], Some [8])] :: entry list"

lemma demo_two_tables:
  obtains s :: sstable_set and w :: world
  where "set_inv s [demo_a, demo_b] (dir w)" "env w = []" "bits_per_key s = 10" "next_seq s = 2"
    "others_same (empty_store []) w" "pick_run s 2 (F64 1 20) = Some (0, 2)" "length (tables s) = 2"
    "merge (tables s) True = Ok demo_merged"
proof -
  have demo: "writable demo_a" "writable demo_b" "small_table 10 demo_a" "small_table 10 demo_b"
    by (simp_all add: writable_def entry_fits_def small_table_def)
  have e0: "set_inv empty_set [] (dir (empty_store []))" "env (empty_store []) = []"
    using empty_store_inv [of "\<lambda>bs. 0" "[]"] by (simp_all add: db_inv_def empty_db_def empty_store_def)
  obtain sa :: sstable_set and wa :: world where a: "set_write demo_a empty_set (empty_store []) = (Ok (), sa, wa)"
    "set_inv sa [demo_a] (dir wa)" "env wa = []" "bits_per_key sa = 10" "next_seq sa = Suc 0"
    using set_write_ok [OF e0 demo(1)] demo(3) by auto
  obtain s :: sstable_set and w :: world where b: "set_write demo_b sa wa = (Ok (), s, w)"
    "set_inv s [demo_a, demo_b] (dir w)" "env w = []" "bits_per_key s = 10" "next_seq s = 2"
    using set_write_ok [OF a(2,3) demo(2)] demo(4) a(4,5) by auto
  have ts: "list_all2 wf_table (tables s) [demo_a, demo_b]" using b(2) by (simp add: set_inv_def)
  obtain A B where AB: "tables s = [A, B]" "length (file_data A) < 2 ^ 20" "length (file_data B) < 2 ^ 20"
    using set_write_size [OF a(1)] set_write_size [OF b(1)] a(4) by (auto simp: empty_set_def)
  obtain M where M: "merge (tables s) True = Ok M" "key_sorted M"
    "\<forall>k. map_of M k = visible True (newest [demo_a, demo_b] k)"
    using merge_wf [OF ts] by blast
  have "M = demo_merged" using M(2,3)
    by (intro key_sorted_unique) (auto simp: fun_eq_iff visible_def map_add_def key_sorted_def)
  moreover have "others_same (empty_store []) w"
    using set_write_others [OF a(1)] set_write_others [OF b(1)] others_same_trans by blast
  ultimately show thesis
    using that [OF b(2-5)] M(1) pick_run_two [OF ts [unfolded AB(1)] AB(2,3,1)] AB(1) by simp
qed

text \<open>A merge, a write that fills the memtable and begins to be flushed, then the calls of the compaction and its
  swap: the writer then has the first call of its flush behind it and the compactor two inputs to unlink.\<close>

lemma demo_interleaving:
  obtains x y us t where "db_inv crc (sys_db x) (sys_world x) [demo_a, demo_b] []" "sys_phase x = Idle"
    "sys_writing x = Ready" "sys_phase y = Unlinking us" "length us = 2" "sys_writing y = Flushing t To_fill"
    "steps crc x [([1], None)] y" "env (sys_world y) = []"
proof -
  obtain s :: sstable_set and w :: world where d: "set_inv s [demo_a, demo_b] (dir w)" "env w = []"
    "bits_per_key s = 10" "next_seq s = 2" "others_same (empty_store []) w" "pick_run s 2 (F64 1 20) = Some (0, 2)"
    "length (tables s) = 2" "merge (tables s) True = Ok demo_merged"
    by (rule demo_two_tables)
  let ?db = "empty_db\<lparr>db_set := s, db_rings := 1, db_config := demo_config\<rparr>"
  let ?x = "\<lparr>sys_db = ?db, sys_phase = Idle, sys_writing = Ready, sys_world = w\<rparr>"
  have log: "map_of (dir w) WAL_NAME = Some []" "root w = Directory"
    using others_same_WAL [OF d(5)] d(5) by (simp_all add: others_same_def empty_store_def)
  then have inv: "db_inv crc ?db w [demo_a, demo_b] []"
    using d(1) empty_store_inv [of crc "[]"] by (simp add: db_inv_def)
  let ?span = "(first_seq (hd (tables s)), last_seq (last (tables s)))"
  have "small_table 10 demo_merged" by (simp add: small_table_def)
  from small_table_built [OF this, of ?span] obtain t where t: "build_table ?span (length demo_merged) 10 demo_merged = Ok t"
    "length (file_data t) \<le> MAX_FILE_SIZE" by blast
  have "small_table 10 [([1], None)]" by (simp add: small_table_def)
  from small_table_built [OF this, of "(2, 2)"] obtain u where u: "build_table (2, 2) 1 10 [([1], None)] = Ok u" by auto
  have run: "run_at 0 2 s = tables s" using d(7) by (simp add: run_at_def)
  let ?x1 = "?x\<lparr>sys_phase := Writing 0 2 t To_create\<rparr>"
  have one: "steps crc ?x [] ?x1"
    by (rule steps_one, rule step.do_build [where start = 0 and count = 2 and M = demo_merged and t = t])
      (use d(3,6,7,8) t(1) in \<open>simp_all add: picked_def demo_config_def run\<close>)
  let ?e = "([1], None) :: entry"
  obtain w1 where w1: "log_entry crc ?e ?db w = (Ok (), w1)" "env w1 = []"
    using wal_append_calm [where x = "wrec ?e" and crc = crc and l = "db_wal ?db", OF d(2)]
      record_fits_wrec [OF demo_fits(2)] log(1)
    by (auto simp: log_entry_def contents_def wrec_def MAX_FILE_SIZE_def empty_db_def)
  let ?x2 = "?x1\<lparr>sys_db := logged ?e ?db, sys_writing := Full, sys_world := w1\<rparr>"
  have "after_log ?e ?db = Full" by (simp add: after_log_def logged_def demo_config_def empty_db_def)
  then have "step crc ?x1 (Some ?e) ?x2"
    using step.do_log [of ?x1 crc ?e w1] w1(1) demo_fits(2) by simp
  note two = steps.move [OF one this]
  let ?x3 = "?x2\<lparr>sys_writing := Flushing u To_create\<rparr>"
  have "step crc ?x2 None ?x3"
    using step.do_flush [of ?x2 u crc] u d(3,4) by (simp add: room_def flushed_span_def empty_db_def)
  note three = steps.move [OF two this]
  obtain w2 where w2: "table_call u To_create w1 = (Ok (), w2)" "env w2 = []"
    using w1(2) by (simp add: sys_calm)
  let ?x4 = "?x3\<lparr>sys_writing := Flushing u To_fill, sys_world := w2\<rparr>"
  have "step crc ?x3 None ?x4"
    using step.do_draft [of ?x3 u To_create w2 crc] w2(1) by (simp add: after_draft_def)
  note four = steps.move [OF three this]
  obtain w3 where w3: "write_table s ?span (length demo_merged) demo_merged w2 = (Ok t, w3)" "env w3 = []"
    using write_table_calm [OF w2(2) t(1) [folded d(3)] t(2)] by blast
  let ?x5 = "\<lparr>sys_db = logged ?e ?db, sys_phase = Merged 0 2 (Some t), sys_writing = Flushing u To_fill, sys_world = w3\<rparr>"
  have "steps crc ?x4 [] ?x5"
    using write_table_steps [where crc = crc and x = ?x5 and start = 0 and count = 2, OF w3(1)] by simp
  note five = steps_trans [OF this four]
  let ?y = "?x5\<lparr>sys_db := (logged ?e ?db)\<lparr>db_set := replace_tables (splice 0 2 (Some t)) s\<rparr>,
    sys_phase := Unlinking (tables s)\<rparr>"
  have "step crc ?x5 None ?y"
    using step.do_swap [of ?x5 0 2 "Some t" crc] run by simp
  from steps.move [OF five this] have run: "steps crc ?x [?e] ?y" by simp
  show thesis by (rule that [OF _ _ _ _ d(7) _ run]) (use inv w3(2) in simp_all)
qed

theorem interleaving_refines_writes_witness:
  "\<exists>x y us t db2 w2. steps (\<lambda>bs. 0) x [([1], None)] y \<and> sys_phase y = Unlinking us \<and> length us = 2 \<and>
     sys_writing y = Flushing t To_fill \<and>
     db_get (sys_db y) [1] = Ok None \<and> db_get (sys_db y) [2] = Ok (Some [8]) \<and>
     with_config (\<lambda>bs. 0) default_config (calm (sys_world y)) = (Ok db2, w2) \<and> db_get db2 [1] = Ok None"
proof -
  obtain x y us t where d: "db_inv (\<lambda>bs. 0) (sys_db x) (sys_world x) [demo_a, demo_b] []" "sys_phase x = Idle"
    "sys_writing x = Ready" "sys_phase y = Unlinking us" "length us = 2" "sys_writing y = Flushing t To_fill"
    "steps (\<lambda>bs. 0) x [([1], None)] y"
    by (rule demo_interleaving)
  have "db_get (sys_db y) [1] = Ok None \<and> db_get (sys_db y) [2] = Ok (Some [8]) \<and>
      (\<exists>db2 w2. with_config (\<lambda>bs. 0) default_config (calm (sys_world y)) = (Ok db2, w2) \<and> db_get db2 [1] = Ok None)"
    using interleaving_refines_writes [OF d(7,2,3,1), of default_config]
    by (auto simp: written_def view_def map_add_def)
  then show ?thesis using d(4-7) by blast
qed

text \<open>C3: crash safety under concurrency. In any state that an interleaving reaches, the next action of either
  thread may fail or kill the process at any system call. The process that opens the directory then
  sees the contents before the action, or, if it was a write, those with the write.\<close>

theorem interleaving_crash_safe:
  assumes "steps crc x es y" and "sys_phase x = Idle" and "sys_writing x = Ready"
    and "db_inv crc (sys_db x) (sys_world x) ess ws" and "attempt crc y l w'"
  shows "\<exists>db2 w2. with_config crc cfg (calm w') = (Ok db2, w2) \<and>
    (db_get db2 = db_get (sys_db y) \<or>
     (\<exists>k v. l = Some (k, v) \<and> db_get db2 = (db_get (sys_db y))(k := Ok v)))"
proof -
  have "sys_inv crc x ess ws" using assms(2-4) by (rule sys_inv_idle)
  from steps_keep [OF assms(1) this] obtain ess' ws' where y: "sys_inv crc y ess' ws'" by blast
  from attempt_effect [OF this assms(5)] obtain V where V: "disk_view crc (dir w') V" "root w' = Directory"
    "V = view ess' ws' \<or> V = written (view ess' ws') (option_list l)" by blast
  obtain db2 w2 where re: "with_config crc cfg (calm w') = (Ok db2, w2)" "\<forall>k. db_get db2 k = Ok (V k)"
    using reopen_disk_view [OF V(1,2), of cfg] by blast
  have "V = view ess' ws' \<or> (\<exists>k v. l = Some (k, v) \<and> V = (view ess' ws')(k := v))"
    using V(3) by (cases l) (auto simp: written_def)
  then have "db_get db2 = db_get (sys_db y) \<or>
      (\<exists>k v. l = Some (k, v) \<and> db_get db2 = (db_get (sys_db y))(k := Ok v))"
    using re(2) sys_get [OF y] by (auto simp: fun_eq_iff)
  then show ?thesis using re(1) by blast
qed

text \<open>There, the writer fills its temporary file, with any outcome.\<close>

theorem interleaving_crash_safe_witness:
  "\<exists>x y t us r w' db2 w2. steps (\<lambda>bs. 0) x [([1], None)] y \<and> sys_writing y = Flushing t To_fill \<and>
     sys_phase y = Unlinking us \<and> table_call t To_fill (sys_world y) = (r, w') \<and>
     with_config (\<lambda>bs. 0) default_config (calm w') = (Ok db2, w2) \<and>
     db_get db2 [1] = Ok None \<and> db_get db2 [2] = Ok (Some [8])"
proof -
  obtain x y us t where d: "db_inv (\<lambda>bs. 0) (sys_db x) (sys_world x) [demo_a, demo_b] []" "sys_phase x = Idle"
    "sys_writing x = Ready" "sys_phase y = Unlinking us" "sys_writing y = Flushing t To_fill"
    "steps (\<lambda>bs. 0) x [([1], None)] y"
    by (rule demo_interleaving)
  obtain r w' where c: "table_call t To_fill (sys_world y) = (r, w')" by force
  have at: "attempt (\<lambda>bs. 0) y None w'" by (rule attempt.try_draft [OF d(5) c])
  have "sys_inv (\<lambda>bs. 0) x [demo_a, demo_b] []" using d(2,3,1) by (rule sys_inv_idle)
  from steps_keep [OF d(6) this] obtain ess' ws' where y: "sys_inv (\<lambda>bs. 0) y ess' ws'"
    "view ess' ws' = written (view [demo_a, demo_b] []) [([1], None)]" by blast
  have "db_get (sys_db y) [1] = Ok None" "db_get (sys_db y) [2] = Ok (Some [8])"
    using sys_get [OF y(1)] y(2) by (auto simp: written_def view_def map_add_def)
  moreover obtain db2 w2 where "with_config (\<lambda>bs. 0) default_config (calm w') = (Ok db2, w2)"
    "db_get db2 = db_get (sys_db y)"
    using interleaving_crash_safe [OF d(6,2,3,1) at, of default_config] by auto
  ultimately show ?thesis using d(4-6) c by metis
qed

end
