(* ===== verification/Disk.thy ===== *)
theory Disk
  imports World Text
begin

text \<open>
  What the system calls make of the disk (theory World) when the power fails: an invariant about all the
  directories that may remain, and what each call does to it. A predicate \<open>P\<close> that depends on the table files only
  is known of the former directories; the tables and the files \<open>H\<close> have been synced, so that the present directory
  can only remain as it is, as far as these are concerned; and the log is found with one of the contents \<open>cs\<close>.
\<close>

definition is_table :: "bytes \<Rightarrow> bool" where
  "is_table n \<longleftrightarrow> extension n = Some (str ''sst'')"

text \<open>The same table files, and no name twice if there was none.\<close>

definition agree :: "directory \<Rightarrow> directory \<Rightarrow> bool" where
  "agree d d' \<longleftrightarrow> (\<forall>n. is_table n \<longrightarrow> map_of d' n = map_of d n) \<and> (distinct (map fst d) \<longrightarrow> distinct (map fst d'))"

definition tables_only :: "(directory \<Rightarrow> bool) \<Rightarrow> bool" where
  "tables_only P \<longleftrightarrow> (\<forall>d d'. P d \<longrightarrow> agree d d' \<longrightarrow> P d')"

lemma agree_refl [simp]: "agree d d"
  by (simp add: agree_def)

lemma agree_trans: "agree d d' \<Longrightarrow> agree d' d'' \<Longrightarrow> agree d d''"
  by (simp add: agree_def)

section \<open>The invariant\<close>

text \<open>The names are those of the directory, its contents are among what the disk may have of them, and an inode
  has one name, also over time unless it is a table.\<close>

definition tracked :: "world \<Rightarrow> bool" where
  "tracked w \<longleftrightarrow>
     map fst (ino_names (disk w)) = map fst (dir w) \<and>
     (\<forall>ns \<in> set (ino_names (disk w) # ino_former (disk w)). distinct (map fst ns) \<and> (\<forall>i \<in> snd ` set ns. i < ino_fresh (disk w))) \<and>
     (\<forall>i < ino_fresh (disk w). ino_data (disk w) i \<noteq> []) \<and>
     (\<forall>n m i. map_of (ino_names (disk w)) n = Some i \<longrightarrow> map_of (ino_names (disk w)) m = Some i \<longrightarrow> m = n) \<and>
     (\<forall>n i. map_of (ino_names (disk w)) n = Some i \<longrightarrow> \<not> is_table n \<longrightarrow>
        (\<forall>ns \<in> set (ino_former (disk w)). \<forall>m. map_of ns m = Some i \<longrightarrow> m = n)) \<and>
     (\<forall>n i. map_of (ino_names (disk w)) n = Some i \<longrightarrow> contents (dir w) n \<in> set (ino_data (disk w) i))"

definition hard :: "bytes set \<Rightarrow> world \<Rightarrow> bool" where
  "hard H w \<longleftrightarrow>
     (\<forall>n i. map_of (ino_names (disk w)) n = Some i \<longrightarrow> is_table n \<or> n \<in> H \<longrightarrow>
        set (ino_data (disk w) i) = {contents (dir w) n})"

definition formerly :: "(directory \<Rightarrow> bool) \<Rightarrow> world \<Rightarrow> bool" where
  "formerly P w \<longleftrightarrow> (\<forall>ns \<in> set (ino_former (disk w)). \<forall>d. image_of (ino_data (disk w)) ns d \<longrightarrow> P d)"

definition anchored :: "bytes \<Rightarrow> bytes set \<Rightarrow> world \<Rightarrow> bool" where
  "anchored a cs w \<longleftrightarrow>
     (\<exists>i. (\<forall>ns \<in> set (ino_names (disk w) # ino_former (disk w)). map_of ns a = Some i) \<and>
        set (ino_data (disk w) i) \<subseteq> cs)"

definition disk_inv :: "(directory \<Rightarrow> bool) \<Rightarrow> bytes set \<Rightarrow> bytes \<Rightarrow> bytes set \<Rightarrow> world \<Rightarrow> bool" where
  "disk_inv P H a cs w \<longleftrightarrow> tracked w \<and> hard H w \<and> formerly P w \<and> anchored a cs w \<and> \<not> is_table a"

lemma disk_inv_mono:
  "disk_inv P H a cs w \<Longrightarrow> (\<And>d. P d \<Longrightarrow> Q d) \<Longrightarrow> H' \<subseteq> H \<Longrightarrow> cs \<subseteq> cs' \<Longrightarrow> disk_inv Q H' a cs' w"
proof -
  assume inv: "disk_inv P H a cs w" and sub: "\<And>d. P d \<Longrightarrow> Q d" "H' \<subseteq> H" "cs \<subseteq> cs'"
  have "hard H' w" using inv sub(2) unfolding disk_inv_def hard_def by (metis subsetD)
  moreover have "formerly Q w" using inv sub(1) unfolding disk_inv_def formerly_def by simp
  moreover have "anchored a cs' w" using inv sub(3) unfolding disk_inv_def anchored_def by (metis subset_trans)
  ultimately show ?thesis using inv by (simp add: disk_inv_def)
qed

lemma disk_inv_env: "disk w' = disk w \<Longrightarrow> dir w' = dir w \<Longrightarrow> disk_inv P H a cs w' \<longleftrightarrow> disk_inv P H a cs w"
  by (simp add: disk_inv_def tracked_def hard_def formerly_def anchored_def)

section \<open>Images\<close>

lemma image_names: "image_of data ns d \<Longrightarrow> map fst d = map fst ns"
  unfolding image_of_def by (induction rule: list_all2_induct) auto

lemma image_lookup:
  "image_of data ns d \<Longrightarrow> map_of d n = None \<and> map_of ns n = None \<or>
     (\<exists>i c. map_of ns n = Some i \<and> map_of d n = Some c \<and> c \<in> set (data i))"
  unfolding image_of_def by (induction rule: list_all2_induct) auto

text \<open>Other data of one inode, which has one name: an image that differs in that name only.\<close>

lemma image_change:
  assumes "image_of data' ns d'" and "\<And>j. j \<in> snd ` set ns \<Longrightarrow> j \<noteq> i \<Longrightarrow> data' j = data j"
    and "\<And>m. (m, i) \<in> set ns \<Longrightarrow> m = n" and "data i \<noteq> []"
  shows "\<exists>d. image_of data ns d \<and> (\<forall>m. m \<noteq> n \<longrightarrow> map_of d' m = map_of d m)"
  using assms unfolding image_of_def
proof (induction ns d' rule: list_all2_induct)
  case Nil
  then show ?case by (intro exI [of _ "[]"]) simp
next
  case (Cons x ns y d')
  obtain m j c where xy: "x = (m, j)" "y = (m, c)" "c \<in> set (data' j)" using Cons.hyps(1) by (cases x; cases y) auto
  obtain d where d: "list_all2 (\<lambda>(n, i) (m, c). m = n \<and> c \<in> set (data i)) ns d"
    "\<forall>m. m \<noteq> n \<longrightarrow> map_of d' m = map_of d m"
    using Cons.IH Cons.prems by (auto simp: image_iff)
  show ?case
  proof (cases "j = i")
    case True
    then have "m = n" using Cons.prems(2) xy(1) by auto
    moreover obtain c0 where "c0 \<in> set (data i)" using Cons.prems(3) by (cases "data i") auto
    ultimately show ?thesis using d xy True by (intro exI [of _ "(m, c0) # d"]) auto
  next
    case False
    then have "c \<in> set (data j)" using Cons.prems(1) [of j] xy by (simp add: image_iff)
    then show ?thesis using d xy by (intro exI [of _ "(m, c) # d"]) auto
  qed
qed

lemma image_cong:
  "image_of data ns d \<Longrightarrow> (\<And>i. i \<in> snd ` set ns \<Longrightarrow> data' i = data i) \<Longrightarrow> image_of data' ns d"
  unfolding image_of_def by (induction rule: list_all2_induct) auto


text \<open>The parts of \<open>tracked\<close>.\<close>

lemma trackedD:
  assumes "tracked w"
  shows "map fst (ino_names (disk w)) = map fst (dir w)"
    and "ns \<in> set (ino_names (disk w) # ino_former (disk w)) \<Longrightarrow> distinct (map fst ns)"
    and "ns \<in> set (ino_names (disk w) # ino_former (disk w)) \<Longrightarrow> (m, i) \<in> set ns \<Longrightarrow> i < ino_fresh (disk w)"
    and "i < ino_fresh (disk w) \<Longrightarrow> ino_data (disk w) i \<noteq> []"
    and "map_of (ino_names (disk w)) n = Some i \<Longrightarrow> map_of (ino_names (disk w)) m = Some i \<Longrightarrow> m = n"
    and "map_of (ino_names (disk w)) n = Some i \<Longrightarrow> \<not> is_table n \<Longrightarrow> ns \<in> set (ino_former (disk w)) \<Longrightarrow>
      map_of ns m = Some i \<Longrightarrow> m = n"
    and "map_of (ino_names (disk w)) n = Some i \<Longrightarrow> contents (dir w) n \<in> set (ino_data (disk w) i)"
proof -
  show "map fst (ino_names (disk w)) = map fst (dir w)" using assms unfolding tracked_def by blast
  show "ns \<in> set (ino_names (disk w) # ino_former (disk w)) \<Longrightarrow> distinct (map fst ns)"
    using assms unfolding tracked_def by blast
  show "ns \<in> set (ino_names (disk w) # ino_former (disk w)) \<Longrightarrow> (m, i) \<in> set ns \<Longrightarrow> i < ino_fresh (disk w)"
    using assms unfolding tracked_def by (metis image_eqI snd_conv)
  show "i < ino_fresh (disk w) \<Longrightarrow> ino_data (disk w) i \<noteq> []" using assms unfolding tracked_def by blast
  show "map_of (ino_names (disk w)) n = Some i \<Longrightarrow> map_of (ino_names (disk w)) m = Some i \<Longrightarrow> m = n"
    using assms unfolding tracked_def by blast
  show "map_of (ino_names (disk w)) n = Some i \<Longrightarrow> \<not> is_table n \<Longrightarrow> ns \<in> set (ino_former (disk w)) \<Longrightarrow>
      map_of ns m = Some i \<Longrightarrow> m = n"
    using assms unfolding tracked_def by blast
  show "map_of (ino_names (disk w)) n = Some i \<Longrightarrow> contents (dir w) n \<in> set (ino_data (disk w) i)"
    using assms unfolding tracked_def by blast
qed

lemma trackedI:
  assumes "map fst (ino_names (disk w)) = map fst (dir w)"
    and "\<And>ns. ns \<in> set (ino_names (disk w) # ino_former (disk w)) \<Longrightarrow> distinct (map fst ns)"
    and "\<And>ns m i. ns \<in> set (ino_names (disk w) # ino_former (disk w)) \<Longrightarrow> (m, i) \<in> set ns \<Longrightarrow> i < ino_fresh (disk w)"
    and "\<And>i. i < ino_fresh (disk w) \<Longrightarrow> ino_data (disk w) i \<noteq> []"
    and "\<And>n m i. map_of (ino_names (disk w)) n = Some i \<Longrightarrow> map_of (ino_names (disk w)) m = Some i \<Longrightarrow> m = n"
    and "\<And>n m i ns. map_of (ino_names (disk w)) n = Some i \<Longrightarrow> \<not> is_table n \<Longrightarrow> ns \<in> set (ino_former (disk w)) \<Longrightarrow>
      map_of ns m = Some i \<Longrightarrow> m = n"
    and "\<And>n i. map_of (ino_names (disk w)) n = Some i \<Longrightarrow> contents (dir w) n \<in> set (ino_data (disk w) i)"
  shows "tracked w"
  unfolding tracked_def
proof (intro conjI)
  show "\<forall>ns \<in> set (ino_names (disk w) # ino_former (disk w)).
      distinct (map fst ns) \<and> (\<forall>i \<in> snd ` set ns. i < ino_fresh (disk w))"
    using assms(2,3) by (metis imageE prod.collapse)
  show "\<forall>n i. map_of (ino_names (disk w)) n = Some i \<longrightarrow> \<not> is_table n \<longrightarrow>
      (\<forall>ns \<in> set (ino_former (disk w)). \<forall>m. map_of ns m = Some i \<longrightarrow> m = n)"
    using assms(6) by blast
qed (use assms(1,4,5,7) in blast)+

text \<open>Other contents of the same names.\<close>

lemma tracked_same:
  assumes tr: "tracked w" and "ino_names (disk w') = ino_names (disk w)"
    and "set (ino_former (disk w')) \<subseteq> set (ino_former (disk w))" and "ino_fresh (disk w') = ino_fresh (disk w)"
    and "map fst (dir w') = map fst (dir w)" and "\<And>i. i < ino_fresh (disk w) \<Longrightarrow> ino_data (disk w') i \<noteq> []"
    and "\<And>n i. map_of (ino_names (disk w)) n = Some i \<Longrightarrow> contents (dir w') n \<in> set (ino_data (disk w') i)"
  shows "tracked w'"
proof (rule trackedI)
  show "distinct (map fst ns)" if "ns \<in> set (ino_names (disk w') # ino_former (disk w'))" for ns
    using trackedD(2) [OF tr, of ns] that assms(2,3) by auto
  show "i < ino_fresh (disk w')" if "ns \<in> set (ino_names (disk w') # ino_former (disk w'))" "(m, i) \<in> set ns" for ns m i
    using trackedD(3) [OF tr, of ns m i] that assms(2-4) by auto
  show "m = n" if "map_of (ino_names (disk w')) n = Some i" "\<not> is_table n" "ns \<in> set (ino_former (disk w'))"
    "map_of ns m = Some i" for n m i ns
    using trackedD(6) [OF tr, of n i ns m] that assms(2,3) by auto
  show "m = n" if "map_of (ino_names (disk w')) n = Some i" "map_of (ino_names (disk w')) m = Some i" for n m i
    using trackedD(5) [OF tr, of n i m] that assms(2) by simp
qed (use assms trackedD(1) [OF tr] in simp_all)

text \<open>A directory that is all on the disk.\<close>

lemma settled_lookup:
  assumes "distinct (map fst d)" and "map_of (ino_names (settled d)) n = Some i"
  shows "i < length d" and "fst (d ! i) = n" and "ino_data (settled d) i = [contents d n]"
proof -
  from assms(2) have "(n, i) \<in> set (zip (map fst d) [0..<length d])" by (simp add: settled_def map_of_SomeD)
  then show i: "i < length d" "fst (d ! i) = n" by (auto simp: in_set_zip)
  then have "(n, snd (d ! i)) \<in> set d" by (metis nth_mem prod.collapse)
  then have "contents d n = snd (d ! i)" using assms(1) by (simp add: contents_def)
  then show "ino_data (settled d) i = [contents d n]" using i(1) by (simp add: settled_def)
qed

lemma settled_inv:
  assumes "disk w = settled (dir w)" and dist: "distinct (map fst (dir w))" and "map_of (dir w) a = Some c"
    and "\<not> is_table a"
  shows "disk_inv P H a {c} w"
proof -
  note sl = settled_lookup [OF dist]
  have names: "map fst (ino_names (disk w)) = map fst (dir w)" "ino_former (disk w) = []"
    "ino_fresh (disk w) = length (dir w)" by (simp_all add: assms(1) settled_def)
  have tr: "tracked w"
  proof (rule trackedI)
    show "i < ino_fresh (disk w)" if "ns \<in> set (ino_names (disk w) # ino_former (disk w))" "(m, i) \<in> set ns" for ns m i
      using that by (auto simp: assms(1) settled_def in_set_zip)
    show "m = n" if "map_of (ino_names (disk w)) n = Some i" "map_of (ino_names (disk w)) m = Some i" for n m i
      using that sl(2) unfolding assms(1) by metis
    show "contents (dir w) n \<in> set (ino_data (disk w) i)" if "map_of (ino_names (disk w)) n = Some i" for n i
      using sl(3) that unfolding assms(1) by simp
    show "ino_data (disk w) i \<noteq> []" if "i < ino_fresh (disk w)" for i
      using that by (simp add: assms(1) settled_def)
  qed (use names dist in auto)
  have "hard H w" unfolding hard_def assms(1) using sl(3) by simp
  moreover have "formerly P w" by (simp add: formerly_def names)
  moreover have "anchored a {c} w"
  proof -
    have "map_of (ino_names (disk w)) a \<noteq> None"
      using assms(3) names(1) by (metis map_of_eq_None_iff list.set_map option.distinct(1))
    then obtain i where i: "map_of (ino_names (disk w)) a = Some i" by auto
    have "ino_data (disk w) i = [c]" using sl(3) [OF i [unfolded assms(1)]] assms(1,3) by (simp add: contents_def)
    then show ?thesis using i by (auto simp: anchored_def names)
  qed
  ultimately show ?thesis using tr assms(4) by (simp add: disk_inv_def)
qed

text \<open>What remains of the present names has the tables of the present directory.\<close>

lemma names_lookup:
  "tracked w \<Longrightarrow> map_of (ino_names (disk w)) n = None \<longleftrightarrow> map_of (dir w) n = None"
  using trackedD(1) by (metis map_of_eq_None_iff list.set_map)

lemma present_image:
  assumes "tracked w" and "hard H w" and "image_of (ino_data (disk w)) (ino_names (disk w)) d"
    and "is_table n \<or> n \<in> H"
  shows "map_of d n = map_of (dir w) n"
  using image_lookup [OF assms(3), of n]
proof
  assume "map_of d n = None \<and> map_of (ino_names (disk w)) n = None"
  then show ?thesis using names_lookup [OF assms(1), of n] by simp
next
  assume "\<exists>i c. map_of (ino_names (disk w)) n = Some i \<and> map_of d n = Some c \<and> c \<in> set (ino_data (disk w) i)"
  then obtain i c where ic: "map_of (ino_names (disk w)) n = Some i" "map_of d n = Some c"
    "c \<in> set (ino_data (disk w) i)" by blast
  then have "c = contents (dir w) n" using assms(2,4) by (auto simp: hard_def)
  moreover have "map_of (dir w) n \<noteq> None" using ic(1) names_lookup [OF assms(1), of n] by simp
  ultimately show ?thesis using ic(2) by (auto simp: contents_def)
qed

lemma present_agrees:
  assumes "tracked w" and "hard H w" and "image_of (ino_data (disk w)) (ino_names (disk w)) d"
  shows "agree (dir w) d"
proof -
  have "distinct (map fst d)"
    using image_names [OF assms(3)] assms(1) unfolding tracked_def by auto
  then show ?thesis using present_image [OF assms] by (simp add: agree_def)
qed

lemma remains:
  assumes "disk_inv P H a cs w" and "tables_only P" and "P (dir w)" and "may_remain w d"
  shows "P d" and "contents d a \<in> cs" and "map_of d a \<noteq> None" and "distinct (map fst d)"
proof -
  obtain ns where ns: "ns \<in> set (ino_names (disk w) # ino_former (disk w))" "image_of (ino_data (disk w)) ns d"
    using assms(4) unfolding may_remain_def by blast
  show "P d"
    using ns assms(1-3) present_agrees [of w H d]
    by (auto simp: disk_inv_def formerly_def tables_only_def)
  obtain i where i: "map_of ns a = Some i" "set (ino_data (disk w) i) \<subseteq> cs"
    using assms(1) ns(1) unfolding disk_inv_def anchored_def by blast
  then show "contents d a \<in> cs" "map_of d a \<noteq> None" using image_lookup [OF ns(2), of a] by (auto simp: contents_def)
  show "distinct (map fst d)" using image_names [OF ns(2)] ns(1) assms(1) by (auto simp: disk_inv_def tracked_def)
qed

lemma present_good:
  assumes "disk_inv P H a cs w" and "tables_only P" and "P (dir w)"
    and "image_of (ino_data (disk w)) (ino_names (disk w)) d"
  shows "P d"
  using remains(1) [OF assms(1-3), of d] assms(4) by (simp add: may_remain_def)

section \<open>What each call does\<close>

lemma fresh_not_named:
  "tracked w \<Longrightarrow> ns \<in> set (ino_names (disk w) # ino_former (disk w)) \<Longrightarrow> map_of ns m = Some i \<Longrightarrow> i < ino_fresh (disk w)"
  by (metis trackedD(3) map_of_SomeD)

lemma image_extra_data:
  assumes "tracked w" and "ns \<in> set (ino_names (disk w) # ino_former (disk w))"
  shows "image_of ((ino_data (disk w))(ino_fresh (disk w) := c)) ns d \<longleftrightarrow> image_of (ino_data (disk w)) ns d"
proof -
  have "i \<noteq> ino_fresh (disk w)" if "i \<in> snd ` set ns" for i
    using assms that unfolding tracked_def by blast
  then show ?thesis using image_cong [of _ ns d] by (metis fun_upd_other)
qed

lemma in_update: "(m, i) \<in> set (AList.update n j ns) \<Longrightarrow> (m, i) \<in> set ns \<or> (m, i) = (n, j)"
  by (induction ns) (auto split: if_splits)

lemma tracked_link:
  assumes tr: "tracked w" and nn: "map_of (ino_names (disk w)) n = None"
    and names: "ino_names (disk w') = AList.update n (ino_fresh (disk w)) (ino_names (disk w))"
    and former: "ino_former (disk w') = ino_names (disk w) # ino_former (disk w)"
    and data: "ino_data (disk w') = (ino_data (disk w))(ino_fresh (disk w) := [[]])"
    and fresh: "ino_fresh (disk w') = Suc (ino_fresh (disk w))"
    and dir: "dir w' = AList.update n [] (dir w)"
  shows "tracked w'"
proof -
  note lt = fresh_not_named [OF tr]
  have old: "ns \<in> set (ino_names (disk w) # ino_former (disk w))" if "ns \<in> set (ino_former (disk w'))" for ns
    using that by (simp add: former)
  show ?thesis
  proof (rule trackedI)
    show "map fst (ino_names (disk w')) = map fst (dir w')"
      using trackedD(1) [OF tr] by (simp add: names dir update_keys)
    show "distinct (map fst ns)" if "ns \<in> set (ino_names (disk w') # ino_former (disk w'))" for ns
      using that trackedD(2) [OF tr] by (auto simp: names former distinct_update)
    show "i < ino_fresh (disk w')" if "ns \<in> set (ino_names (disk w') # ino_former (disk w'))" "(m, i) \<in> set ns" for ns m i
      using that trackedD(3) [OF tr, of ns m i] trackedD(3) [OF tr, of "ino_names (disk w)" m i] in_update
      by (fastforce simp: names former fresh)
    show "ino_data (disk w') i \<noteq> []" if "i < ino_fresh (disk w')" for i
      using that trackedD(4) [OF tr, of i] by (auto simp: data fresh less_Suc_eq)
    show "m = x" if "map_of (ino_names (disk w')) x = Some i" "map_of (ino_names (disk w')) m = Some i" for x m i
      using that trackedD(5) [OF tr, of x i m] lt [of "ino_names (disk w)" m] lt [of "ino_names (disk w)" x]
      by (auto simp: names update_conv' split: if_splits)
    show "m = x" if x: "map_of (ino_names (disk w')) x = Some i" "\<not> is_table x"
      and ns: "ns \<in> set (ino_former (disk w'))" "map_of ns m = Some i" for x m i ns
    proof -
      have "i < ino_fresh (disk w)" using lt [OF old [OF ns(1)] ns(2)] .
      then have "map_of (ino_names (disk w)) x = Some i" using x(1) by (auto simp: names update_conv' split: if_splits)
      then show ?thesis
        using trackedD(5) [OF tr, of x i m] trackedD(6) [OF tr, of x i ns m] x(2) ns by (auto simp: former)
    qed
    show "contents (dir w') x \<in> set (ino_data (disk w') i)" if "map_of (ino_names (disk w')) x = Some i" for x i
      using that trackedD(7) [OF tr, of x i] lt [of "ino_names (disk w)" x i]
      by (auto simp: names data dir contents_update update_conv' split: if_splits)
  qed
qed

lemma link_inv:
  assumes "disk_inv P H a cs w" and "tables_only P" and "P (dir w)" and "\<not> is_table n"
    and "disk w' = sh_link n (disk w)"
    and "dir w' = (if map_of (dir w) n = None then AList.update n [] (dir w) else dir w)"
  shows "disk_inv P H a cs w'"
proof (cases "map_of (dir w) n = None")
  case False
  then have "map_of (ino_names (disk w)) n \<noteq> None" using assms(1) names_lookup [of w n] unfolding disk_inv_def by simp
  then have "disk w' = disk w" "dir w' = dir w" using assms(5,6) False by (auto simp: sh_link_def)
  then show ?thesis using assms(1) disk_inv_env by blast
next
  case True
  let ?D = "disk w" and ?D' = "disk w'"
  have tr: "tracked w" and ha: "hard H w" and fo: "formerly P w" and an: "anchored a cs w" and na: "\<not> is_table a"
    using assms(1) by (simp_all add: disk_inv_def)
  have nn: "map_of (ino_names ?D) n = None" using True names_lookup [OF tr] by simp
  have dir': "dir w' = AList.update n [] (dir w)" using assms(6) True by simp
  have names': "ino_names ?D' = AList.update n (ino_fresh ?D) (ino_names ?D)"
    and former': "ino_former ?D' = ino_names ?D # ino_former ?D"
    and data': "ino_data ?D' = (ino_data ?D)(ino_fresh ?D := [[]])"
    and fresh': "ino_fresh ?D' = Suc (ino_fresh ?D)"
    using nn by (simp_all add: assms(5) sh_link_def)
  have lt: "i < ino_fresh ?D" if "ns \<in> set (ino_names ?D # ino_former ?D)" "map_of ns m = Some i" for ns m i
    using fresh_not_named [OF tr] that by blast
  have "tracked w'"
    by (rule tracked_link [OF tr nn names' former' data' fresh' dir'])
  moreover have "hard H w'"
    unfolding hard_def
  proof (intro allI impI)
    fix m i assume m: "map_of (ino_names ?D') m = Some i" "is_table m \<or> m \<in> H"
    show "set (ino_data ?D' i) = {contents (dir w') m}"
    proof (cases "m = n")
      case True
      then show ?thesis using m(1) by (simp add: names' data' dir' update_conv' contents_update)
    next
      case False
      then have mi: "map_of (ino_names ?D) m = Some i" using m(1) by (simp add: names' update_conv')
      then have "i < ino_fresh ?D" using lt [of "ino_names ?D"] by simp
      moreover have "set (ino_data ?D i) = {contents (dir w) m}" using ha mi m(2) unfolding hard_def by blast
      ultimately show ?thesis using False by (simp add: data' dir' contents_update)
    qed
  qed
  moreover have "formerly P w'"
    unfolding formerly_def
  proof (intro ballI allI impI)
    fix ns d assume "ns \<in> set (ino_former ?D')" and im: "image_of (ino_data ?D') ns d"
    then have ns: "ns \<in> set (ino_names ?D # ino_former ?D)" by (simp add: former')
    then have "image_of (ino_data ?D) ns d" using im by (simp add: data' image_extra_data [OF tr])
    then show "P d" using ns fo present_good [OF assms(1-3)] unfolding formerly_def by auto
  qed
  moreover have "anchored a cs w'"
  proof -
    obtain i where i: "\<forall>ns \<in> set (ino_names ?D # ino_former ?D). map_of ns a = Some i" "set (ino_data ?D i) \<subseteq> cs"
      using an unfolding anchored_def by blast
    then have "a \<noteq> n" "i < ino_fresh ?D" using nn lt [of "ino_names ?D" a i] by auto
    then show ?thesis using i unfolding anchored_def
      by (intro exI [of _ i]) (auto simp: names' former' data' update_conv')
  qed
  ultimately show ?thesis using na by (simp add: disk_inv_def)
qed

lemma data_inv:
  assumes "disk_inv P H a cs w" and "tables_only P" and "P (dir w)" and "\<not> is_table n"
    and "map_of (ino_names (disk w)) n = Some i"
    and "disk w' = (disk w)\<lparr>ino_data := (ino_data (disk w))(i := ino_data (disk w) i @ new)\<rparr>"
    and "dir w' = AList.update n c (dir w)" and "c \<in> set new"
  shows "disk_inv P (H - {n}) a (if n = a then cs \<union> set new else cs) w'"
proof -
  let ?D = "disk w"
  have tr: "tracked w" and ha: "hard H w" and fo: "formerly P w" and an: "anchored a cs w" and na: "\<not> is_table a"
    using assms(1) by (simp_all add: disk_inv_def)
  have here: "n \<in> fst ` set (dir w)" using assms(5) names_lookup [OF tr, of n] by (metis map_of_eq_None_iff option.distinct(1))
  have one: "m = n" if "ns \<in> set (ino_names ?D # ino_former ?D)" "map_of ns m = Some i" for ns m
    using that assms(4,5) trackedD(5) [OF tr, of n i m] trackedD(6) [OF tr, of n i ns m] by auto
  have "tracked w'"
  proof (rule tracked_same [OF tr])
    show "contents (dir w') m \<in> set (ino_data (disk w') j)" if "map_of (ino_names ?D) m = Some j" for m j
      using that trackedD(7) [OF tr, of m j] one [of "ino_names ?D" m] assms(5,8)
      by (auto simp: assms(6,7) contents_update)
  qed (use here trackedD(4) [OF tr] in \<open>simp_all add: assms(6,7) update_keys\<close>)
  moreover have "hard (H - {n}) w'"
    using ha assms(4) one [of "ino_names ?D"] unfolding hard_def
    by (auto simp: assms(6,7) contents_update)
  moreover have "formerly P w'"
    unfolding formerly_def
  proof (intro ballI allI impI)
    fix ns d assume "ns \<in> set (ino_former (disk w'))" and im: "image_of (ino_data (disk w')) ns d"
    then have ns: "ns \<in> set (ino_former ?D)" by (simp add: assms(6))
    then have dist: "distinct (map fst ns)" using trackedD(2) [OF tr] by simp
    have "i < ino_fresh ?D" using fresh_not_named [OF tr _ assms(5)] by simp
    then have "ino_data ?D i \<noteq> []" by (rule trackedD(4) [OF tr])
    moreover have "m = n" if "(m, i) \<in> set ns" for m
      using one [of ns m] ns that dist by simp
    ultimately have "\<exists>d0. image_of (ino_data ?D) ns d0 \<and> (\<forall>m. m \<noteq> n \<longrightarrow> map_of d m = map_of d0 m)"
      by (intro image_change [OF im]) (simp_all add: assms(6))
    then obtain d0 where d0: "image_of (ino_data ?D) ns d0" "\<forall>m. m \<noteq> n \<longrightarrow> map_of d m = map_of d0 m" by blast
    have "agree d0 d"
      using d0(2) assms(4) image_names [OF im] dist unfolding agree_def by auto
    then show "P d" using fo ns d0(1) assms(2) unfolding formerly_def tables_only_def by blast
  qed
  moreover have "anchored a (if n = a then cs \<union> set new else cs) w'"
  proof -
    obtain j where j: "\<forall>ns \<in> set (ino_names ?D # ino_former ?D). map_of ns a = Some j" "set (ino_data ?D j) \<subseteq> cs"
      using an unfolding anchored_def by blast
    moreover have "j = i \<longleftrightarrow> n = a" using j(1) one [of "ino_names ?D" a] assms(5) by auto
    ultimately show ?thesis unfolding anchored_def
      by (intro exI [of _ j]) (auto simp: assms(6))
  qed
  ultimately show ?thesis using na by (simp add: disk_inv_def)
qed

text \<open>Any new contents of a file that is not a table.\<close>

lemma agree_update: "\<not> is_table n \<Longrightarrow> agree d (AList.update n c d)"
  by (auto simp: agree_def update_conv' distinct_update)

lemma put_inv:
  assumes "disk_inv P H a cs w" and "tables_only P" and "P (dir w)" and "\<not> is_table n"
    and "disk w' = sh_put n new (disk w)" and "dir w' = AList.update n c (dir w)" and "c \<in> set new"
  shows "disk_inv P (H - {n}) a (if n = a then cs \<union> set new else cs) w'"
proof -
  define w1 where "w1 = w\<lparr>disk := sh_link n (disk w),
    dir := (if map_of (dir w) n = None then AList.update n [] (dir w) else dir w)\<rparr>"
  have inv: "disk_inv P H a cs w1"
    by (rule link_inv [OF assms(1-4)]) (simp_all add: w1_def)
  have "agree (dir w) (dir w1)" by (simp add: w1_def agree_update assms(4))
  then have good: "P (dir w1)" using assms(2,3) unfolding tables_only_def by blast
  have "map_of (ino_names (disk w1)) n \<noteq> None"
    by (simp add: w1_def sh_link_def update_conv')
  then obtain i where i: "map_of (ino_names (disk w1)) n = Some i" by auto
  show ?thesis
  proof (rule data_inv [OF inv assms(2) good assms(4) i])
    show "disk w' = (disk w1)\<lparr>ino_data := (ino_data (disk w1))(i := ino_data (disk w1) i @ new)\<rparr>"
      using i by (simp add: assms(5) sh_put_def w1_def Let_def)
    show "dir w' = AList.update n c (dir w1)" by (simp add: assms(6) w1_def)
    show "c \<in> set new" by (rule assms(7))
  qed
qed

lemma growing_has: "c @ take k data \<in> set (growing c data)" "c @ data \<in> set (growing c data)"
proof -
  have all: "c @ take j data \<in> set (growing c data)" if "j \<le> length data" for j
    unfolding growing_def set_map set_upt using that by (intro imageI) simp
  show "c @ take k data \<in> set (growing c data)"
    using all [of k] all [of "length data"] by (cases "k \<le> length data") simp_all
  show "c @ data \<in> set (growing c data)" using all [of "length data"] by simp
qed

section \<open>The system calls\<close>

locale synced_tables =
  fixes P :: "directory \<Rightarrow> bool"
  assumes by_tables: "tables_only P"
begin

lemma step_agree: "P (dir w) \<Longrightarrow> agree (dir w) (dir w') \<Longrightarrow> P (dir w')"
  using by_tables unfolding tables_only_def by blast

lemma disk_create:
  assumes "disk_inv P H a cs w" and "P (dir w)" and "\<not> is_table n" and "n \<noteq> a" and "sys_create n w = (r, w')"
  shows "disk_inv P (H - {n}) a cs w'" and "P (dir w')"
proof -
  have "disk_inv P (H - {n}) a cs w' \<and> P (dir w')"
    using assms(5) unfolding sys_create_def
  proof (cases rule: syscall_atomic_cases)
    case Done
    then show ?thesis
      using put_inv [OF assms(1) by_tables assms(2,3), of w' "[[]]" "[]"] assms(4)
        step_agree [OF assms(2), of w'] agree_update [OF assms(3)] by simp
  next
    case Stopped
    then show ?thesis using disk_inv_mono [OF assms(1), of P "H - {n}" cs] disk_inv_env [of w' w] assms(2) by auto
  qed
  then show "disk_inv P (H - {n}) a cs w'" "P (dir w')" by simp_all
qed

lemma disk_append:
  assumes "disk_inv P H a cs w" and "P (dir w)" and "\<not> is_table n" and "sys_append n data w = (r, w')"
  shows "disk_inv P (H - {n}) a (if n = a then cs \<union> set (growing (contents (dir w) n) data) else cs) w'"
    and "P (dir w')"
proof -
  let ?new = "growing (contents (dir w) n) data"
  have "disk w' = sh_put n ?new (disk w) \<and> (\<exists>k. dir w' = AList.update n (contents (dir w) n @ take k data) (dir w))"
  proof (cases "MAX_FILE_SIZE < length (contents (dir w) n @ data)")
    case True
    then show ?thesis using assms(4) by (auto simp: sys_append_def)
  next
    case False
    then have "syscall (\<lambda>d. AList.update n (contents d n @ data) d)
        (\<lambda>k d. AList.update n (contents d n @ take k data) d)
        (\<lambda>d. sh_put n (growing (contents d n) data)) (\<lambda>d. sh_put n (growing (contents d n) data)) w = (r, w')"
      using assms(4) by (simp add: sys_append_def)
    then show ?thesis
      by (rule syscall_cases) (auto intro: exI [of _ "length data"])
  qed
  then obtain k where k: "disk w' = sh_put n ?new (disk w)"
    "dir w' = AList.update n (contents (dir w) n @ take k data) (dir w)" by blast
  show "disk_inv P (H - {n}) a (if n = a then cs \<union> set ?new else cs) w'"
    by (rule put_inv [OF assms(1) by_tables assms(2,3) k growing_has(1)])
  show "P (dir w')" using step_agree [OF assms(2), of w'] agree_update [OF assms(3)] k(2) by simp
qed

lemma disk_truncate:
  assumes "disk_inv P H a cs w" and "P (dir w)" and "\<not> is_table n" and "sys_truncate n w = (r, w')"
  shows "disk_inv P (H - {n}) a (if n = a then insert [] cs else cs) w'" and "P (dir w')"
proof -
  have "disk_inv P (H - {n}) a (if n = a then insert [] cs else cs) w' \<and> P (dir w')"
    using assms(4) unfolding sys_truncate_def
  proof (cases rule: syscall_atomic_cases)
    case Done
    have "disk_inv P (H - {n}) a (if n = a then cs \<union> set [[]] else cs) w'"
      by (rule put_inv [OF assms(1) by_tables assms(2,3) Done(4) Done(2)]) simp
    then show ?thesis
      using Done step_agree [OF assms(2), of w'] agree_update [OF assms(3)] by (simp split: if_splits)
  next
    case Stopped
    have "disk_inv P (H - {n}) a (if n = a then insert [] cs else cs) w"
      by (rule disk_inv_mono [OF assms(1)]) auto
    then show ?thesis using disk_inv_env [of w' w] Stopped assms(2) by simp
  qed
  then show "disk_inv P (H - {n}) a (if n = a then insert [] cs else cs) w'" "P (dir w')" by simp_all
qed

end

text \<open>Syncing a file leaves its present contents only; syncing the directory leaves the present names only.\<close>

lemma disk_sync:
  assumes inv: "disk_inv P H a cs w" and "sys_sync n w = (r, w')"
  shows "disk_inv P (if r = Ok () then insert n H else H) a
      (if r = Ok () \<and> n = a then {contents (dir w) a} else cs) w'"
    and "dir w' = dir w"
  using assms(2) unfolding sys_sync_def
proof (atomize (full), cases rule: syscall_atomic_cases)
  case Done
  let ?D = "disk w"
  have tr: "tracked w" and ha: "hard H w" and fo: "formerly P w" and an: "anchored a cs w" and na: "\<not> is_table a"
    using inv by (simp_all add: disk_inv_def)
  show "disk_inv P (if r = Ok () then insert n H else H) a
      (if r = Ok () \<and> n = a then {contents (dir w) a} else cs) w' \<and> dir w' = dir w"
  proof (cases "map_of (ino_names ?D) n")
    case None
    then have "n \<noteq> a" using an by (auto simp: anchored_def)
    have "hard (insert n H) w" using ha None by (auto simp: hard_def)
    then have "disk_inv P (insert n H) a cs w" using inv by (simp add: disk_inv_def)
    moreover have "disk w' = disk w" using Done(4) None by (simp add: sh_sync_def)
    ultimately show ?thesis using Done \<open>n \<noteq> a\<close> disk_inv_env [of w' w] by simp
  next
    case (Some i)
    have D': "disk w' = ?D\<lparr>ino_data := (ino_data ?D)(i := [contents (dir w) n])\<rparr>"
      using Done(4) Some by (simp add: sh_sync_def)
    have sub: "set (ino_data (disk w') j) \<subseteq> set (ino_data ?D j)" for j
      using trackedD(7) [OF tr Some] by (simp add: D')
    have im: "image_of (ino_data ?D) ns d" if "image_of (ino_data (disk w')) ns d" for ns d
      using that sub unfolding image_of_def by (auto elim!: list_all2_mono)
    have "tracked w'"
    proof (rule tracked_same [OF tr])
      show "contents (dir w') m \<in> set (ino_data (disk w') j)" if "map_of (ino_names ?D) m = Some j" for m j
        using that trackedD(7) [OF tr, of m j] trackedD(5) [OF tr Some, of m] by (auto simp: D' Done(2))
    qed (use trackedD(4) [OF tr] in \<open>simp_all add: D' Done(2)\<close>)
    moreover have "hard (insert n H) w'"
      unfolding hard_def
    proof (intro allI impI)
      fix m j assume m: "map_of (ino_names (disk w')) m = Some j" "is_table m \<or> m \<in> insert n H"
      then have mj: "map_of (ino_names ?D) m = Some j" by (simp add: D')
      show "set (ino_data (disk w') j) = {contents (dir w') m}"
        using trackedD(5) [OF tr Some, of m] m(2) mj ha Some by (auto simp: D' Done(2) hard_def)
    qed
    moreover have "formerly P w'"
      using fo im unfolding formerly_def by (simp add: D')
    moreover have "anchored a (if n = a then {contents (dir w) a} else cs) w'"
    proof -
      obtain j where j: "\<forall>ns \<in> set (ino_names ?D # ino_former ?D). map_of ns a = Some j" "set (ino_data ?D j) \<subseteq> cs"
        using an unfolding anchored_def by blast
      have "set (ino_data (disk w') j) \<subseteq> (if n = a then {contents (dir w) a} else cs)"
        using j sub [of j] Some by (auto simp: D')
      then show ?thesis using j(1) unfolding anchored_def by (intro exI [of _ j]) (simp add: D')
    qed
    ultimately show ?thesis using na Done by (simp add: disk_inv_def)
  qed
next
  case Stopped
  then show "disk_inv P (if r = Ok () then insert n H else H) a
      (if r = Ok () \<and> n = a then {contents (dir w) a} else cs) w' \<and> dir w' = dir w"
    using inv disk_inv_env [of w' w] by simp
qed

lemma disk_sync_dir:
  assumes inv: "disk_inv P H a cs w" and "sys_sync_dir w = (r, w')"
  shows "if r = Ok () then disk_inv Q H a cs w' else disk_inv P H a cs w'" and "dir w' = dir w"
  using assms(2) unfolding sys_sync_dir_def
proof (atomize (full), cases rule: syscall_atomic_cases)
  case Done
  have tr: "tracked w" using inv by (simp add: disk_inv_def)
  have D': "disk w' = (disk w)\<lparr>ino_former := []\<rparr>" using Done(4) by (simp add: sh_sync_dir_def)
  have "tracked w'"
    by (rule tracked_same [OF tr]) (use trackedD(4,7) [OF tr] in \<open>simp_all add: D' Done(2)\<close>)
  then have "disk_inv Q H a cs w'"
    using inv by (auto simp: disk_inv_def hard_def formerly_def anchored_def D' Done(2))
  then show "(if r = Ok () then disk_inv Q H a cs w' else disk_inv P H a cs w') \<and> dir w' = dir w"
    using Done by simp
next
  case Stopped
  then show "(if r = Ok () then disk_inv Q H a cs w' else disk_inv P H a cs w') \<and> dir w' = dir w"
    using inv disk_inv_env [of w' w] by simp
qed

text \<open>Changes of names: the names before become former names.\<close>

lemma names_inv:
  assumes inv: "disk_inv P H a cs w" and "tables_only P" and "P (dir w)"
    and disk: "disk w' = sh_names f (disk w)"
    and fst: "map fst (ino_names (disk w')) = map fst (dir w')" "distinct (map fst (dir w'))"
    and old: "\<And>n i. map_of (ino_names (disk w')) n = Some i \<Longrightarrow>
      contents (dir w') n \<in> set (ino_data (disk w) i) \<and>
      (\<exists>m. map_of (ino_names (disk w)) m = Some i \<and> contents (dir w') n = contents (dir w) m \<and>
        (n = m \<or> is_table n \<and> m \<in> H))"
    and one: "\<And>n m i. map_of (ino_names (disk w')) n = Some i \<Longrightarrow> map_of (ino_names (disk w')) m = Some i \<Longrightarrow> m = n"
    and keep: "map_of (ino_names (disk w')) a = map_of (ino_names (disk w)) a"
  shows "disk_inv P H a cs w'"
proof -
  let ?D = "disk w" and ?D' = "disk w'"
  have tr: "tracked w" and ha: "hard H w" and fo: "formerly P w" and an: "anchored a cs w" and na: "\<not> is_table a"
    using inv by (simp_all add: disk_inv_def)
  have D': "ino_former ?D' = ino_names ?D # ino_former ?D" "ino_data ?D' = ino_data ?D" "ino_fresh ?D' = ino_fresh ?D"
    by (simp_all add: disk sh_names_def)
  have "tracked w'"
  proof (rule trackedI)
    show "distinct (map fst ns)" if "ns \<in> set (ino_names ?D' # ino_former ?D')" for ns
      using that trackedD(2) [OF tr, of ns] fst by (auto simp: D'(1))
    show "i < ino_fresh ?D'" if "ns \<in> set (ino_names ?D' # ino_former ?D')" "(m, i) \<in> set ns" for ns m i
    proof (cases "ns = ino_names ?D'")
      case True
      then have "map_of (ino_names ?D') m = Some i" using that(2) fst by simp
      then show ?thesis using old fresh_not_named [OF tr, of "ino_names ?D"] by (auto simp: D'(3))
    next
      case False
      then show ?thesis using that trackedD(3) [OF tr, of ns m i] by (auto simp: D')
    qed
    show "m = n" if n: "map_of (ino_names ?D') n = Some i" "\<not> is_table n"
      and m: "ns \<in> set (ino_former ?D')" "map_of ns m = Some i" for n m i ns
    proof -
      have "map_of (ino_names ?D) n = Some i" using old [OF n(1)] n(2) by auto
      then show ?thesis
        using m trackedD(5) [OF tr, of n i m] trackedD(6) [OF tr, of n i ns m] n(2) by (auto simp: D'(1))
    qed
  qed (use trackedD(4) [OF tr] fst(1) one old in \<open>simp_all add: D'\<close>)
  moreover have "hard H w'"
    unfolding hard_def
  proof (intro allI impI)
    fix n i assume n: "map_of (ino_names ?D') n = Some i" "is_table n \<or> n \<in> H"
    then obtain m where m: "map_of (ino_names ?D) m = Some i" "contents (dir w') n = contents (dir w) m"
      "n = m \<or> is_table n \<and> m \<in> H" using old by blast
    then have "is_table m \<or> m \<in> H" using n(2) by blast
    then have "set (ino_data ?D i) = {contents (dir w) m}" using ha m(1) unfolding hard_def by blast
    then show "set (ino_data ?D' i) = {contents (dir w') n}" using m(2) by (simp add: D'(2))
  qed
  moreover have "formerly P w'"
    using fo present_good [OF inv assms(2,3)] unfolding formerly_def by (simp add: D')
  moreover have "anchored a cs w'"
    using an keep unfolding anchored_def by (simp add: D')
  ultimately show ?thesis using na by (simp add: disk_inv_def)
qed

lemma disk_remove:
  assumes inv: "disk_inv P H a cs w" and by_tables: "tables_only P" and good: "P (dir w)" and "n \<noteq> a"
    and "sys_remove n w = (r, w')"
  shows "disk_inv P H a cs w'"
proof (cases "map_of (dir w) n = None")
  case True
  then show ?thesis using assms(5) inv by (simp add: sys_remove_def on_existing_def)
next
  case False
  then have "syscall_atomic (AList.delete n) (\<lambda>_. sh_names (AList.delete n)) w = (r, w')"
    using assms(5) by (auto simp: sys_remove_def on_existing_def)
  then show ?thesis
  proof (cases rule: syscall_atomic_cases)
    case Done
    have tr: "tracked w" using inv by (simp add: disk_inv_def)
    have ns: "ino_names (disk w') = AList.delete n (ino_names (disk w))" using Done(4) by (simp add: sh_names_def)
    have dist: "distinct (map fst (dir w))" using trackedD(1,2) [OF tr] by (metis list.set_intros(1))
    show ?thesis
    proof (rule names_inv [OF inv by_tables good Done(4)])
      show "map fst (ino_names (disk w')) = map fst (dir w')"
        using trackedD(1) [OF tr] by (simp add: ns Done(2) delete_keys)
      show "distinct (map fst (dir w'))" using dist by (simp add: Done(2) distinct_delete)
    qed (use trackedD(5,7) [OF tr] assms(4) in
        \<open>auto simp: ns Done(2) delete_conv' contents_delete split: if_splits\<close>)
  next
    case Stopped
    then show ?thesis using inv disk_inv_env [of w' w] by simp
  qed
qed

lemma disk_rename:
  assumes inv: "disk_inv P H a cs w" and by_tables: "tables_only P" and good: "P (dir w)"
    and tmp: "t \<in> H" "t \<noteq> a" and b: "is_table b" "t \<noteq> b"
    and "sys_rename t b w = (r, w')"
  shows "disk_inv P H a cs w'"
proof (cases "map_of (dir w) t = None")
  case True
  then show ?thesis using assms(8) inv by (simp add: sys_rename_def on_existing_def)
next
  case False
  then have "syscall_atomic (\<lambda>d. AList.update b (contents d t) (AList.delete t d)) (\<lambda>_. sh_rename t b) w = (r, w')"
    using assms(8) by (auto simp: sys_rename_def on_existing_def)
  then show ?thesis
  proof (cases rule: syscall_atomic_cases)
    case Done
    have tr: "tracked w" and na: "a \<noteq> b" using inv b by (auto simp: disk_inv_def)
    obtain i where i: "map_of (ino_names (disk w)) t = Some i" using False names_lookup [OF tr, of t] by auto
    have ns: "ino_names (disk w') = AList.update b i (AList.delete t (ino_names (disk w)))"
      using Done(4) i by (simp add: sh_rename_def sh_names_def)
    have dist: "distinct (map fst (dir w))" using trackedD(1,2) [OF tr] by (metis list.set_intros(1))
    show ?thesis
    proof (rule names_inv [OF inv by_tables good Done(4) [unfolded sh_rename_def]])
      show "map fst (ino_names (disk w')) = map fst (dir w')"
        using trackedD(1) [OF tr] by (simp add: ns Done(2) update_keys delete_keys)
      show "distinct (map fst (dir w'))" using dist by (simp add: Done(2) distinct_delete distinct_update)
      show "m = n" if nm: "map_of (ino_names (disk w')) n = Some j" "map_of (ino_names (disk w')) m = Some j" for n m j
      proof -
        have "x = b \<and> j = i \<or> x \<noteq> b \<and> x \<noteq> t \<and> map_of (ino_names (disk w)) x = Some j"
          if "map_of (ino_names (disk w')) x = Some j" for x
          using that by (simp add: ns update_conv' delete_conv' split: if_splits)
        from this [OF nm(1)] this [OF nm(2)] show ?thesis
          using trackedD(5) [OF tr i] trackedD(5) [OF tr] by blast
      qed
      show "contents (dir w') n \<in> set (ino_data (disk w) j) \<and>
          (\<exists>m. map_of (ino_names (disk w)) m = Some j \<and> contents (dir w') n = contents (dir w) m \<and>
            (n = m \<or> is_table n \<and> m \<in> H))" if n: "map_of (ino_names (disk w')) n = Some j" for n j
      proof (cases "n = b")
        case True
        then have "j = i" using n by (simp add: ns update_conv')
        then show ?thesis
          using True trackedD(7) [OF tr i] i tmp(1) b by (auto simp: Done(2) contents_update contents_delete)
      next
        case False
        then have "n \<noteq> t" "map_of (ino_names (disk w)) n = Some j"
          using n by (auto simp: ns update_conv' delete_conv' split: if_splits)
        then show ?thesis
          using False trackedD(7) [OF tr, of n j] by (auto simp: Done(2) contents_update contents_delete)
      qed
      show "map_of (ino_names (disk w')) a = map_of (ino_names (disk w)) a"
        using tmp(2) na by (simp add: ns update_conv' delete_conv')
    qed
  next
    case Stopped
    then show ?thesis using inv disk_inv_env [of w' w] by simp
  qed
qed

end
