(* ===== verification/Opening.thy ===== *)
theory Opening
  imports Store
begin

text \<open>
  Opening a store under faults (\<open>Db::with_config\<close> of \<^verbatim>\<open>src/src/db.rs\<close>, \<open>SSTableSet::open\<close> of
  \<^verbatim>\<open>src/src/sstable.rs\<close>): all it does to a directory that has a log is to remove temporary files and superseded
  tables, in whatever order and number.
\<close>

section \<open>What opening removes\<close>

definition removal_closed :: "(world \<Rightarrow> bool) \<Rightarrow> bytes set \<Rightarrow> bool" where
  "removal_closed I R \<longleftrightarrow> (\<forall>n \<in> R. \<forall>w r w'. I w \<longrightarrow> sys_remove n w = (r, w') \<longrightarrow> I w')"

lemma removal_closedD: "removal_closed I R \<Longrightarrow> n \<in> R \<Longrightarrow> I w \<Longrightarrow> sys_remove n w = (r, w') \<Longrightarrow> I w'"
  unfolding removal_closed_def by blast

lemma scan_dir_keeps:
  assumes "removal_closed I R" and "\<forall>n \<in> set names. extension n = Some (str ''tmp'') \<longrightarrow> n \<in> R" and "I w"
    and "scan_dir data_dir names acc w = (r, w')"
  shows "I w'" and "r = Ok found \<Longrightarrow> found = acc @ spans_in names"
proof -
  have "I w' \<and> (\<forall>found. r = Ok found \<longrightarrow> found = acc @ spans_in names)"
    using assms(2-4)
  proof (induction data_dir names acc arbitrary: w rule: scan_dir.induct)
    case (1 data_dir acc)
    then show ?case by (auto simp: spans_in_def)
  next
    case (2 data_dir n names acc)
    consider (table) sp where "extension n = Some (str ''sst'')" "parse_span n = Some sp"
      | (bad) "extension n = Some (str ''sst'')" "parse_span n = None"
      | (temp) "extension n = Some (str ''tmp'')" "extension n \<noteq> Some (str ''sst'')"
      | (other) "extension n \<noteq> Some (str ''sst'')" "extension n \<noteq> Some (str ''tmp'')"
      by (cases "extension n = Some (str ''sst'')"; cases "parse_span n") auto
    then show ?case
    proof cases
      case table
      then show ?thesis using "2.IH"(1) [of sp w] "2.prems" by (simp add: spans_in_def)
    next
      case bad
      then show ?thesis using "2.prems" by auto
    next
      case temp
      obtain q w1 where q: "sys_remove n w = (q, w1)" by force
      have "n \<in> R" using "2.prems"(1) temp(1) by simp
      from removal_closedD [OF assms(1) this "2.prems"(2) q] have I1: "I w1" .
      show ?thesis
      proof (cases q)
        case (Ok u)
        then have "scan_dir data_dir names acc w1 = (r, w')"
          using "2.prems"(3) temp q by (simp add: io_bind_def)
        then show ?thesis using "2.IH"(2) [OF temp(2,1), of w1] "2.prems"(1) I1 temp by (simp add: spans_in_def)
      next
        case (Fail s)
        then show ?thesis using "2.prems"(3) temp q I1 by (auto simp: io_bind_def)
      qed
    next
      case other
      then show ?thesis using "2.IH"(3) [OF other, of w] "2.prems" by (simp add: spans_in_def)
    qed
  qed
  then show "I w'" "r = Ok found \<Longrightarrow> found = acc @ spans_in names" by blast+
qed

lemma open_tables_keeps:
  assumes "removal_closed I R" and "\<forall>(i, span, n) \<in> set rest. superseded spans i span \<longrightarrow> n \<in> R" and "I w"
    and "open_tables data_dir spans rest acc w = (r, w')"
  shows "I w'"
  using assms(2-4)
proof (induction data_dir spans rest acc arbitrary: w rule: open_tables.induct)
  case (1 data_dir spans acc)
  then show ?case by simp
next
  case (2 data_dir spans i span n rest acc)
  show ?case
  proof (cases "superseded spans i span")
    case True
    obtain q w1 where q: "sys_remove n w = (q, w1)" by force
    have "n \<in> R" using "2.prems"(1) True by simp
    from removal_closedD [OF assms(1) this "2.prems"(2) q] have I1: "I w1" .
    then show ?thesis using "2.IH"(1) [OF True, of w1] "2.prems" True q by (cases q) (auto simp: io_bind_def)
  next
    case False
    obtain q where q: "open_file data_dir n span w = (q, w)"
      by (cases "map_of (dir w) n") (simp_all add: open_file_def)
    then show ?thesis using "2.IH"(2) [OF False] "2.prems" False by (cases q) (auto simp: io_bind_def)
  qed
qed

lemma set_open_keeps:
  assumes matches: "dir_matches (dir w) ts" and ok: "spans_ok bound ts" and inv: "I w"
    and closed: "removal_closed I {n. extension n \<in> {Some (str ''sst''), Some (str ''tmp'')} \<and> n \<notin> path ` set ts}"
    and op: "set_open data_dir bpk w = (r, w')"
  shows "I w'"
proof -
  define xs where "xs = sort (spans_in (map fst (dir w)))"
  have D: "dir_spans (dir w) ts xs" using matches ok by (auto simp: dir_spans_def xs_def)
  obtain q w1 where sc: "scan_dir data_dir (map fst (dir w)) [] w = (q, w1)" by force
  have tmp: "\<forall>n \<in> set (map fst (dir w)). extension n = Some (str ''tmp'') \<longrightarrow>
      n \<in> {n. extension n \<in> {Some (str ''sst''), Some (str ''tmp'')} \<and> n \<notin> path ` set ts}"
    using table_file(3) [OF D] by fastforce
  note sd = scan_dir_keeps [OF closed tmp inv sc]
  show ?thesis
  proof (cases q)
    case (Fail s)
    then show ?thesis using op sc sd(1) by (simp add: set_open_def io_bind_def)
  next
    case (Ok found)
    then have found: "sort found = xs" using sd(2) by (simp add: xs_def)
    have gone: "snd (snd x) \<in> {n. extension n \<in> {Some (str ''sst''), Some (str ''tmp'')} \<and> n \<notin> path ` set ts}"
      if "x \<in> set (enumerate 0 xs)" "superseded xs (fst x) (fst (snd x))" for x
    proof -
      from that(1) obtain i where i: "i < length xs" "x = (i, xs ! i)"
        by (auto simp: in_set_enumerate_eq prod_eq_iff)
      then have mem: "xs ! i \<in> set xs" by simp
      have "xs ! i \<notin> named ` set ts"
        using superseded_covered [OF distinct_xs(1) [OF D] i(1)] covered_iff [OF D mem] that(2) i(2) by simp
      with D mem have "snd (xs ! i) \<notin> path ` set ts" by (cases rule: span_cases) auto
      then show ?thesis using xs_member [OF D mem] i(2) by simp
    qed
    obtain p w2 where ot: "open_tables data_dir xs (enumerate 0 xs) [] w1 = (p, w2)" by force
    have "I w2"
      by (rule open_tables_keeps [OF closed _ sd(1) ot]) (use gone in fastforce)
    moreover have "w' = w1 \<or> w' = w2"
      using op sc Ok found ot by (auto simp: set_open_def io_bind_def Let_def split: res.splits)
    ultimately show ?thesis using sd(1) by blast
  qed
qed

text \<open>Without what it removes the tables are the same.\<close>

lemma remove_matches:
  assumes "dir_matches (dir w) ts" and "n \<notin> path ` set ts" and "sys_remove n w = (r, w')"
  shows "dir_matches (dir w') ts" and "root w' = root w" and "m \<noteq> n \<Longrightarrow> map_of (dir w') m = map_of (dir w) m"
proof -
  have "dir w' = dir w \<or> dir w' = AList.delete n (dir w)" and "root w' = root w"
    using assms(3) unfolding sys_remove_def on_existing_def
    by (auto elim!: syscall_atomic_cases split: if_splits)
  then show "dir_matches (dir w') ts" "root w' = root w" "m \<noteq> n \<Longrightarrow> map_of (dir w') m = map_of (dir w) m"
    using dir_matches_delete [OF assms(1,2)] assms(1) by (auto simp: delete_conv')
qed

section \<open>Opening a store\<close>

text \<open>Whatever the outcome, the directory keeps its tables and its log.\<close>

lemma wal_open_any:
  assumes "wal_open name sync w = (r, w')"
  shows "same_except name w w'" and "contents (dir w') name = contents (dir w) name"
    and "r = Ok l \<Longrightarrow> l = \<lparr>wfile = name, wsync = sync\<rparr> \<and> map_of (dir w') name = Some (contents (dir w) name)"
proof -
  obtain q where q: "sys_open_create name w = (q, w')" "r = (case q of Ok u \<Rightarrow> Ok \<lparr>wfile = name, wsync = sync\<rparr> | Fail s \<Rightarrow> Fail s)"
    using assms by (auto simp: wal_open_def io_bind_eq)
  have "dir w' = dir w \<and> (q = Ok () \<longrightarrow> map_of (dir w) name \<noteq> None) \<or>
      q = Ok () \<and> map_of (dir w) name = None \<and> dir w' = AList.update name [] (dir w)" "root w' = root w"
    using q(1) unfolding sys_open_create_def by (auto elim!: syscall_atomic_cases split: if_splits)
  then show "same_except name w w'" "contents (dir w') name = contents (dir w) name"
    "r = Ok l \<Longrightarrow> l = \<lparr>wfile = name, wsync = sync\<rparr> \<and> map_of (dir w') name = Some (contents (dir w) name)"
    using q(2) by (auto simp: contents_def update_conv' intro: same_except_refl same_except_update split: res.splits)
qed

definition tables_and_log :: "sstable list \<Rightarrow> bytes option \<Rightarrow> world \<Rightarrow> bool" where
  "tables_and_log ts log w \<longleftrightarrow> dir_matches (dir w) ts \<and> map_of (dir w) WAL_NAME = log \<and> root w = Directory"

lemma tables_and_log_closed:
  "removal_closed (tables_and_log ts log) {n. extension n \<in> {Some (str ''sst''), Some (str ''tmp'')} \<and> n \<notin> path ` set ts}"
proof -
  have "tables_and_log ts log w'" if "extension n \<in> {Some (str ''sst''), Some (str ''tmp'')}" "n \<notin> path ` set ts"
    "tables_and_log ts log w" "sys_remove n w = (r, w')" for n w r w'
  proof -
    have "WAL_NAME \<noteq> n" using that(1) extension_WAL by auto
    then show ?thesis
      using that(3) remove_matches [OF _ that(2,4)] unfolding tables_and_log_def by metis
  qed
  then show ?thesis unfolding removal_closed_def by blast
qed

lemma with_config_split:
  assumes "with_config crc cfg w = (r, w')" and "root w = Directory"
  obtains w1 q where "wal_open WAL_NAME (cfg_sync cfg) w = (q, w1)"
    "w' = w1 \<or> (\<exists>l p. q = Ok l \<and> set_open (cfg_path cfg) (cfg_bits_per_key cfg) w1 = (p, w'))"
proof -
  obtain q w1 where q: "wal_open WAL_NAME (cfg_sync cfg) w = (q, w1)" by force
  have rd: "\<exists>p. wal_read crc l w1 = (p, w1)" for l by (auto simp: wal_read_def split: option.split)
  have "w' = w1 \<or> (\<exists>l p. q = Ok l \<and> set_open (cfg_path cfg) (cfg_bits_per_key cfg) w1 = (p, w'))"
  proof (cases q)
    case (Fail s)
    then show ?thesis using assms q by (simp add: with_config_def create_dir_all_def io_bind_def)
  next
    case (Ok l)
    obtain p where p: "wal_read crc l w1 = (p, w1)" using rd by blast
    obtain t w2 where t: "set_open (cfg_path cfg) (cfg_bits_per_key cfg) w1 = (t, w2)" by force
    show ?thesis
      using assms q Ok p t by (cases p; cases t) (auto simp: with_config_def create_dir_all_def io_bind_def)
  qed
  then show thesis using that q by blast
qed

lemma with_config_keeps:
  assumes view: "disk_view crc (dir w) V" and root: "root w = Directory" and op: "with_config crc cfg w = (r, w')"
  shows "disk_view crc (dir w') V" and "root w' = Directory"
proof -
  from view obtain ess ws tail where d: "disk_state (dir w) ess" "\<forall>e \<in> set ws. write_fits e"
    "torn crc tail" "contents (dir w) WAL_NAME = frames crc (map wrec ws) @ tail" "V = view ess ws"
    by (auto simp: disk_view_def)
  from op root obtain w1 q where s: "wal_open WAL_NAME (cfg_sync cfg) w = (q, w1)"
    "w' = w1 \<or> (\<exists>l p. q = Ok l \<and> set_open (cfg_path cfg) (cfg_bits_per_key cfg) w1 = (p, w'))"
    by (rule with_config_split)
  note wo = wal_open_any [OF s(1)]
  have "disk_state (dir w1) ess" by (rule same_except_disk_state [OF wo(1) WAL_not_table d(1)])
  then obtain ts bound where ts: "list_all2 wf_table ts ess" "spans_ok bound ts" "dir_matches (dir w1) ts"
    by (auto simp: disk_state_def)
  let ?log = "map_of (dir w1) WAL_NAME"
  have i1: "tables_and_log ts ?log w1" using ts(3) wo(1) root by (simp add: tables_and_log_def same_except_def)
  have i': "tables_and_log ts ?log w'"
    using s(2) i1 set_open_keeps [OF ts(3,2) i1 tables_and_log_closed] by blast
  then show "root w' = Directory" by (simp add: tables_and_log_def)
  have "contents (dir w') WAL_NAME = contents (dir w) WAL_NAME"
    using i' wo(2) by (simp add: tables_and_log_def contents_def)
  then show "disk_view crc (dir w') V"
    using ts(1,2) i' d(2-5) by (intro disk_viewI [of _ ess ws crc tail]) (auto simp: disk_state_def tables_and_log_def)
qed

text \<open>A call that succeeds does the same without faults.\<close>

definition calm_ok :: "'a io \<Rightarrow> bool" where
  "calm_ok m \<longleftrightarrow> (\<forall>w x w'. m w = (Ok x, w') \<longrightarrow> m (calm w) = (Ok x, calm w'))"

named_theorems calm_ok_intros

lemma calm_ok_lift [calm_ok_intros]: "calm_ok (io_lift r)" "calm_ok (Pair r)"
  by (simp_all add: calm_ok_def)

lemma calm_ok_bind [calm_ok_intros]:
  assumes "calm_ok m" and "\<And>x. calm_ok (f x)"
  shows "calm_ok (io_bind m f)"
  unfolding calm_ok_def
proof (intro allI impI)
  fix w x w' assume "io_bind m f w = (Ok x, w')"
  then obtain y w1 where y: "m w = (Ok y, w1)" "f y w1 = (Ok x, w')" by (auto simp: io_bind_eq)
  then have "m (calm w) = (Ok y, calm w1)" "f y (calm w1) = (Ok x, calm w')"
    using assms unfolding calm_ok_def by blast+
  then show "io_bind m f (calm w) = (Ok x, calm w')" by (simp add: io_bind_Ok)
qed

lemma calm_ok_if [calm_ok_intros]: "calm_ok m \<Longrightarrow> calm_ok n \<Longrightarrow> calm_ok (if b then m else n)"
  by simp

lemma calm_ok_syscall: "calm_ok (syscall_atomic f sh)"
  unfolding calm_ok_def syscall_atomic_def
proof (intro allI impI)
  fix w x w' assume "syscall f (\<lambda>_ d. d) sh (\<lambda>_ D. D) w = (Ok x, w')"
  then show "syscall f (\<lambda>_ d. d) sh (\<lambda>_ D. D) (calm w) = (Ok x, calm w')"
    by (cases "env w"; cases "hd (env w)") (auto simp: syscall_def calm_def)
qed

lemma calm_ok_sys [calm_ok_intros]: "calm_ok (sys_open_create n)" "calm_ok (sys_remove n)"
  using calm_ok_syscall unfolding sys_open_create_def sys_remove_def calm_ok_def on_existing_def by auto

lemma calm_ok_read [calm_ok_intros]: "calm_ok (open_file data_dir n span)" "calm_ok (wal_read crc l)"
  by (auto simp: calm_ok_def open_file_def wal_read_def split: option.splits)

lemma calm_ok_scan [calm_ok_intros]: "calm_ok (scan_dir data_dir names acc)"
  by (induction data_dir names acc rule: scan_dir.induct)
    (auto intro!: calm_ok_intros split: option.split simp del: io_lift_eq)

lemma calm_ok_tables [calm_ok_intros]: "calm_ok (open_tables data_dir spans rest acc)"
  by (induction data_dir spans rest acc rule: open_tables.induct) (auto intro!: calm_ok_intros)

lemma calm_ok_set_open [calm_ok_intros]: "calm_ok (set_open data_dir bpk)"
proof -
  have "calm_ok (io_bind (scan_dir data_dir names []) (\<lambda>found. let spans = sort found
      in io_bind (io_lift (next_seq_of spans)) (\<lambda>next. io_bind (open_tables data_dir spans (enumerate 0 spans) [])
        (\<lambda>sstables. io_lift (Ok \<lparr>tables = sstables, set_dir = data_dir, bits_per_key = bpk, next_seq = next\<rparr>)))))" for names
    by (simp only: Let_def) (intro calm_ok_intros)
  then show ?thesis unfolding calm_ok_def set_open_def by simp
qed

lemma with_config_ok:
  assumes "with_config crc cfg w = (Ok db, w')" and "root w = Directory"
  shows "with_config crc cfg (calm w) = (Ok db, calm w')"
proof -
  let ?m = "io_bind (wal_open WAL_NAME (cfg_sync cfg)) (\<lambda>l. io_bind (wal_read crc l) (\<lambda>rs.
    io_bind (set_open (cfg_path cfg) (cfg_bits_per_key cfg)) (\<lambda>s. io_lift (Ok \<lparr>db_map = replay rs, db_wal = l,
      db_size = 0, db_config = cfg, db_set = s, db_rings = 0\<rparr>))))"
  have same: "with_config crc cfg v = ?m v" if "root v = Directory" for v
    using that by (simp add: with_config_def create_dir_all_def io_bind_def)
  have "calm_ok ?m" unfolding wal_open_def by (intro calm_ok_intros)
  then show ?thesis using assms same [of w] same [of "calm w"] by (simp add: calm_ok_def)
qed

text \<open>C6: opening a store is crash safe. An open that fails or is killed at any of its system calls, with any number of
  leftovers of earlier crashes removed by then, leaves the contents: the next open finds them. If it returns the
  store, every get answers with them.\<close>

theorem open_crash_safe:
  assumes "disk_view crc (dir w) V" and "root w = Directory" and "with_config crc cfg w = (r, w')"
  shows "(\<exists>db w2. with_config crc cfg' (calm w') = (Ok db, w2) \<and> db_get db = (\<lambda>k. Ok (V k))) \<and>
    (\<forall>db. r = Ok db \<longrightarrow> db_get db = (\<lambda>k. Ok (V k)))"
proof
  show "\<exists>db w2. with_config crc cfg' (calm w') = (Ok db, w2) \<and> db_get db = (\<lambda>k. Ok (V k))"
    using reopen_disk_view [OF with_config_keeps [OF assms]] by (fastforce simp: fun_eq_iff)
  show "\<forall>db. r = Ok db \<longrightarrow> db_get db = (\<lambda>k. Ok (V k))"
    using reopen_disk_view [OF assms(1,2), of cfg] with_config_ok [OF _ assms(2)] assms(3)
    by (fastforce simp: fun_eq_iff)
qed

text \<open>A log of one write, and what a killed flush left of its table; the open is killed when it removes that.\<close>

theorem open_crash_safe_witness:
  "\<exists>w r w' db w2. w = world_of Directory [(WAL_NAME, frames (\<lambda>bs. 0) [wrec ([1], Some [7])]), (tmp_name (0, 0), [1])] [Done, Kill 0] \<and>
     with_config (\<lambda>bs. 0) default_config w = (r, w') \<and> r = Fail Killed \<and>
     with_config (\<lambda>bs. 0) default_config (calm w') = (Ok db, w2) \<and> db_get db [1] = Ok (Some [7])"
proof -
  let ?e = "([1], Some [7]) :: entry"
  let ?log = "frames (\<lambda>bs. 0) (map wrec [?e])"
  let ?w = "world_of Directory [(WAL_NAME, ?log), (tmp_name (0, 0), [1])] [Done, Kill 0]"
  have ne: "WAL_NAME \<noteq> tmp_name (0, 0)" using extension_tmp_name [of "(0, 0)"] extension_WAL by auto
  have "disk_state (dir ?w) []"
    using WAL_not_table tmp_name_not_table [of "(0, 0)"] ne
    by (auto simp: disk_state_def dir_matches_def intro!: exI [of _ 0])
  then have view: "disk_view (\<lambda>bs. 0) (dir ?w) (view [] [?e])"
    using demo_fits by (intro disk_viewI [of _ "[]" "[?e]" _ "[]"]) (simp_all add: contents_def)
  obtain r w' where op: "with_config (\<lambda>bs. 0) default_config ?w = (r, w')" by force
  have "\<exists>db w2. with_config (\<lambda>bs. 0) default_config (calm w') = (Ok db, w2) \<and> db_get db = (\<lambda>k. Ok (view [] [?e] k))"
    using open_crash_safe [OF view _ op] by simp
  then obtain db w2 where re: "with_config (\<lambda>bs. 0) default_config (calm w') = (Ok db, w2)"
    "db_get db [1] = Ok (view [] [?e] [1])" by auto
  have "r = Fail Killed"
  proof -
    let ?w1 = "?w\<lparr>env := [Kill 0], disk := sh_link WAL_NAME (disk ?w)\<rparr>"
    have ext: "extension WAL_NAME = Some (str ''log'')" "extension (tmp_name (0, 0)) = Some (str ''tmp'')"
      by (rule extension_WAL, rule extension_tmp_name)
    have "wal_open WAL_NAME True ?w = (Ok \<lparr>wfile = WAL_NAME, wsync = True\<rparr>, ?w1)"
      by (simp add: wal_open_def sys_open_create_def syscall_atomic_def syscall_def io_bind_def)
    moreover have "wal_read (\<lambda>bs. 0) \<lparr>wfile = WAL_NAME, wsync = True\<rparr> ?w1 = (Ok (map wrec [?e]), ?w1)"
      using read_loop_torn_tail [of "[?e]" "\<lambda>bs. 0" "[]"] demo_fits by (simp add: wal_read_def contents_def)
    moreover have "fst (set_open data_dir bpk ?w1) = Fail Killed" for data_dir bpk
      using ext ne by (simp add: set_open_def io_bind_def sys_remove_def on_existing_def syscall_atomic_def syscall_def)
    then obtain w3 where "set_open (cfg_path default_config) (cfg_bits_per_key default_config) ?w1 = (Fail Killed, w3)"
      by (metis prod.collapse)
    moreover have "cfg_sync default_config" by (simp add: default_config_def)
    ultimately show ?thesis using op by (simp add: with_config_def create_dir_all_def io_bind_def)
  qed
  then show ?thesis using op re by (auto simp: view_def map_add_def map_of_apply_writes live_def)
qed

end
