(* ===== verification/Power_Loss.thy ===== *)
theory Power_Loss
  imports Interleaving Disk Opening
begin

text \<open>
  Loss of power. The store is built so that what it has acknowledged survives one when \<^verbatim>\<open>sync\<close> is set: the log is
  synced after every append, a table is synced before it gets its name, and the directory is synced before the
  log is cut (\<^verbatim>\<open>src/src/wal.rs\<close>, \<^verbatim>\<open>write_table\<close> and \<^verbatim>\<open>publish\<close> in \<^verbatim>\<open>src/src/sstable.rs\<close>). Here the invariant of theory
  Disk is carried through every interleaving of the two threads, so that whatever remains of the disk
  (\<open>may_remain\<close>) opens to the contents.
\<close>

section \<open>The tables of a directory are its table files\<close>

lemma agree_stored:
  assumes "agree d d'" and "stored d t"
  shows "stored d' t"
proof -
  have "is_table (path t)" using assms(2) extension_sst_name [of "span_of t"] by (simp add: stored_def is_table_def)
  then have "map_of d' (path t) = map_of d (path t)" using assms(1) by (simp add: agree_def)
  then show ?thesis using assms(2) stored_cong by blast
qed

lemma agree_names:
  assumes "agree d d'" and "n \<in> fst ` set d'" and "extension n = Some (str ''sst'')"
  shows "n \<in> fst ` set d"
proof -
  have "map_of d' n = map_of d n" using assms(1,3) by (simp add: agree_def is_table_def)
  then show ?thesis using assms(2) by (metis map_of_eq_None_iff)
qed

lemma agree_stands:
  assumes "agree d d'" and "stands d E"
  shows "stands d' E"
proof -
  have "dir_matches d' ts" if "dir_matches d ts" for ts
    using agree_stored [OF assms(1)] agree_names [OF assms(1)] assms(1) that
    unfolding dir_matches_def agree_def by meson
  then show ?thesis using assms(2) unfolding stands_def disk_state_def by blast
qed

text \<open>
  The directories that have what a state needs. While a table that a flush has written has its name, but the
  directory is not synced, the disk has the tables with it or without it: the log has its writes.
\<close>

definition seen :: "entry list list \<Rightarrow> entry list \<Rightarrow> directory \<Rightarrow> bool" where
  "seen E ws d \<longleftrightarrow> (\<exists>E0. stands d E0 \<and> view E0 ws = view E ws)"

definition safe :: "writing \<Rightarrow> entry list list \<Rightarrow> entry list \<Rightarrow> directory \<Rightarrow> bool" where
  "safe wr E ws d \<longleftrightarrow> (if \<exists>t. wr = Flushing t To_sync_dir then seen E ws d else stands d E)"

lemma stands_seen: "stands d E \<Longrightarrow> seen E ws d"
  unfolding seen_def by blast

lemma stands_safe: "stands d E \<Longrightarrow> safe wr E ws d"
  by (simp add: safe_def stands_seen)

lemma safe_seen: "safe wr E ws d \<Longrightarrow> seen E ws d"
  by (auto simp: safe_def stands_seen split: if_splits)

lemma tables_only_seen: "tables_only (seen E ws)"
  unfolding tables_only_def seen_def using agree_stands by blast

lemma tables_only_safe: "tables_only (safe wr E ws)"
  using tables_only_seen [of E ws] agree_stands unfolding tables_only_def safe_def by metis

interpretation on_disk: synced_tables "safe wr E ws" for wr E ws
  by unfold_locales (rule tables_only_safe)

interpretation on_disk_seen: synced_tables "seen E ws" for E ws
  by unfold_locales (rule tables_only_seen)

lemma stands_live_eq: "stands d E \<Longrightarrow> live_eq E' E \<Longrightarrow> stands d E'"
  unfolding stands_def live_eq_def by auto

text \<open>A step that leaves the directory to be synced keeps what is known of it.\<close>

lemma carried_safe:
  assumes "carried wr wr' l E ws L E' ws' L'" and "safe wr E ws d"
    and "\<And>t. wr = Flushing t To_sync_dir \<Longrightarrow> wr' = wr"
  shows "safe wr' E' ws' d"
proof (cases "\<exists>t. wr = Flushing t To_sync_dir")
  case True
  then obtain t where t: "wr = Flushing t To_sync_dir" "wr' = wr" using assms(3) by blast
  then have "live_eq E' E" "ws' = ws" using assms(1) by (auto simp: carried_def split: option.splits)
  then show ?thesis using assms(2) t live_eq_view [of E' E ws] by (simp add: safe_def seen_def)
next
  case False
  then have s: "stands d E" using assms(2) by (simp add: safe_def)
  show ?thesis
  proof (cases "\<exists>t. wr' = Flushing t To_sync_dir")
    case True
    then have "view E' ws = view E ws" "ws' = ws"
      using assms(1) False by (auto simp: carried_def split: option.splits)
    then show ?thesis using True s by (auto simp: safe_def seen_def)
  next
    case False
    then have "live_eq E' E" using assms(1) by (auto simp: carried_def split: option.splits)
    then show ?thesis using stands_safe [OF stands_live_eq [OF s]] by blast
  qed
qed

section \<open>What the operations make of the disk\<close>

lemma growing_prefix: "set (growing c data) \<subseteq> range (\<lambda>n. c @ take n data)"
  by (auto simp: growing_def simp del: upt_Suc)

lemma tmp_not_table: "\<not> is_table (tmp_name span)"
  using tmp_name_not_table by (simp add: is_table_def)

lemma WAL_no_table: "\<not> is_table WAL_NAME"
  using WAL_not_table by (simp add: is_table_def)

lemma sst_is_table: "is_table (sst_name span)"
  by (simp add: is_table_def extension_sst_name)

lemma tmp_not_WAL: "tmp_name span \<noteq> WAL_NAME"
  using extension_tmp_name [of span] extension_WAL by auto

text \<open>What the calls of \<open>write_table\<close> do to the files whose contents are on the disk.\<close>

definition hardened :: "bytes \<Rightarrow> stage \<Rightarrow> unit res \<Rightarrow> bytes set \<Rightarrow> bytes set" where
  "hardened n g r H =
     (if g < To_sync then H - {n} else if g = To_sync \<and> r = Ok () then insert n H else H)"

context synced_tables
begin

text \<open>With \<^verbatim>\<open>sync\<close> a record is on the disk when it is acknowledged; before, any part of it may be.\<close>

lemma disk_log:
  assumes inv: "disk_inv P H (wfile l) {c} w" and good: "P (dir w)" and c: "contents (dir w) (wfile l) = c"
    and "wsync l" and fits: "record_fits x"
    and op: "wal_append crc l (wkey x) (wvalue x) (woperation x) w = (r, w')"
  shows "disk_inv P (H - {wfile l}) (wfile l) (range (\<lambda>n. c @ take n (frame crc x))) w'" and "P (dir w')"
    and "r = Ok () \<Longrightarrow> disk_inv P (H - {wfile l}) (wfile l) {c @ frame crc x} w'"
proof -
  let ?a = "wfile l" and ?cs = "range (\<lambda>n. c @ take n (frame crc x))"
  obtain q w1 where a: "sys_append ?a (frame crc x) w = (q, w1)" by force
  have op': "(r, w') = (case q of Fail s \<Rightarrow> (Fail s, w1) | Ok u \<Rightarrow> sys_sync ?a w1)"
    using op create_body_frame [OF fits, of crc] assms(4) a by (cases q) (auto simp: wal_append_def io_bind_def)
  have nt: "\<not> is_table ?a" using inv by (simp add: disk_inv_def)
  note da = disk_append [OF inv good nt a]
  have c0: "c \<in> ?cs" by (rule range_eqI [of _ _ 0]) simp
  have i1: "disk_inv P (H - {?a}) ?a ?cs w1"
    by (rule disk_inv_mono [OF da(1)]) (use c0 growing_prefix [of c "frame crc x"] c in auto)
  have "disk_inv P (H - {?a}) ?a ?cs w' \<and> P (dir w') \<and> (r = Ok () \<longrightarrow> disk_inv P (H - {?a}) ?a {c @ frame crc x} w')"
  proof (cases q)
    case (Fail s)
    then show ?thesis using op' i1 da(2) by simp
  next
    case (Ok u)
    then have s: "sys_sync ?a w1 = (r, w')" using op' by simp
    have full: "contents (dir w1) ?a = c @ frame crc x"
      using sys_append_effect(2) [OF a] Ok c by (simp add: contents_def)
    note ds = disk_sync [OF i1 s]
    have "disk_inv P (H - {?a}) ?a ?cs w'"
      by (rule disk_inv_mono [OF ds(1)]) (use full in \<open>auto intro: range_eqI [of _ _ "length (frame crc x)"] split: if_splits\<close>)
    moreover have "disk_inv P (H - {?a}) ?a {c @ frame crc x} w'" if "r = Ok ()"
      by (rule disk_inv_mono [OF ds(1)]) (use that full in auto)
    ultimately show ?thesis using ds(2) da(2) by simp
  qed
  then show "disk_inv P (H - {?a}) ?a ?cs w'" "P (dir w')"
    "r = Ok () \<Longrightarrow> disk_inv P (H - {?a}) ?a {c @ frame crc x} w'" by blast+
qed

lemma disk_cut:
  assumes inv: "disk_inv P H (wfile l) {c} w" and good: "P (dir w)" and op: "wal_truncate l w = (r, w')"
  shows "disk_inv P (H - {wfile l}) (wfile l) {c, []} w'" and "P (dir w')"
    and "r = Ok () \<Longrightarrow> disk_inv P (H - {wfile l}) (wfile l) {[]} w'"
proof -
  let ?a = "wfile l"
  obtain q w1 where t: "sys_truncate ?a w = (q, w1)" by force
  have op': "(r, w') = (case q of Fail s \<Rightarrow> (Fail s, w1) | Ok u \<Rightarrow> sys_sync ?a w1)"
    using op t by (cases q) (auto simp: wal_truncate_def io_bind_def)
  have nt: "\<not> is_table ?a" using inv by (simp add: disk_inv_def)
  note dt = disk_truncate [OF inv good nt t]
  have i1: "disk_inv P (H - {?a}) ?a {c, []} w1" by (rule disk_inv_mono [OF dt(1)]) auto
  have "disk_inv P (H - {?a}) ?a {c, []} w' \<and> P (dir w') \<and> (r = Ok () \<longrightarrow> disk_inv P (H - {?a}) ?a {[]} w')"
  proof (cases q)
    case (Fail s)
    then show ?thesis using op' i1 dt(2) by simp
  next
    case (Ok u)
    then have s: "sys_sync ?a w1 = (r, w')" using op' by simp
    have "dir w1 = AList.update ?a [] (dir w)"
      using t Ok unfolding sys_truncate_def by (auto elim!: syscall_atomic_cases)
    then have full: "contents (dir w1) ?a = []" by (simp add: contents_update)
    note ds = disk_sync [OF i1 s]
    have "disk_inv P (H - {?a}) ?a {c, []} w'"
      by (rule disk_inv_mono [OF ds(1)]) (use full in \<open>auto split: if_splits\<close>)
    moreover have "disk_inv P (H - {?a}) ?a {[]} w'" if "r = Ok ()"
      by (rule disk_inv_mono [OF ds(1)]) (use that full in auto)
    ultimately show ?thesis using ds(2) dt(2) by simp
  qed
  then show "disk_inv P (H - {?a}) ?a {c, []} w'" "P (dir w')"
    "r = Ok () \<Longrightarrow> disk_inv P (H - {?a}) ?a {[]} w'" by blast+
qed

text \<open>A table gets its name only when its contents are on the disk.\<close>

lemma disk_call:
  assumes inv: "disk_inv P H WAL_NAME cs w" and good: "P (dir w)"
    and tmp: "g = To_rename \<Longrightarrow> tmp_name (span_of t) \<in> H" and op: "table_call t g w = (r, w')"
  shows "disk_inv P (hardened (tmp_name (span_of t)) g r H) WAL_NAME cs w'"
    and "g = To_sync_dir \<Longrightarrow> r = Ok () \<Longrightarrow> disk_inv Q H WAL_NAME cs w'"
proof -
  let ?tmp = "tmp_name (span_of t)"
  note ne = tmp_not_table [of "span_of t"] tmp_not_WAL [of "span_of t"]
  show "disk_inv P (hardened ?tmp g r H) WAL_NAME cs w'"
  proof (cases g)
    case To_create
    then show ?thesis using disk_create(1) [OF inv good ne, of r w'] op by (simp add: hardened_def)
  next
    case To_fill
    then show ?thesis using disk_append(1) [OF inv good ne(1), of "file_data t" r w'] op ne(2) by (simp add: hardened_def)
  next
    case To_sync
    then show ?thesis using disk_sync(1) [OF inv, of ?tmp r w'] op ne(2) by (simp add: hardened_def split: if_splits)
  next
    case To_rename
    then show ?thesis
      using disk_rename [OF inv by_tables good tmp ne(2) sst_is_table, of "span_of t" r w'] op
      by (simp add: hardened_def tmp_name_neq_sst_name)
  next
    case To_sync_dir
    then show ?thesis using disk_sync_dir(1) [OF inv, of r w' P] op by (simp add: hardened_def split: if_splits)
  qed
  show "disk_inv Q H WAL_NAME cs w'" if "g = To_sync_dir" "r = Ok ()"
    using disk_sync_dir(1) [OF inv, of r w' Q] op that by simp
qed

end

section \<open>The invariant\<close>

text \<open>The temporary files that are about to be renamed.\<close>

fun due_writing :: "writing \<Rightarrow> bytes set" where
  "due_writing (Flushing t g) = (if g = To_rename then {tmp_name (span_of t)} else {})"
| "due_writing _ = {}"

fun due_phase :: "phase \<Rightarrow> bytes set" where
  "due_phase (Writing start count t g) = (if g = To_rename then {tmp_name (span_of t)} else {})"
| "due_phase _ = {}"

definition due :: "system \<Rightarrow> bytes set" where
  "due x = due_writing (sys_writing x) \<union> due_phase (sys_phase x)"

definition power_inv :: "(bytes \<Rightarrow> u32) \<Rightarrow> system \<Rightarrow> entry list list \<Rightarrow> entry list \<Rightarrow> entry list \<Rightarrow> bool" where
  "power_inv crc x E ws L \<longleftrightarrow>
     sys_state crc x E ws L \<and> wsync (db_wal (sys_db x)) \<and>
     disk_inv (safe (sys_writing x) E ws) (due x) WAL_NAME {frames crc (map wrec L)} (sys_world x)"

lemma due_not_WAL: "WAL_NAME \<notin> due x"
proof -
  have "WAL_NAME \<notin> due_writing wr" for wr by (cases wr rule: due_writing.cases) (auto simp: tmp_not_WAL [symmetric])
  moreover have "WAL_NAME \<notin> due_phase ph" for ph by (cases ph rule: due_phase.cases) (auto simp: tmp_not_WAL [symmetric])
  ultimately show ?thesis by (simp add: due_def)
qed

lemma sys_state_apart:
  assumes "sys_state crc x E ws L" and "sys_writing x = Flushing t g" and "g \<noteq> To_sync_dir"
    and "sys_phase x = Writing start count u h"
  shows "tmp_name (span_of t) \<noteq> tmp_name (span_of u)"
proof -
  have "phase_inv (Writing start count u h) (db_set (sys_db x)) E (dir (sys_world x))"
    "next_seq (db_set (sys_db x)) + 1 < 2 ^ 64" "span_of t = (next_seq (db_set (sys_db x)), next_seq (db_set (sys_db x)))"
    using assms by (simp_all add: sys_state_def joint_def)
  from drafts_apart [OF this(1,2)] this(3) show ?thesis by simp
qed

lemma due_after_draft:
  assumes "sys_state crc x E ws L" and "sys_writing x = Flushing t g"
  shows "due_writing (after_draft t g) \<union> due_phase (sys_phase x) \<subseteq> hardened (tmp_name (span_of t)) g (Ok ()) (due x)"
  using assms sys_state_apart [OF assms]
  by (cases g; cases "sys_phase x") (auto simp: after_draft_def hardened_def due_def split: if_splits)

lemma due_after_call:
  assumes "sys_state crc x E ws L" and "sys_phase x = Writing start count u g"
  shows "due_writing (sys_writing x) \<union> due_phase (after_call start count u g) \<subseteq>
    hardened (tmp_name (span_of u)) g (Ok ()) (due x)"
  using assms sys_state_apart [OF assms(1) _ _ assms(2)]
  by (cases g; cases "sys_writing x") (auto simp: after_call_def hardened_def due_def split: if_splits)

lemma due_given_up:
  assumes "sys_state crc x E ws L" and "sys_phase x = Writing start count u g"
  shows "due_writing (sys_writing x) \<subseteq> hardened (tmp_name (span_of u)) g (Fail st) (due x)"
  using assms sys_state_apart [OF assms(1) _ _ assms(2)]
  by (cases g; cases "sys_writing x") (auto simp: hardened_def due_def split: if_splits)

lemma sys_state_safe: "sys_state crc x E ws L \<Longrightarrow> safe (sys_writing x) E ws (dir (sys_world x))"
  unfolding sys_state_def using joint_stands stands_safe by blast

text \<open>Every step keeps it.\<close>

lemma power_step:
  assumes inv: "power_inv crc x E ws L" and step: "step crc x l y"
  shows "\<exists>E' ws' L'. power_inv crc y E' ws' L' \<and> view E' ws' = written (view E ws) (option_list l)"
proof -
  let ?P = "safe (sys_writing x) E ws" and ?w = "sys_world x"
  from inv have S: "sys_state crc x E ws L" and sync: "wsync (db_wal (sys_db x))"
    and D: "disk_inv ?P (due x) WAL_NAME {frames crc (map wrec L)} ?w" by (simp_all add: power_inv_def)
  note good = sys_state_safe [OF S]
  from S have log: "wfile (db_wal (sys_db x)) = WAL_NAME" "contents (dir ?w) WAL_NAME = frames crc (map wrec L)"
    by (simp_all add: sys_state_def backed_def contents_def)
  from step_state [OF S step] obtain E' ws' L' where S': "sys_state crc y E' ws' L'"
    and V: "view E' ws' = written (view E ws) (option_list l)"
    and C: "carried (sys_writing x) (sys_writing y) l E ws L E' ws' L'" by blast
  have keep: ?thesis if "disk_inv ?P H WAL_NAME {frames crc (map wrec L')} (sys_world y)" "due y \<subseteq> H"
    "wsync (db_wal (sys_db y))" "\<And>t. sys_writing x = Flushing t To_sync_dir \<Longrightarrow> sys_writing y = sys_writing x" for H
  proof -
    have "disk_inv (safe (sys_writing y) E' ws') (due y) WAL_NAME {frames crc (map wrec L')} (sys_world y)"
      by (rule disk_inv_mono [OF that(1)]) (use carried_safe [OF C _ that(4)] that(2) in auto)
    then show ?thesis using S' V that(3) unfolding power_inv_def by blast
  qed
  have L': "L' = L" if "l = None" "sys_writing x = Flushed \<Longrightarrow> sys_writing y = Flushed"
    using C that by (auto simp: carried_def)
  have same: ?thesis if "sys_world y = ?w" "due y \<subseteq> due x" "wsync (db_wal (sys_db y))" "l = None"
    "sys_writing x = Flushed \<Longrightarrow> sys_writing y = Flushed"
    "\<And>t. sys_writing x = Flushing t To_sync_dir \<Longrightarrow> sys_writing y = sys_writing x"
    by (rule keep [of "due x"]) (use that D L' in auto)
  from step show ?thesis
  proof (cases rule: step_cases)
    case (do_log e w')
    obtain k v where e: "e = (k, v)" by (cases e)
    have L: "frames crc (map wrec L') = frames crc (map wrec L) @ frame crc (wrec e)"
      using C do_log(1) by (simp add: carried_def)
    have op: "wal_append crc (db_wal (sys_db x)) (wkey (wrec e)) (wvalue (wrec e)) (woperation (wrec e)) ?w = (Ok (), w')"
      using do_log(4) by (simp add: log_entry_def)
    note dl = on_disk.disk_log(3) [OF _ good _ sync record_fits_wrec op refl, unfolded log(1), OF D log(2)]
    show ?thesis
      by (rule keep [of "due x - {WAL_NAME}"])
        (use dl do_log(2,3,5) sync e due_not_WAL [of x] in \<open>auto simp: L due_def after_log_def\<close>)
  next
    case (do_draft t g w')
    have "L' = L" using L' do_draft(1,3) by simp
    have tmp: "g = To_rename \<Longrightarrow> tmp_name (span_of t) \<in> due x" using do_draft(3) by (simp add: due_def)
    note dc = on_disk.disk_call [OF D good tmp do_draft(4)]
    have sub: "due y \<subseteq> hardened (tmp_name (span_of t)) g (Ok ()) (due x)"
      using due_after_draft [OF S do_draft(3)] do_draft(2) by (simp add: due_def)
    show ?thesis
    proof (cases "g = To_sync_dir")
      case True
      have "disk_inv (safe (sys_writing y) E' ws') (due x) WAL_NAME {frames crc (map wrec L)} w'"
        using dc(2) True by simp
      then have "disk_inv (safe (sys_writing y) E' ws') (due y) WAL_NAME {frames crc (map wrec L)} w'"
        by (rule disk_inv_mono) (use sub True in \<open>auto simp: hardened_def\<close>)
      then show ?thesis using S' V sync do_draft(2) \<open>L' = L\<close> unfolding power_inv_def by auto
    next
      case False
      show ?thesis
        by (rule keep [OF _ sub]) (use dc(1) do_draft(2,3) sync \<open>L' = L\<close> False in simp_all)
    qed
  next
    case (do_cut w')
    have "L' = []" using C do_cut(1-3) by (auto simp: carried_def)
    note dc = on_disk.disk_cut(3) [OF _ good do_cut(4) refl, unfolded log(1), OF D]
    show ?thesis
      by (rule keep [of "due x - {WAL_NAME}"])
        (use dc do_cut(2,3) sync due_not_WAL [of x] \<open>L' = []\<close> in \<open>auto simp: due_def\<close>)
  next
    case (do_call start count t g w')
    have tmp: "g = To_rename \<Longrightarrow> tmp_name (span_of t) \<in> due x" using do_call(3) by (simp add: due_def)
    note dc = on_disk.disk_call(1) [OF D good tmp do_call(4)]
    have sub: "due y \<subseteq> hardened (tmp_name (span_of t)) g (Ok ()) (due x)"
      using due_after_call [OF S do_call(3)] do_call(2) by (simp add: due_def)
    show ?thesis by (rule keep [OF _ sub]) (use dc do_call(1,2) sync L' in simp_all)
  next
    case (do_give_up start count t g err w')
    have tmp: "g = To_rename \<Longrightarrow> tmp_name (span_of t) \<in> due x" using do_give_up(3) by (simp add: due_def)
    note dc = on_disk.disk_call(1) [OF D good tmp do_give_up(5)]
    have sub: "due y \<subseteq> hardened (tmp_name (span_of t)) g (Fail (Io err)) (due x)"
      using due_given_up [OF S do_give_up(3)] do_give_up(2) by (simp add: due_def)
    show ?thesis by (rule keep [OF _ sub]) (use dc do_give_up(1,2) sync L' in simp_all)
  next
    case (do_unlink t ts w')
    have "stored (dir ?w) t"
      using S do_unlink(3) by (auto simp: sys_state_def joint_def phase_inv_def held_def dir_clean_def)
    then have "path t \<noteq> WAL_NAME" using extension_sst_name [of "span_of t"] WAL_not_table by (auto simp: stored_def)
    note dr = disk_remove [OF D tables_only_safe good this do_unlink(4)]
    show ?thesis by (rule keep [of "due x"]) (use dr do_unlink(1-3) sync L' in \<open>simp_all add: due_def\<close>)
  next
    case (do_swap start count replacement)
    show ?thesis by (rule same) (use do_swap(1-3) sync in \<open>simp_all add: due_def\<close>)
  qed (rule same; use sync in \<open>simp add: due_def\<close>)+
qed

lemma power_steps:
  assumes "steps crc x es y" and "power_inv crc x E ws L"
  shows "\<exists>E' ws' L'. power_inv crc y E' ws' L' \<and> view E' ws' = written (view E ws) es"
  using assms
proof (induction rule: steps.induct)
  case (stay x)
  then show ?case by auto
next
  case (move x es y l z)
  then obtain E1 ws1 L1 where one: "power_inv crc y E1 ws1 L1" "view E1 ws1 = written (view E ws) es" by blast
  from power_step [OF one(1) move(2)] one(2) show ?case by (auto simp: written_def)
qed

section \<open>What a loss of power leaves\<close>

lemma calm_world_of [simp]: "calm (world_of k d faults) = world_of k d []"
  by (simp add: calm_def world_of_def)

lemma safe_state:
  assumes S: "sys_state crc x E ws L" and d: "safe (sys_writing x) E ws d"
  obtains dess where "disk_state d dess" "view dess L = view E ws" "\<forall>e \<in> set L. write_fits e"
proof -
  from S have J: "joint (sys_writing x) (sys_phase x) (db_set (sys_db x)) E ws L (dir (sys_world x))"
    and fits: "\<forall>e \<in> set L. write_fits e" by (simp_all add: sys_state_def backed_def)
  obtain E0 where E0: "stands d E0" "view E0 L = view E ws"
  proof (cases "\<exists>t. sys_writing x = Flushing t To_sync_dir")
    case True
    then obtain E0 where "stands d E0" "view E0 ws = view E ws" using d by (auto simp: safe_def seen_def)
    moreover have "L = ws" using J True by (auto simp: joint_def)
    ultimately show thesis using that by simp
  next
    case False
    then show thesis using that [of E] d joint_log [OF J] by (simp add: safe_def)
  qed
  from E0(1) obtain dess where "disk_state d dess" "live_eq dess E0" by (auto simp: stands_def)
  then show thesis using that [of dess] live_eq_view [of dess E0 L] E0(2) fits by simp
qed

lemma safe_view:
  assumes S: "sys_state crc x E ws L" and d: "safe (sys_writing x) E ws d"
    and log: "contents d WAL_NAME = frames crc (map wrec L)"
  shows "disk_view crc d (view E ws)"
proof -
  from S d obtain dess where "disk_state d dess" "view dess L = view E ws" "\<forall>e \<in> set L. write_fits e" by (rule safe_state)
  then show ?thesis using log by (intro disk_viewI [of d dess L crc "[]"]) simp_all
qed

lemma power_state:
  assumes inv: "power_inv crc x E ws L" and d: "may_remain (sys_world x) d"
  obtains dess where "disk_state d dess" "view dess L = view E ws" "\<forall>e \<in> set L. write_fits e"
    "map_of d WAL_NAME = Some (frames crc (map wrec L))"
proof -
  from inv have S: "sys_state crc x E ws L"
    and D: "disk_inv (safe (sys_writing x) E ws) (due x) WAL_NAME {frames crc (map wrec L)} (sys_world x)"
    by (simp_all add: power_inv_def)
  note r = remains [OF D tables_only_safe sys_state_safe [OF S] d]
  have "map_of d WAL_NAME = Some (frames crc (map wrec L))"
    using r(2,3) by (auto simp: contents_def)
  with that show thesis using safe_state [OF S r(1)] by blast
qed

text \<open>The next action of a thread, however it ends.\<close>

lemma attempt_remains:
  assumes inv: "power_inv crc x E ws L" and att: "attempt crc x l w'" and d: "may_remain w' d"
  shows "disk_view crc d (view E ws) \<or> disk_view crc d (written (view E ws) (option_list l))"
proof -
  let ?P = "safe (sys_writing x) E ws" and ?w = "sys_world x"
  from inv have S: "sys_state crc x E ws L" and sync: "wsync (db_wal (sys_db x))"
    and D: "disk_inv ?P (due x) WAL_NAME {frames crc (map wrec L)} ?w" by (simp_all add: power_inv_def)
  note good = sys_state_safe [OF S]
  from S have J: "joint (sys_writing x) (sys_phase x) (db_set (sys_db x)) E ws L (dir ?w)"
    and fits: "\<forall>e \<in> set L. write_fits e"
    and log: "wfile (db_wal (sys_db x)) = WAL_NAME" "contents (dir ?w) WAL_NAME = frames crc (map wrec L)"
    by (simp_all add: sys_state_def backed_def contents_def)
  from att show ?thesis
  proof (cases rule: attempt_cases)
    case (try_log e r)
    obtain k v where e: "e = (k, v)" by (cases e)
    have op: "wal_append crc (db_wal (sys_db x)) (wkey (wrec e)) (wvalue (wrec e)) (woperation (wrec e)) ?w = (r, w')"
      using try_log(3) by (simp add: log_entry_def)
    note dl = on_disk.disk_log(1,2) [OF _ good _ sync record_fits_wrec [OF try_log(4)] op, unfolded log(1), OF D log(2)]
    note r = remains [OF dl(1) tables_only_safe dl(2) d]
    obtain n where n: "contents d WAL_NAME = frames crc (map wrec L) @ take n (frame crc (wrec (k, v)))"
      using r(2) e by blast
    have "stands d E" "L = ws" using r(1) J try_log(2) by (simp_all add: safe_def joint_def)
    then show ?thesis
      using stands_view_prefix [OF _ fits _ n, of E] try_log(1,4) e by (simp add: written_def)
  next
    case (try_draft t g r)
    have L: "L = ws" using J try_draft(2) by (simp add: joint_def)
    have D': "disk_inv (seen E ws) (due x) WAL_NAME {frames crc (map wrec L)} ?w"
      by (rule disk_inv_mono [OF D]) (auto intro: safe_seen)
    have tmp: "g = To_rename \<Longrightarrow> tmp_name (span_of t) \<in> due x" using try_draft(2) by (simp add: due_def)
    have "seen E ws (dir w')"
      using joint_draft(1) [OF J [unfolded try_draft(2)] try_draft(3)] by (simp add: seen_def)
    note r = remains [OF on_disk_seen.disk_call(1) [OF D' safe_seen [OF good] tmp try_draft(3)] tables_only_seen this d]
    obtain E0 where "stands d E0" "view E0 ws = view E ws" using r(1) by (auto simp: seen_def)
    then show ?thesis using stands_view [OF _ fits torn_Nil, of d E0] r(2) L by simp
  next
    case (try_cut r)
    note dc = on_disk.disk_cut(1,2) [OF _ good try_cut(3), unfolded log(1), OF D]
    note r = remains [OF dc(1) tables_only_safe dc(2) d]
    have "stands d E" "view E L = view E ws" "view E [] = view E ws"
      using r(1) J try_cut(2) by (simp_all add: safe_def joint_def)
    then show ?thesis
      using r(2) stands_view [OF _ fits torn_Nil, of d E] stands_view [of d E "[]" crc "[]"] by auto
  next
    case (try_call start count t g r)
    have tmp: "g = To_rename \<Longrightarrow> tmp_name (span_of t) \<in> due x" using try_call(2) by (simp add: due_def)
    have "?P (dir w')" by (rule stands_safe [OF joint_call(1) [OF J [unfolded try_call(2)] try_call(3)]])
    note r = remains [OF on_disk.disk_call(1) [OF D good tmp try_call(3)] tables_only_safe this d]
    show ?thesis using safe_view [OF S r(1)] r(2) by simp
  next
    case (try_unlink t ts r)
    have "stored (dir ?w) t" using J try_unlink(2) by (auto simp: joint_def phase_inv_def held_def dir_clean_def)
    then have ne: "path t \<noteq> WAL_NAME" using extension_sst_name [of "span_of t"] WAL_not_table by (auto simp: stored_def)
    have "?P (dir w')" by (rule stands_safe [OF joint_unlink(1) [OF J [unfolded try_unlink(2)] try_unlink(3)]])
    note r = remains [OF disk_remove [OF D tables_only_safe good ne try_unlink(3)] tables_only_safe this d]
    show ?thesis using safe_view [OF S r(1)] r(2) by simp
  qed
qed

section \<open>A store on a disk\<close>

text \<open>A store at rest whose contents are on the disk, whatever remains of it.\<close>

definition durable :: "(bytes \<Rightarrow> u32) \<Rightarrow> db \<Rightarrow> world \<Rightarrow> entry list list \<Rightarrow> entry list \<Rightarrow> bool" where
  "durable crc db w ess ws \<longleftrightarrow>
     db_inv crc db w ess ws \<and> wsync (db_wal db) \<and>
     disk_inv (\<lambda>d. stands d ess) {} WAL_NAME {frames crc (map wrec ws)} w"

lemma durable_power_inv:
  assumes "durable crc (sys_db x) (sys_world x) ess ws" and "sys_phase x = Idle" and "sys_writing x = Ready"
  shows "power_inv crc x ess ws ws"
proof -
  have "sys_state crc x ess ws ws"
    using assms backed_store [of set_inv "sys_db x" ess "sys_world x" crc ws]
    by (auto simp: sys_state_def joint_def phase_inv_Idle db_inv_store store_inv_def durable_def)
  moreover have "safe Ready ess ws = (\<lambda>d. stands d ess)" by (simp add: safe_def fun_eq_iff)
  ultimately show ?thesis using assms by (simp add: power_inv_def durable_def due_def)
qed

text \<open>A store that is opened on what a loss of power has left is one again.\<close>

lemma open_durable:
  assumes state: "disk_state d dess" and fits: "\<forall>e \<in> set ws. write_fits e"
    and log: "map_of d WAL_NAME = Some (frames crc (map wrec ws))" and "cfg_sync cfg"
    and op: "with_config crc cfg (world_of Directory d []) = (Ok db, w')"
  shows "durable crc db w' dess ws"
proof -
  let ?w = "world_of Directory d []" and ?c = "frames crc (map wrec ws)"
  have "\<exists>db w'. with_config crc cfg ?w = (Ok db, w') \<and> set_inv (db_set db) dess (dir w') \<and>
      db_map db = apply_writes ws \<and> db_size db = 0 \<and> db_config db = cfg \<and>
      db_wal db = \<lparr>wfile = WAL_NAME, wsync = cfg_sync cfg\<rparr> \<and> bits_per_key (db_set db) = cfg_bits_per_key cfg \<and>
      map_of (dir w') WAL_NAME = Some (frames crc (map wrec ws) @ []) \<and> root w' = Directory \<and> env w' = []"
    by (rule with_config_calm) (use state fits log in \<open>simp_all add: contents_def\<close>)
  then have inv: "db_inv crc db w' dess ws" and sync: "wsync (db_wal db)"
    using op assms(4) fits by (auto simp: db_inv_def)
  from state obtain ts bound where ts: "list_all2 wf_table ts dess" "spans_ok bound ts" "dir_matches d ts"
    by (auto simp: disk_state_def)
  have stands: "stands d' dess" if "dir_matches d' ts" for d'
    using ts(1,2) that by (intro stands_disk_state) (auto simp: disk_state_def)
  let ?P = "\<lambda>d. dir_matches d ts"
  have tables: "tables_only ?P"
    using agree_stored agree_names unfolding tables_only_def dir_matches_def agree_def by meson
  let ?I = "\<lambda>w. disk_inv ?P {} WAL_NAME {?c} w \<and> ?P (dir w)"
  have i0: "disk_inv ?P {} WAL_NAME {?c} ?w"
    using ts(3) log WAL_no_table by (intro settled_inv) (simp_all add: dir_matches_def)
  from op obtain w1 q where s: "wal_open WAL_NAME (cfg_sync cfg) ?w = (q, w1)"
    "w' = w1 \<or> (\<exists>l p. q = Ok l \<and> set_open (cfg_path cfg) (cfg_bits_per_key cfg) w1 = (p, w'))"
    by (rule with_config_split) simp
  have w1: "dir w1 = d" "disk w1 = disk ?w \<or> disk w1 = sh_link WAL_NAME (disk ?w)"
    using s(1) log by (auto simp: wal_open_def io_bind_eq sys_open_create_def elim!: syscall_atomic_cases)
  then have i1: "?I w1"
    using link_inv [OF i0 tables _ WAL_no_table, of w1] disk_inv_env [of w1 ?w] i0 ts(3) log by auto
  have "removal_closed ?I {n. extension n \<in> {Some (str ''sst''), Some (str ''tmp'')} \<and> n \<notin> path ` set ts}"
    unfolding removal_closed_def
  proof (intro ballI allI impI)
    fix n w r v assume n: "n \<in> {n. extension n \<in> {Some (str ''sst''), Some (str ''tmp'')} \<and> n \<notin> path ` set ts}"
      and I: "?I w" and r: "sys_remove n w = (r, v)"
    have "n \<noteq> WAL_NAME" using n extension_WAL by auto
    then show "?I v" using disk_remove [OF _ tables _ _ r] remove_matches(1) [OF _ _ r] I n by blast
  qed
  from set_open_keeps [OF _ ts(2) i1 this] have "?I w'" using s(2) i1 by blast
  then have "disk_inv (\<lambda>d. stands d dess) {} WAL_NAME {?c} w'"
    using disk_inv_mono [of ?P "{}" WAL_NAME "{?c}" w' "\<lambda>d. stands d dess" "{}" "{?c}"] stands by blast
  then show ?thesis using inv sync by (simp add: durable_def)
qed

text \<open>C4: what is acknowledged survives a loss of power, for a store that is \<open>durable\<close> to begin with: it syncs its log, and its
  log and tables are on the disk with their names. However the writer and the compactor are interleaved, and
  whatever may remain of the disk in the state that they reach, the next process opens it to exactly the contents
  of that state, every acknowledged write included; and the store it has opened, if it syncs as well, is durable again.
  A store that has just been created is not durable: nothing has put the name of its log on the disk yet.\<close>

theorem power_loss_keeps_contents:
  assumes "steps crc x es y" and "sys_phase x = Idle" and "sys_writing x = Ready"
    and "durable crc (sys_db x) (sys_world x) ess ws" and "may_remain (sys_world y) d" and "cfg_sync cfg"
  shows "\<exists>db2 w2. with_config crc cfg (world_of Directory d []) = (Ok db2, w2) \<and> db_get db2 = db_get (sys_db y) \<and>
    db_get db2 = (\<lambda>k. Ok (written (view ess ws) es k)) \<and> (\<exists>ess2 ws2. durable crc db2 w2 ess2 ws2)"
proof -
  have "power_inv crc x ess ws ws" using assms(2-4) by (intro durable_power_inv)
  from power_steps [OF assms(1) this] obtain E' ws' L' where y: "power_inv crc y E' ws' L'"
    "view E' ws' = written (view ess ws) es" by blast
  have get: "db_get (sys_db y) = (\<lambda>k. Ok (view E' ws' k))"
    using y(1) sys_get [of crc y E' ws'] by (auto simp: power_inv_def sys_inv_def)
  from y(1) assms(5) obtain dess where d: "disk_state d dess" "view dess L' = view E' ws'" "\<forall>e \<in> set L'. write_fits e"
    "map_of d WAL_NAME = Some (frames crc (map wrec L'))" by (rule power_state)
  then have "disk_view crc d (view E' ws')"
    by (intro disk_viewI [of d dess L' crc "[]"]) (simp_all add: contents_def)
  then obtain db2 w2 where re: "with_config crc cfg (world_of Directory d []) = (Ok db2, w2)"
    "\<forall>k. db_get db2 k = Ok (view E' ws' k)"
    using reopen_disk_view [of crc "world_of Directory d []" "view E' ws'" cfg] by auto
  have "durable crc db2 w2 dess L'" by (rule open_durable [OF d(1,3,4) assms(6) re(1)])
  then show ?thesis using re get y(2) by (auto simp: fun_eq_iff)
qed

text \<open>C5: nor is a write torn by a loss of power, for a store that is \<open>durable\<close> to begin with (it syncs its log, and its log and
  tables are on the disk with their names). If the power fails during the next call of either thread, or after
  it failed, what remains opens to the contents before it or, if it was a write, to those with the write.\<close>

theorem power_loss_atomic:
  assumes "steps crc x es y" and "sys_phase x = Idle" and "sys_writing x = Ready"
    and "durable crc (sys_db x) (sys_world x) ess ws" and "attempt crc y l w'" and "may_remain w' d"
  shows "\<exists>db2 w2. with_config crc cfg (world_of Directory d []) = (Ok db2, w2) \<and>
    (db_get db2 = db_get (sys_db y) \<or>
     (\<exists>k v. l = Some (k, v) \<and> db_get db2 = (db_get (sys_db y))(k := Ok v)))"
proof -
  have "power_inv crc x ess ws ws" using assms(2-4) by (intro durable_power_inv)
  from power_steps [OF assms(1) this] obtain E' ws' L' where y: "power_inv crc y E' ws' L'" by blast
  have get: "db_get (sys_db y) = (\<lambda>k. Ok (view E' ws' k))"
    using y sys_get [of crc y E' ws'] by (auto simp: power_inv_def sys_inv_def)
  from attempt_remains [OF y assms(5,6)] obtain V where V: "disk_view crc d V"
    "V = view E' ws' \<or> V = written (view E' ws') (option_list l)" by blast
  obtain db2 w2 where re: "with_config crc cfg (world_of Directory d []) = (Ok db2, w2)" "\<forall>k. db_get db2 k = Ok (V k)"
    using reopen_disk_view [of crc "world_of Directory d []" V cfg] V(1) by auto
  have "V = view E' ws' \<or> (\<exists>k v. l = Some (k, v) \<and> V = (view E' ws')(k := v))"
    using V(2) by (cases l) (auto simp: written_def)
  then have "db_get db2 = db_get (sys_db y) \<or>
      (\<exists>k v. l = Some (k, v) \<and> db_get db2 = (db_get (sys_db y))(k := Ok v))"
    using re(2) get by (auto simp: fun_eq_iff)
  then show ?thesis using re(1) by blast
qed

text \<open>The present directory may remain, and what may remain is not changed by changes of names.\<close>

lemma present_remains:
  assumes "tracked w"
  shows "may_remain w (dir w)"
proof -
  have "image_of (ino_data (disk w)) (ino_names (disk w)) (dir w)"
    unfolding image_of_def
  proof (rule list_all2_all_nthI)
    have same: "map fst (ino_names (disk w)) = map fst (dir w)" by (rule trackedD(1) [OF assms])
    then show len: "length (ino_names (disk w)) = length (dir w)" by (metis length_map)
    fix j assume j: "j < length (ino_names (disk w))"
    obtain n i where ni: "ino_names (disk w) ! j = (n, i)" by force
    obtain m c where mc: "dir w ! j = (m, c)" by force
    have "m = n" using same j len ni mc by (metis fst_conv nth_map)
    have dist: "distinct (map fst (ino_names (disk w)))" "distinct (map fst (dir w))"
      using trackedD(2) [OF assms, of "ino_names (disk w)"] same by simp_all
    have "map_of (ino_names (disk w)) n = Some i" using dist(1) ni j by (metis map_of_is_SomeI nth_mem)
    moreover have "contents (dir w) m = c" using dist(2) mc j len by (simp add: contents_def) (metis map_of_is_SomeI nth_mem option.simps(5))
    ultimately show "(case ino_names (disk w) ! j of (n, i) \<Rightarrow> \<lambda>(m, c). m = n \<and> c \<in> set (ino_data (disk w) i)) (dir w ! j)"
      using trackedD(7) [OF assms, of n i] ni mc \<open>m = n\<close> by simp
  qed
  then show ?thesis by (simp add: may_remain_def)
qed

lemma names_remain: "may_remain w d \<Longrightarrow> disk w' = sh_names f (disk w) \<Longrightarrow> may_remain w' d"
  by (auto simp: may_remain_def sh_names_def)

text \<open>A write that fills the memtable of an empty store, and the flush as far as the rename: without the rename's
  new name on the disk there is no table there, but the log.\<close>

abbreviation "demo_write \<equiv> ([1], Some [7]) :: entry"

lemma demo_power:
  obtains x y0 y t where "durable (\<lambda>bs. 0) (sys_db x) (sys_world x) [] []" "sys_phase x = Idle" "sys_writing x = Ready"
    "steps (\<lambda>bs. 0) x [demo_write] y0" "sys_writing y0 = Flushing t To_rename"
    "table_call t To_rename (sys_world y0) = (Ok (), sys_world y)" "steps (\<lambda>bs. 0) x [demo_write] y"
    "sys_writing y = Flushing t To_sync_dir" "may_remain (sys_world y) (dir (sys_world y0))"
    "dir (sys_world y0) \<noteq> dir (sys_world y)"
proof -
  let ?crc = "\<lambda>bs. 0 :: u32"
  let ?db = "empty_db\<lparr>db_config := demo_config\<rparr>" and ?w = "empty_store []"
  let ?x = "\<lparr>sys_db = ?db, sys_phase = Idle, sys_writing = Ready, sys_world = ?w\<rparr>"
  have dur: "durable ?crc ?db ?w [] []"
    using empty_store_inv [of ?crc "[]"] WAL_no_table settled_inv [of ?w WAL_NAME "[]"]
    by (simp add: durable_def db_inv_def empty_db_def empty_store_def)
  obtain w1 where w1: "log_entry ?crc demo_write ?db ?w = (Ok (), w1)" "env w1 = []"
    using wal_append_calm [where x = "wrec demo_write" and crc = ?crc and l = "db_wal ?db" and w = ?w]
      record_fits_wrec [OF demo_fits(1)]
    by (auto simp: log_entry_def contents_def wrec_def MAX_FILE_SIZE_def empty_db_def empty_store_def)
  let ?db1 = "logged demo_write ?db"
  let ?s = "\<lambda>wr w. \<lparr>sys_db = ?db1, sys_phase = Idle, sys_writing = wr, sys_world = w\<rparr>"
  have "after_log demo_write ?db = Full" by (simp add: after_log_def logged_def demo_config_def empty_db_def)
  then have "step ?crc ?x (Some demo_write) (?s Full w1)"
    using step.do_log [of ?x ?crc demo_write w1] w1(1) demo_fits(1) by simp
  from steps.move [OF steps.stay this] have s1: "steps ?crc ?x [demo_write] (?s Full w1)" by simp
  have map1: "db_map ?db1 = [demo_write]" by (simp add: logged_def empty_db_def)
  have "small_table 10 [demo_write]" by (simp add: small_table_def)
  from small_table_built [OF this, of "(0, 0)"] obtain t where t: "build_table (0, 0) 1 10 [demo_write] = Ok t"
    "length (file_data t) \<le> MAX_FILE_SIZE" by auto
  have "step ?crc (?s Full w1) None (?s (Flushing t To_create) w1)"
    using step.do_flush [of "?s Full w1" t ?crc] t(1) map1
    by (simp add: room_def flushed_span_def empty_db_def empty_set_def)
  note s2 = steps.move [OF s1 this]
  have draft: "steps ?crc ?x [demo_write] (?s (after_draft t g) v')"
    if "steps ?crc ?x [demo_write] (?s (Flushing t g) v)" "table_call t g v = (Ok (), v')" for g v v'
    using steps.move [OF that(1) step.do_draft [of "?s (Flushing t g) v" t g v' ?crc]] that(2) by simp
  let ?tmp = "tmp_name (span_of t)"
  obtain w2 where w2: "table_call t To_create w1 = (Ok (), w2)" "env w2 = []" "contents (dir w2) ?tmp = []"
    using w1(2) by (simp add: sys_calm contents_update)
  obtain w3 where w3: "table_call t To_fill w2 = (Ok (), w3)" "env w3 = []" "map_of (dir w3) ?tmp = Some (file_data t)"
    using w2(2,3) t(2) by (simp add: sys_calm update_conv')
  obtain w4 where w4: "table_call t To_sync w3 = (Ok (), w4)" "env w4 = []" "map_of (dir w4) ?tmp = Some (file_data t)"
    using w3(2,3) by (simp add: sys_calm)
  obtain w5 f where w5: "table_call t To_rename w4 = (Ok (), w5)" "disk w5 = sh_names f (disk w4)"
    "map_of (dir w5) ?tmp = None"
    using w4(2,3) by (simp add: sys_calm sh_rename_def update_conv' delete_conv')
  have e1: "steps ?crc ?x [demo_write] (?s (Flushing t To_create) w1)" using s2 by simp
  have e2: "steps ?crc ?x [demo_write] (?s (Flushing t To_fill) w2)"
    using draft [OF e1 w2(1)] by (simp add: after_draft_def)
  have e3: "steps ?crc ?x [demo_write] (?s (Flushing t To_sync) w3)"
    using draft [OF e2 w3(1)] by (simp add: after_draft_def)
  have y0: "steps ?crc ?x [demo_write] (?s (Flushing t To_rename) w4)"
    using draft [OF e3 w4(1)] by (simp add: after_draft_def)
  have y: "steps ?crc ?x [demo_write] (?s (Flushing t To_sync_dir) w5)"
    using draft [OF y0 w5(1)] by (simp add: after_draft_def)
  have "power_inv ?crc ?x [] [] []" using dur by (intro durable_power_inv) simp_all
  from power_steps [OF y0 this] obtain E ws L where "power_inv ?crc (?s (Flushing t To_rename) w4) E ws L" by blast
  then have "tracked w4" by (simp add: power_inv_def disk_inv_def)
  from names_remain [OF present_remains [OF this] w5(2)] have "may_remain w5 (dir w4)" .
  moreover have "dir w4 \<noteq> dir w5" using w5(3) w4(3) by auto
  ultimately show thesis
    using that [of ?x "?s (Flushing t To_rename) w4" t "?s (Flushing t To_sync_dir) w5"] dur y0 y w5(1)
    by (simp del: table_call.simps)
qed

theorem power_loss_keeps_contents_witness:
  "\<exists>x y t d db2 w2. steps (\<lambda>bs. 0) x [demo_write] y \<and> sys_writing y = Flushing t To_sync_dir \<and>
     may_remain (sys_world y) d \<and> d \<noteq> dir (sys_world y) \<and>
     with_config (\<lambda>bs. 0) default_config (world_of Directory d []) = (Ok db2, w2) \<and> db_get db2 [1] = Ok (Some [7])"
proof -
  obtain x y0 y t where d: "durable (\<lambda>bs. 0) (sys_db x) (sys_world x) [] []" "sys_phase x = Idle" "sys_writing x = Ready"
    "steps (\<lambda>bs. 0) x [demo_write] y0" "sys_writing y0 = Flushing t To_rename"
    "table_call t To_rename (sys_world y0) = (Ok (), sys_world y)" "steps (\<lambda>bs. 0) x [demo_write] y"
    "sys_writing y = Flushing t To_sync_dir" "may_remain (sys_world y) (dir (sys_world y0))"
    "dir (sys_world y0) \<noteq> dir (sys_world y)"
    by (rule demo_power)
  have "cfg_sync default_config" by (simp add: default_config_def)
  from power_loss_keeps_contents [OF d(7,2,3,1,9) this] obtain db2 w2 where
    "with_config (\<lambda>bs. 0) default_config (world_of Directory (dir (sys_world y0)) []) = (Ok db2, w2)"
    "db_get db2 = (\<lambda>k. Ok (written (view [] []) [demo_write] k))" by blast
  moreover from this(2) have "db_get db2 [1] = Ok (Some [7])" by (simp add: written_def)
  ultimately show ?thesis using d(7-10) by blast
qed

theorem power_loss_atomic_witness:
  "\<exists>x y t w' d db2 w2. steps (\<lambda>bs. 0) x [demo_write] y \<and> table_call t To_rename (sys_world y) = (Ok (), w') \<and>
     may_remain w' d \<and> d \<noteq> dir w' \<and>
     with_config (\<lambda>bs. 0) default_config (world_of Directory d []) = (Ok db2, w2) \<and> db_get db2 = db_get (sys_db y)"
proof -
  obtain x y0 y t where d: "durable (\<lambda>bs. 0) (sys_db x) (sys_world x) [] []" "sys_phase x = Idle" "sys_writing x = Ready"
    "steps (\<lambda>bs. 0) x [demo_write] y0" "sys_writing y0 = Flushing t To_rename"
    "table_call t To_rename (sys_world y0) = (Ok (), sys_world y)" "steps (\<lambda>bs. 0) x [demo_write] y"
    "sys_writing y = Flushing t To_sync_dir" "may_remain (sys_world y) (dir (sys_world y0))"
    "dir (sys_world y0) \<noteq> dir (sys_world y)"
    by (rule demo_power)
  have "attempt (\<lambda>bs. 0) y0 None (sys_world y)" by (rule attempt.try_draft [OF d(5,6)])
  from power_loss_atomic [OF d(4,2,3,1) this d(9), of default_config] obtain db2 w2 where
    "with_config (\<lambda>bs. 0) default_config (world_of Directory (dir (sys_world y0)) []) = (Ok db2, w2)"
    "db_get db2 = db_get (sys_db y0)" by auto
  then show ?thesis using d(4,6,9,10) by blast
qed

end
