(* ===== verification/First_Write.thy ===== *)
theory First_Write
  imports Power_Loss
begin

text \<open>
  The durability of theory Power_Loss starts from a log whose name is on the disk. \<open>Db::with_config\<close> (\<^verbatim>\<open>src/src/db.rs\<close>)
  opens the log with \<open>create(true)\<close> and never syncs the directory, which \<open>publish\<close> does for tables only: on a
  new store the name of the log is not on the disk before the first flush.
\<close>

section \<open>Former names\<close>

text \<open>Names that were there before the last sync of the directory; only that sync forgets them.\<close>

definition may_be_empty :: "world \<Rightarrow> bool" where
  "may_be_empty w \<longleftrightarrow> [] \<in> set (ino_former (disk w))"

lemma may_be_empty_remains: "may_be_empty w \<Longrightarrow> may_remain w []"
  by (auto simp: may_be_empty_def may_remain_def image_of_def)

lemma may_be_empty_put: "[] \<in> set (ino_former D) \<Longrightarrow> [] \<in> set (ino_former (sh_put n cs D))"
  by (simp add: sh_put_def sh_link_def Let_def)

lemma may_be_empty_remove: "removal_closed may_be_empty R"
proof -
  have "may_be_empty w'" if "may_be_empty w" "sys_remove n w = (r, w')" for n w r w'
    using that unfolding may_be_empty_def sys_remove_def on_existing_def
    by (auto elim!: syscall_atomic_cases simp: sh_names_def split: if_splits)
  then show ?thesis unfolding removal_closed_def by blast
qed

lemma may_be_empty_append:
  assumes "wal_append crc l key val operation w = (r, w')" and "may_be_empty w"
  shows "may_be_empty w'"
proof -
  have append: "may_be_empty w1" if "sys_append n data w = (q, w1)" for n data q w1
    using that assms(2) may_be_empty_put unfolding sys_append_def may_be_empty_def
    by (auto elim!: syscall_cases split: if_splits)
  have sync: "may_be_empty w2" if "sys_sync n w1 = (q, w2)" "may_be_empty w1" for n q w1 w2
    using that unfolding sys_sync_def may_be_empty_def
    by (auto elim!: syscall_atomic_cases simp: sh_sync_def split: option.splits)
  show ?thesis
    using assms append sync by (auto simp: wal_append_def io_bind_eq split: if_splits)
qed

text \<open>A store opened in an empty directory.\<close>

lemma open_empty:
  assumes op: "with_config crc cfg w = (Ok db, w')" and w: "root w = Directory" "dir w = []" "disk w = settled []"
  shows "db_map db = []" and "db_size db = 0" and "db_config db = cfg" and "db_wal db = \<lparr>wfile = WAL_NAME, wsync = cfg_sync cfg\<rparr>"
    and "may_be_empty w'"
proof -
  have "\<exists>db w2. with_config crc cfg (calm w) = (Ok db, w2) \<and> set_inv (db_set db) [] (dir w2) \<and>
      db_map db = apply_writes [] \<and> db_size db = 0 \<and> db_config db = cfg \<and>
      db_wal db = \<lparr>wfile = WAL_NAME, wsync = cfg_sync cfg\<rparr> \<and> bits_per_key (db_set db) = cfg_bits_per_key cfg \<and>
      map_of (dir w2) WAL_NAME = Some (frames crc (map wrec []) @ []) \<and> root w2 = Directory \<and> env w2 = []"
    by (rule with_config_calm)
      (use w in \<open>auto simp: contents_def disk_state_def dir_matches_def intro!: exI [of _ 0]\<close>)
  then show "db_map db = []" "db_size db = 0" "db_config db = cfg" "db_wal db = \<lparr>wfile = WAL_NAME, wsync = cfg_sync cfg\<rparr>"
    using with_config_ok [OF op w(1)] by auto
  obtain l w1 rs s where c: "wal_open WAL_NAME (cfg_sync cfg) w = (Ok l, w1)" "wal_read crc l w1 = (Ok rs, w1)"
    "set_open (cfg_path cfg) (cfg_bits_per_key cfg) w1 = (Ok s, w')"
    using op w(1) by (auto simp: with_config_def create_dir_all_def io_bind_eq wal_read_def split: option.splits)
  have w1: "dir w1 = [(WAL_NAME, [])]" "disk w1 = sh_link WAL_NAME (settled [])"
    using c(1) w unfolding wal_open_def io_bind_eq sys_open_create_def by (auto elim!: syscall_atomic_cases)
  show "may_be_empty w'"
  proof (rule set_open_keeps [OF _ _ _ may_be_empty_remove c(3)])
    show "dir_matches (dir w1) []" using WAL_not_table by (simp add: w1(1) dir_matches_def)
    show "spans_ok 0 []" by simp
    show "may_be_empty w1" by (simp add: may_be_empty_def w1(2) sh_link_def settled_def)
  qed
qed

text \<open>C38: the first writes of a new store are not durable, with \<^verbatim>\<open>sync\<close> as without. The put is acknowledged with its
  record synced, and the store has the value; but the name of the log is not on the disk, so that a loss of power may leave
  the empty directory, in which the next process finds nothing.\<close>

theorem new_store_put_not_durable:
  assumes op: "with_config crc cfg (world_of k [] faults) = (Ok db, w)" and fits: "write_fits (key, Some val)"
    and put: "put crc key val db w = (Ok (), db', w')" and small: "length key + length val \<le> cfg_table_size cfg"
  shows "db_get db' key = Ok (Some val) \<and> may_remain w' [] \<and>
    (\<exists>db2 w2. with_config crc cfg (world_of Directory [] []) = (Ok db2, w2) \<and> db_get db2 key = Ok None)"
proof -
  obtain v where v: "root v = Directory" "dir v = []" "disk v = settled []" "with_config crc cfg v = (Ok db, w)"
  proof (cases k)
    case Directory
    then show thesis using that [of "world_of k [] faults"] op by simp
  next
    case RegularFile
    then show thesis using op by (simp add: with_config_def)
  next
    case Absent
    then obtain u v where uv: "create_dir_all (world_of k [] faults) = (Ok u, v)" "root v = Directory" "dir v = []"
      "disk v = settled []" and w: "with_config crc cfg (world_of k [] faults) = with_config crc cfg v"
      using op by (auto simp: with_config_def io_bind_def create_dir_all_def split: prod.splits res.splits)
    then show thesis using that [of v] op by simp
  qed
  note oe = open_empty [OF v(4,1-3)]
  have w: "write_op crc (key, Some val) db w = (Ok (), db', w')" using put by (simp add: write_op_def)
  obtain w1 where wa: "wal_append crc (db_wal db) (wkey (wrec (key, Some val))) (wvalue (wrec (key, Some val)))
      (woperation (wrec (key, Some val))) w = (Ok (), w1)" "db' = logged (key, Some val) db" "w' = w1"
    using w small oe(2,3) by (auto simp: write_op_logged logged_def value_bytes_def split: res.splits prod.splits if_splits)
  have "db_get db' key = Ok (Some val)" using wa(2) oe(1) by (simp add: logged_def db_get_def bt_get_def)
  moreover have "may_remain w' []"
    using may_be_empty_append [OF wa(1) oe(5)] wa(3) may_be_empty_remains by simp
  moreover have "\<exists>db2 w2. with_config crc cfg (world_of Directory [] []) = (Ok db2, w2) \<and> db_get db2 key = Ok None"
  proof -
    have "disk_view crc [] (view [] [])"
      by (rule disk_viewI [of _ "[]" "[]" crc "[]"])
        (auto simp: disk_state_def dir_matches_def contents_def intro!: exI [of _ 0])
    then show ?thesis
      using reopen_disk_view [of crc "world_of Directory [] []" "view [] []" cfg] by (auto simp: view_def)
  qed
  ultimately show ?thesis by blast
qed

theorem new_store_put_not_durable_witness:
  "\<exists>db w db' w'. with_config (\<lambda>bs. 0) default_config (world_of Directory [] []) = (Ok db, w) \<and>
     put (\<lambda>bs. 0) [1] [7] db w = (Ok (), db', w') \<and> db_get db' [1] = Ok (Some [7]) \<and> may_remain w' []"
proof -
  let ?crc = "\<lambda>bs. 0 :: u32" and ?x = "wrec demo_write"
  have "\<exists>db w. with_config ?crc default_config (world_of Directory [] []) = (Ok db, w) \<and> set_inv (db_set db) [] (dir w) \<and>
      db_map db = apply_writes [] \<and> db_size db = 0 \<and> db_config db = default_config \<and>
      db_wal db = \<lparr>wfile = WAL_NAME, wsync = cfg_sync default_config\<rparr> \<and>
      bits_per_key (db_set db) = cfg_bits_per_key default_config \<and>
      map_of (dir w) WAL_NAME = Some (frames ?crc (map wrec []) @ []) \<and> root w = Directory \<and> env w = []"
    by (rule with_config_calm) (auto simp: contents_def disk_state_def dir_matches_def intro!: exI [of _ 0])
  then obtain db w where o: "with_config ?crc default_config (world_of Directory [] []) = (Ok db, w)"
    "db_size db = 0" "db_config db = default_config" "db_wal db = \<lparr>wfile = WAL_NAME, wsync = cfg_sync default_config\<rparr>"
    "map_of (dir w) WAL_NAME = Some []" "env w = []" by auto
  have "length (contents (dir w) (wfile (db_wal db))) + length (frame ?crc ?x) \<le> MAX_FILE_SIZE"
    using o(4,5) by (simp add: contents_def wrec_def MAX_FILE_SIZE_def)
  from wal_append_calm [OF o(6) record_fits_wrec [OF demo_fits(1)] this] obtain w' where
    "wal_append ?crc (db_wal db) (wkey ?x) (wvalue ?x) (woperation ?x) w = (Ok (), w')" by blast
  then have "write_op ?crc demo_write db w = (Ok (), logged demo_write db, w')"
    using o(2,3) by (simp add: write_op_logged logged_def default_config_def)
  then have put: "put ?crc [1] [7] db w = (Ok (), logged demo_write db, w')" by (simp add: write_op_def)
  have "length [1 :: u8] + length [7 :: u8] \<le> cfg_table_size default_config" by (simp add: default_config_def)
  from new_store_put_not_durable [OF o(1) demo_fits(1) put this] o(1) put show ?thesis by blast
qed

end
