(* ===== verification/Unlink_Failure.thy ===== *)
theory Unlink_Failure
  imports Phases
begin

text \<open>
  What a failed unlink costs. \<open>compact\<close> (\<^verbatim>\<open>src/src/sstable.rs\<close>) reports the error and the store goes on, with files
  on the disk that the set does not have. They are harmless as long as the merged table covers them; but
  when a later compaction merges that table away to nothing, nothing covers them any more.
\<close>

section \<open>A compaction whose first unlink fails\<close>

lemma first_unlink_failed:
  assumes inv: "set_inv s [ea, eb] (dir w)" and op: "compact 0 2 s w = (Fail e, s1, w1)"
    and swapped: "length (tables s1) = 1" and left: "map_of (dir w1) (path (hd (tables s))) \<noteq> None"
  shows "\<exists>ess. held s1 ess (tables s) (dir w1) \<and> live_eq ess [ea, eb] \<and> next_seq s1 = next_seq s \<and>
    bits_per_key s1 = bits_per_key s"
proof -
  obtain A B where ab: "tables s = [A, B]"
    using inv by (auto simp: set_inv_def list_all2_Cons2)
  obtain q w' where prep: "compact_prepare s 0 2 w = (q, w')" by force
  obtain replacement where q: "q = Ok replacement"
    using op prep swapped ab by (cases q) (auto simp: compact_def)
  let ?s = "replace_tables (splice 0 2 replacement) s"
  obtain r where rm: "remove_files [A, B] w' = (r, w1)" and s1: "s1 = ?s"
    using op prep q ab by (auto simp: compact_def compact_publish_def Let_def split: prod.splits)
  have P: "phase_inv (Merged 0 2 replacement) s [ea, eb] (dir w')"
    using prepare_phase [OF inv prep [unfolded q]] .
  from swap_effect [OF this] ab obtain ess where e: "phase_inv (Unlinking [A, B]) ?s ess (dir w')"
    "live_eq ess [ea, eb]" by auto
  then have H: "held ?s ess [A, B] (dir w')" by (simp add: phase_inv_def)
  have st: "stored (dir w') A" "stored (dir w') B" using H by (auto simp: held_def dir_clean_def)
  have "distinct (map path [A, B])" using H by (auto simp: held_def)
  moreover have "\<forall>t \<in> set [A, B]. map_of (dir w') (path t) \<noteq> None" using st stored_present by auto
  ultimately obtain j where j: "dir w1 = unlinked (take j [A, B]) (dir w')"
    using remove_files_effect [OF rm] by blast
  have "j = 0"
  proof (rule ccontr)
    assume "j \<noteq> 0"
    then have "A \<in> set (take j [A, B])" by (cases j) auto
    then show False using left ab j by (simp add: map_of_unlinked)
  qed
  then have "dir w1 = dir w'" using j by simp
  then show ?thesis using H e(2) s1 ab by (auto simp: replace_tables_def)
qed

section \<open>Merging everything away\<close>

lemma compact_to_nothing:
  assumes held: "held s ess xs (dir w)" and two: "length (tables s) = 2" and calm: "env w = []"
    and dead: "all_dead ess"
  shows "\<exists>s' w'. compact 0 2 s w = (Ok (), s', w') \<and> tables s' = [] \<and> dir_clean (dir w') xs \<and> env w' = []"
proof -
  have ts: "list_all2 wf_table (tables s) ess" "dir_clean (dir w) (tables s @ xs)"
    "distinct (map path (tables s @ xs))" using held unfolding held_def by blast+
  obtain M where M: "merge (tables s) True = Ok M" "\<forall>k. map_of M k = visible True (newest ess k)"
    using merge_wf [OF ts(1)] by blast
  have "map_of M k = None" for k using M(2) dead by (simp add: all_dead_visible)
  then have "M = []" by (metis ext map_of_eq_empty_iff)
  then have prep: "compact_prepare s 0 2 w = (Ok None, w)"
    using two M(1) by (simp add: compact_prepare_def io_bind_def Let_def)
  have dist: "distinct (map path (tables s))"
    "\<forall>t \<in> set (tables s). map_of (dir w) (path t) \<noteq> None"
    using ts(2,3) stored_present by (auto simp: dir_clean_def)
  obtain w' where rm: "remove_files (tables s) w = (Ok (), w')" "env w' = []"
    using remove_files_calm [OF calm dist] by blast
  from remove_files_effect [OF rm(1) dist] have "dir w' = unlinked (tables s) (dir w)" by auto
  then have "dir_clean (dir w') xs" using dir_clean_unlinked [OF ts(2,3)] by simp
  moreover have "compact 0 2 s w = (Ok (), s\<lparr>tables := []\<rparr>, w')"
    using prep rm(1) two
    by (simp add: compact_def compact_publish_def replace_tables_def splice_def option_list_def)
  ultimately show ?thesis using rm(2) by simp
qed

text \<open>C39: deleted keys can come back. Two tables are compacted and the first unlink fails: the error is
  reported, the store goes on. Then all keys are deleted, and flush and compaction succeed: no key has a
  value any more, and the set has no tables. But the two inputs are still on the disk and now stand for
  themselves: the next process opens them and sees every old value again.\<close>

theorem failed_unlink_resurrects:
  assumes "set_inv s [ea, eb] (dir w)" and "compact 0 2 s w = (Fail e, s1, w1)"
    and "length (tables s1) = 1" and "map_of (dir w1) (path (hd (tables s))) \<noteq> None" and "env w1 = []"
    and "writable ec" and "small_table (bits_per_key s) ec" and "next_seq s + 1 < 2 ^ 64"
    and "\<forall>k. live (newest [ea, eb, ec] k) = None"
  shows "\<exists>s2 w2 s3 w3 s4 w4. set_write ec s1 w1 = (Ok (), s2, w2) \<and> compact 0 2 s2 w2 = (Ok (), s3, w3) \<and>
    (\<forall>k. set_get s3 k = Ok None) \<and> set_open data_dir bpk w3 = (Ok s4, w4) \<and>
    (\<forall>k. set_get s4 k = Ok (live (newest [ea, eb] k)))"
proof -
  obtain ess where H: "held s1 ess (tables s) (dir w1)" "live_eq ess [ea, eb]" "next_seq s1 = next_seq s"
    "bits_per_key s1 = bits_per_key s"
    using first_unlink_failed [OF assms(1-4)] by blast
  obtain s2 w2 where wr: "set_write ec s1 w1 = (Ok (), s2, w2)" "env w2 = []"
    using set_write_calm [OF assms(5), of ec s1] assms(6-8) H(3,4) by (auto simp: writable_def)
  obtain t where t: "s2 = s1\<lparr>tables := tables s1 @ [t], next_seq := next_seq s1 + 1\<rparr>"
    "held s2 (ess @ [ec]) (tables s) (dir w2)"
    using held_write [OF H(1) assms(6) _ wr(1)] assms(8) H(3) by auto
  have "live (newest (ess @ [ec]) k) = None" for k
  proof -
    have "live (newest (us @ [ec]) k) =
        (case map_of ec k of Some v \<Rightarrow> v | None \<Rightarrow> live (newest us k))" for us
      by (simp add: map_add_def split: option.split)
    moreover have "live (newest ([ea, eb] @ [ec]) k) = None" using assms(9) by simp
    moreover have "live (newest ess k) = live (newest [ea, eb] k)"
      using H(2) unfolding live_eq_def by blast
    ultimately show ?thesis by metis
  qed
  then have "all_dead (ess @ [ec])" by (simp add: all_dead_def)
  moreover have "length (tables s2) = 2" using t(1) assms(3) by simp
  ultimately obtain s3 w3 where c: "compact 0 2 s2 w2 = (Ok (), s3, w3)" "tables s3 = []"
    "dir_clean (dir w3) (tables s)" "env w3 = []"
    using compact_to_nothing [OF t(2) _ wr(2)] by blast
  have "disk_state (dir w3) [ea, eb]"
    using assms(1) dir_clean_matches [OF c(3)] unfolding disk_state_def set_inv_def by blast
  from disk_state_reopen [OF this c(4), of data_dir bpk] obtain s4 w4 where
    re: "set_open data_dir bpk w3 = (Ok s4, w4)" "set_inv s4 [ea, eb] (dir w4)" by blast
  have "set_get s4 k = Ok (live (newest [ea, eb] k))" for k
    using re(2) set_get_newest [of s4 "[ea, eb]" k] by (simp add: set_inv_def)
  moreover have "set_get s3 k = Ok None" for k using c(2) by (simp add: set_get_def)
  ultimately show ?thesis using wr(1) c(1) re(1) by blast
qed

section \<open>A run\<close>

text \<open>A table is written with five calls; the sixth is the first unlink.\<close>

lemma write_table_five_calls:
  assumes "env w = [Done, Done, Done, Done, Done] @ rest"
    and "build_table span n (bits_per_key s) es = Ok t" and "length (file_data t) \<le> MAX_FILE_SIZE"
  shows "\<exists>w'. write_table s span n es w = (Ok t, w') \<and> env w' = rest"
  using assms
  by (simp add: write_table_def publish_def io_bind_def syscall_def syscall_atomic_def sys_create_def
      sys_append_def sys_sync_def sys_sync_dir_def sys_rename_def on_existing_def contents_update update_conv')

lemma first_unlink_fails:
  assumes inv: "set_inv s [ea, eb] (dir w)" and M: "merge (tables s) True = Ok M" "M \<noteq> []"
    "small_table (bits_per_key s) M"
    and env: "env w = [Done, Done, Done, Done, Done, Fails e 0]"
  shows "\<exists>s1 w1. compact 0 2 s w = (Fail (Io e), s1, w1) \<and> length (tables s1) = 1 \<and>
    map_of (dir w1) (path (hd (tables s))) \<noteq> None \<and> env w1 = []"
proof -
  obtain A B where ab: "tables s = [A, B]" using inv by (auto simp: set_inv_def list_all2_Cons2)
  let ?span = "(first_seq A, last_seq B)"
  obtain t where t: "build_table ?span (length M) (bits_per_key s) M = Ok t"
    "length (file_data t) \<le> MAX_FILE_SIZE"
    using small_table_built [OF M(3,2)] by blast
  obtain w' where wr: "write_table s ?span (length M) M w = (Ok t, w')" "env w' = [Fails e 0]"
    using write_table_five_calls [of w "[Fails e 0]", OF _ t] env by auto
  have st: "stored (dir w) A" using inv ab by (simp add: set_inv_def dir_clean_def)
  have present: "map_of (dir w') (path A) \<noteq> None"
    using wr(1)
  proof (cases rule: write_table_effect)
    case (published u)
    then show ?thesis using stored_present [OF st, of ?span] by (cases "path A = sst_name ?span") auto
  qed simp
  have prep: "compact_prepare s 0 2 w = (Ok (Some t), w')"
    using ab M(1,2) wr(1) by (simp add: compact_prepare_def io_bind_def Let_def)
  have "remove_files [A, B] w' = (Fail (Io e), w'\<lparr>env := []\<rparr>)"
    using wr(2) present
    by (auto simp: io_bind_def sys_remove_def on_existing_def syscall_atomic_def syscall_def)
  then have "compact 0 2 s w = (Fail (Io e), s\<lparr>tables := [t]\<rparr>, w'\<lparr>env := []\<rparr>)"
    using prep ab by (simp add: compact_def compact_publish_def replace_tables_def splice_def option_list_def)
  then show ?thesis using present ab by simp
qed

theorem failed_unlink_resurrects_witness:
  "\<exists>s w s1 w1 s2 w2 s3 w3 s4 w4.
     compact 0 2 s w = (Err OtherKind [], s1, w1) \<and>
     set_write [([1], None), ([2], None)] s1 w1 = (Ok (), s2, w2) \<and>
     compact 0 2 s2 w2 = (Ok (), s3, w3) \<and> set_get s3 [1] = Ok None \<and>
     set_open [] 10 w3 = (Ok s4, w4) \<and> set_get s4 [1] = Ok (Some [7])"
proof -
  let ?ea = "[([1], Some [7])] :: entry list" and ?eb = "[([2], Some [8])] :: entry list"
  let ?ec = "[([1], None), ([2], None)] :: entry list" and ?M = "[([1], Some [7]), ([2], Some [8])] :: entry list"
  have demo: "writable ?ea" "writable ?eb" "writable ?ec" "small_table 10 ?ea" "small_table 10 ?eb"
    "small_table 10 ?ec" "small_table 10 ?M"
    by (simp_all add: writable_def entry_fits_def small_table_def)
  obtain sa :: sstable_set and wa :: world where a: "set_inv sa [?ea] (dir wa)" "next_seq sa = Suc 0" "env wa = []" "bits_per_key sa = 10"
    using set_write_ok [OF empty_set_inv [of "[]"] _ demo(1)] demo(4) by auto
  obtain s :: sstable_set and w :: world where b: "set_inv s [?ea, ?eb] (dir w)" "next_seq s = Suc (Suc 0)" "bits_per_key s = 10"
    using set_write_ok [OF a(1,3) demo(2)] demo(5) a(2,4) by auto
  let ?e = "IoError OtherKind []"
  let ?w = "w\<lparr>env := [Done, Done, Done, Done, Done, Fails ?e 0]\<rparr>"
  have inv: "set_inv s [?ea, ?eb] (dir ?w)" using b(1) by simp
  have ts: "list_all2 wf_table (tables s) [?ea, ?eb]" using b(1) by (simp add: set_inv_def)
  obtain M where M: "merge (tables s) True = Ok M" "key_sorted M"
    "\<forall>k. map_of M k = visible True (newest [?ea, ?eb] k)"
    using merge_wf [OF ts] by blast
  have "M = ?M" using M(2,3)
    by (intro key_sorted_unique) (auto simp: fun_eq_iff visible_def map_add_def key_sorted_def)
  then have "merge (tables s) True = Ok ?M" using M(1) by simp
  from first_unlink_fails [OF inv this] demo(7) b(3) obtain s1 w1 where
    c: "compact 0 2 s ?w = (Fail (Io ?e), s1, w1)" "length (tables s1) = 1"
      "map_of (dir w1) (path (hd (tables s))) \<noteq> None" "env w1 = []" by auto
  have dead: "\<forall>k. live (newest [?ea, ?eb, ?ec] k) = None" by (auto simp: map_add_def)
  from failed_unlink_resurrects [where bpk = 10 and data_dir = "[]", OF inv c demo(3) _ _ dead] demo(6) b(2,3) obtain s2 w2 s3 w3 s4 w4
    where "set_write ?ec s1 w1 = (Ok (), s2, w2)" "compact 0 2 s2 w2 = (Ok (), s3, w3)"
      "\<forall>k. set_get s3 k = Ok None" "set_open [] 10 w3 = (Ok s4, w4)"
      "\<forall>k. set_get s4 k = Ok (live (newest [?ea, ?eb] k))" by auto
  then show ?thesis using c(1) by (intro exI conjI) auto
qed

end
