(* ===== verification/Faults.thy ===== *)
theory Faults
  imports Store
begin

text \<open>
  Where the errors of a write come from. An operation of the store stops at the first system call that does not
  complete: as long as its files stay below the largest file there can be, it succeeds if every call is done, and
  otherwise ends as that call did, with its error and not with another one.
\<close>

section \<open>The first call that is not done\<close>

text \<open>Every call between two worlds was done.\<close>

definition undisturbed :: "world \<Rightarrow> world \<Rightarrow> bool" where
  "undisturbed w w' \<longleftrightarrow> (\<exists>k. env w = replicate k Done @ env w')"

text \<open>The last call between two worlds is the only one that was not done, and this is how it ended.\<close>

fun stopped_by :: "stop \<Rightarrow> world \<Rightarrow> world \<Rightarrow> bool" where
  "stopped_by (Io e) w w' \<longleftrightarrow> (\<exists>k n. env w = replicate k Done @ Fails e n # env w')"
| "stopped_by Killed w w' \<longleftrightarrow> (\<exists>k n. env w = replicate k Done @ Kill n # env w')"
| "stopped_by Panic w w' \<longleftrightarrow> False"

text \<open>How the first call from a world on that is not done is going to end.\<close>

definition first_fault :: "stop \<Rightarrow> world \<Rightarrow> bool" where
  "first_fault s w \<longleftrightarrow> (\<exists>w'. stopped_by s w w')"

lemma undisturbed_refl [simp]: "undisturbed w w"
  unfolding undisturbed_def by (intro exI [of _ 0]) simp

lemma undisturbed_trans: "undisturbed w w1 \<Longrightarrow> undisturbed w1 w2 \<Longrightarrow> undisturbed w w2"
  unfolding undisturbed_def by (metis append.assoc replicate_add)

lemma undisturbed_stopped: "undisturbed w w1 \<Longrightarrow> stopped_by s w1 w2 \<Longrightarrow> stopped_by s w w2"
  unfolding undisturbed_def by (cases "(s, w1, w2)" rule: stopped_by.cases; simp; metis append.assoc replicate_add)

lemma undisturbed_first_fault: "undisturbed w w1 \<Longrightarrow> first_fault s w1 \<Longrightarrow> first_fault s w"
  unfolding first_fault_def by (blast intro: undisturbed_stopped)

lemma stopped_first_fault: "stopped_by s w w' \<Longrightarrow> first_fault s w"
  unfolding first_fault_def by blast

lemma first_fault_env:
  "first_fault (Io e) w \<Longrightarrow> \<exists>n. Fails e n \<in> set (env w)" "first_fault Killed w \<Longrightarrow> \<exists>n. Kill n \<in> set (env w)"
  "\<not> first_fault Panic w"
  by (auto simp: first_fault_def)

lemma first_fault_calm [simp]: "env w = [] \<Longrightarrow> \<not> first_fault s w"
  by (cases s) (auto simp: first_fault_def)

lemma stopped_by_calm [simp]: "env w = [] \<Longrightarrow> \<not> stopped_by s w w'"
  using first_fault_calm stopped_first_fault by blast

section \<open>Operations that stop at it\<close>

definition outcome_traced :: "'a res \<Rightarrow> world \<Rightarrow> world \<Rightarrow> bool" where
  "outcome_traced r w w' \<longleftrightarrow> (case r of Ok x \<Rightarrow> undisturbed w w' | Fail s \<Rightarrow> stopped_by s w w')"

lemma outcome_traced_simps [simp]:
  "outcome_traced (Ok x) w w' \<longleftrightarrow> undisturbed w w'" "outcome_traced (Fail s) w w' \<longleftrightarrow> stopped_by s w w'"
  by (simp_all add: outcome_traced_def)

lemma undisturbed_traced: "undisturbed w w1 \<Longrightarrow> outcome_traced r w1 w2 \<Longrightarrow> outcome_traced r w w2"
  by (cases r) (auto intro: undisturbed_trans undisturbed_stopped)

lemma io_bind_traced:
  assumes "io_bind m f w = (r, w')"
    and "\<And>q w1. m w = (q, w1) \<Longrightarrow> outcome_traced q w w1"
    and "\<And>x w1. m w = (Ok x, w1) \<Longrightarrow> f x w1 = (r, w') \<Longrightarrow> outcome_traced r w1 w'"
  shows "outcome_traced r w w'"
  using assms(1) unfolding io_bind_eq
proof (elim disjE exE conjE)
  fix x w1 assume a: "m w = (Ok x, w1)" "f x w1 = (r, w')"
  from assms(2) [OF a(1)] assms(3) [OF a] show ?thesis by (auto intro: undisturbed_traced)
next
  fix s assume "m w = (Fail s, w')" "r = Fail s"
  then show ?thesis using assms(2) by fastforce
qed

lemma syscall_traced: "syscall whole part sh shp w = (r, w') \<Longrightarrow> outcome_traced r w w'"
proof (cases "env w")
  case (Cons x xs)
  assume op: "syscall whole part sh shp w = (r, w')"
  show ?thesis
  proof (cases x)
    case Done
    have "env w = replicate 1 Done @ xs" using Cons Done by simp
    then show ?thesis using op Cons Done by (auto simp: syscall_def undisturbed_def simp del: replicate.simps)
  next
    case (Fails e n)
    have "env w = replicate 0 Done @ Fails e n # xs" using Cons Fails by simp
    then show ?thesis using op Cons Fails by (auto simp: syscall_def simp del: replicate.simps)
  next
    case (Kill n)
    have "env w = replicate 0 Done @ Kill n # xs" using Cons Kill by simp
    then show ?thesis using op Cons Kill by (auto simp: syscall_def simp del: replicate.simps)
  qed
qed (auto simp: syscall_def undisturbed_def)

lemma sys_traced:
  "sys_create n w = (r, w') \<Longrightarrow> outcome_traced r w w'" "sys_sync n w = (r, w') \<Longrightarrow> outcome_traced r w w'"
  "sys_sync_dir w = (r, w') \<Longrightarrow> outcome_traced r w w'" "sys_truncate n w = (r, w') \<Longrightarrow> outcome_traced r w w'"
  "length (contents (dir w) n @ data) \<le> MAX_FILE_SIZE \<Longrightarrow> sys_append n data w = (r, w') \<Longrightarrow> outcome_traced r w w'"
  "map_of (dir w) a \<noteq> None \<Longrightarrow> sys_rename a b w = (r, w') \<Longrightarrow> outcome_traced r w w'"
  by (auto simp: sys_create_def sys_sync_def sys_sync_dir_def sys_truncate_def sys_append_def sys_rename_def
      on_existing_def syscall_atomic_def intro: syscall_traced)

lemma write_table_traced:
  assumes "build_table span n (bits_per_key s) es = Ok t" and "length (file_data t) \<le> MAX_FILE_SIZE"
    and "write_table s span n es w = (r, w')"
  shows "outcome_traced r w w'"
  using assms(3) unfolding write_table_def
proof (rule io_bind_traced)
  let ?tmp = "tmp_name span"
  fix x w1 assume c: "sys_create ?tmp w = (Ok x, w1)"
    and r1: "io_bind (io_lift (build_table span n (bits_per_key s) es)) (\<lambda>t. io_bind (sys_append ?tmp (file_data t)) (\<lambda>_.
      io_bind (sys_sync ?tmp) (\<lambda>_. io_bind (publish ?tmp (sst_name span)) (\<lambda>_. io_lift (Ok t))))) w1 = (r, w')"
  then have r2: "io_bind (sys_append ?tmp (file_data t)) (\<lambda>_.
      io_bind (sys_sync ?tmp) (\<lambda>_. io_bind (publish ?tmp (sst_name span)) (\<lambda>_. io_lift (Ok t)))) w1 = (r, w')"
    using assms(1) by (simp add: io_bind_def)
  have empty: "contents (dir w1) ?tmp = []" using sys_create_effect(2) [OF c] by (simp add: contents_def)
  from r2 show "outcome_traced r w1 w'"
  proof (rule io_bind_traced)
    show "outcome_traced q w1 w2" if "sys_append ?tmp (file_data t) w1 = (q, w2)" for q w2
      using sys_traced(5) [OF _ that] empty assms(2) by simp
    fix y w2 assume a: "sys_append ?tmp (file_data t) w1 = (Ok y, w2)"
      and r3: "io_bind (sys_sync ?tmp) (\<lambda>_. io_bind (publish ?tmp (sst_name span)) (\<lambda>_. io_lift (Ok t))) w2 = (r, w')"
    have there: "map_of (dir w2) ?tmp \<noteq> None" using sys_append_effect(2) [OF a] by simp
    from r3 show "outcome_traced r w2 w'"
    proof (rule io_bind_traced)
      fix z w3 assume b: "sys_sync ?tmp w2 = (Ok z, w3)"
        and r4: "io_bind (publish ?tmp (sst_name span)) (\<lambda>_. io_lift (Ok t)) w3 = (r, w')"
      have "map_of (dir w3) ?tmp \<noteq> None" using there sys_sync_effect(1) [OF b] by simp
      then have pub: "outcome_traced q w3 w4" if "publish ?tmp (sst_name span) w3 = (q, w4)" for q w4
        using io_bind_traced [OF that [unfolded publish_def]] sys_traced(3,6) by blast
      from r4 show "outcome_traced r w3 w'" by (rule io_bind_traced) (auto intro: pub)
    qed (auto intro: sys_traced)
  qed
qed (auto intro: sys_traced)

lemma set_write_traced:
  assumes "small_table (bits_per_key s) m" and "next_seq s + 1 < 2 ^ 64" and "set_write m s w = (r, s', w')"
  shows "outcome_traced r w w'"
proof (cases "m = []")
  case False
  obtain t where t: "build_table (next_seq s, next_seq s) (length m) (bits_per_key s) m = Ok t"
    "length (file_data t) \<le> MAX_FILE_SIZE" using small_table_built [OF assms(1) False] by blast
  obtain q w1 where "write_table s (next_seq s, next_seq s) (length m) m w = (q, w1)" by force
  with write_table_traced [OF t this] assms(2,3) False show ?thesis
    by (cases q) (auto simp: set_write_def Let_def)
qed (use assms(3) in \<open>auto simp: set_write_def\<close>)

lemma flush_traced:
  assumes "small_table (bits_per_key (db_set db)) (db_map db)" and "room db" and "flush db w = (r, db', w')"
  shows "outcome_traced r w w'"
proof -
  obtain q s w1 where sw: "set_write (db_map db) (db_set db) w = (q, s, w1)" by (metis prod_cases3)
  have one: "outcome_traced q w w1" using set_write_traced [OF assms(1) _ sw] assms(2) by (simp add: room_def)
  show ?thesis
  proof (cases q)
    case (Ok u)
    obtain p w2 where tr: "wal_truncate (db_wal db) w1 = (p, w2)" by force
    have "outcome_traced p w1 w2"
      using io_bind_traced [OF tr [unfolded wal_truncate_def]] sys_traced(2,4) by blast
    then show ?thesis
      using assms(3) sw tr Ok one
      by (cases p) (auto simp: flush_def Let_def intro: undisturbed_trans undisturbed_stopped)
  qed (use assms(3) sw one in \<open>auto simp: flush_def\<close>)
qed

lemma wal_append_traced:
  assumes "record_fits x" and "length (contents (dir w) (wfile l)) + length (frame crc x) \<le> MAX_FILE_SIZE"
    and "wal_append crc l (wkey x) (wvalue x) (woperation x) w = (r, w')"
  shows "outcome_traced r w w'"
proof -
  have "io_bind (sys_append (wfile l) (frame crc x)) (\<lambda>_. if wsync l then sys_sync (wfile l) else io_lift (Ok ())) w = (r, w')"
    using assms(3) create_body_frame [OF assms(1), of crc] by (simp add: wal_append_def io_bind_def)
  then show ?thesis
  proof (rule io_bind_traced)
    show "outcome_traced q w w1" if "sys_append (wfile l) (frame crc x) w = (q, w1)" for q w1
      using sys_traced(5) [OF _ that] assms(2) by simp
  qed (auto intro: sys_traced split: if_splits)
qed

text \<open>A write ends as its first call that is not done.\<close>

lemma write_op_traced:
  assumes "db_inv crc db w ess ws" and "room db" and "write_fits e" and "small_write db w e"
    and "write_op crc e db w = (r, db', w')"
  shows "outcome_traced r w w'"
proof -
  obtain q w1 where a: "wal_append crc (db_wal db) (wkey (wrec e)) (wvalue (wrec e)) (woperation (wrec e)) w = (q, w1)"
    by force
  have "wfile (db_wal db) = WAL_NAME" using assms(1) by (simp add: db_inv_def)
  then have "length (contents (dir w) (wfile (db_wal db))) + length (frame crc (wrec e)) \<le> MAX_FILE_SIZE"
    using assms(4) by (simp add: small_write_def wrec_def)
  note one = wal_append_traced [OF record_fits_wrec [OF assms(3)] this a]
  show ?thesis
  proof (cases q)
    case (Ok u)
    obtain p db2 w2 where f: "flush (logged e db) w1 = (p, db2, w2)" by (metis prod_cases3)
    have "outcome_traced p w1 w2"
      using f assms(2,4) by (intro flush_traced [OF _ _ f]) (simp_all add: logged_def small_write_def room_def)
    then show ?thesis
      using assms(5) a f Ok one unfolding write_op_logged
      by (cases p) (auto intro: undisturbed_trans undisturbed_stopped split: if_splits)
  qed (use assms(5) a one in \<open>auto simp: write_op_logged\<close>)
qed

section \<open>Enough space\<close>

text \<open>Room for \<open>n\<close> writes of \<open>b\<close> bytes of keys and values below the largest file there can be.\<close>

definition space_for :: "nat \<Rightarrow> nat \<Rightarrow> db \<Rightarrow> world \<Rightarrow> bool" where
  "space_for n b db w \<longleftrightarrow>
     length (contents (dir w) WAL_NAME) + 17 * n + b \<le> MAX_FILE_SIZE \<and>
     5 * (rsize (db_map db) + 9 * n + b) + (length (db_map db) + n) * bits_per_key (db_set db) + 179 < 2 ^ 63"

lemma table_bound_le: "5 * A + X + 179 < c \<Longrightarrow> A' \<le> A \<Longrightarrow> X' \<le> X \<Longrightarrow> 5 * A' + X' + 179 < (c :: nat)"
  by linarith

lemma space_for_less:
  assumes "space_for n b db w" and "n' \<le> n" and "b' \<le> b"
  shows "space_for n' b' db w"
  unfolding space_for_def
proof
  show "length (contents (dir w) WAL_NAME) + 17 * n' + b' \<le> MAX_FILE_SIZE" using assms by (simp add: space_for_def)
  show "5 * (rsize (db_map db) + 9 * n' + b') + (length (db_map db) + n') * bits_per_key (db_set db) + 179 < 2 ^ 63"
    by (rule table_bound_le [OF conjunct2 [OF assms(1) [unfolded space_for_def]]]) (use assms(2,3) in simp_all)
qed

lemma bt_insert_size:
  "length (bt_insert k v m) \<le> Suc (length m)"
  "rsize (bt_insert k v m) \<le> rsize m + (9 + length k + length (value_bytes v))"
  by (induction m) auto

abbreviation entry_bytes :: "entry \<Rightarrow> nat" where
  "entry_bytes e \<equiv> length (fst e) + length (value_bytes (snd e))"

lemma space_for_insert:
  assumes "5 * (rsize m + 9 * Suc n + (entry_bytes e + b)) + (length m + Suc n) * bpk + 179 < (2 :: nat) ^ 63"
  shows "5 * (rsize (bt_insert (fst e) (snd e) m) + 9 * n + b) +
    (length (bt_insert (fst e) (snd e) m) + n) * bpk + 179 < 2 ^ 63"
proof (rule table_bound_le [OF assms])
  show "rsize (bt_insert (fst e) (snd e) m) + 9 * n + b \<le> rsize m + 9 * Suc n + (entry_bytes e + b)"
    using bt_insert_size(2) [of "fst e" "snd e" m] by simp
  show "(length (bt_insert (fst e) (snd e) m) + n) * bpk \<le> (length m + Suc n) * bpk"
    using bt_insert_size(1) [of "fst e" "snd e" m] by (intro mult_le_mono1) simp
qed

lemma space_for_small:
  assumes "space_for (Suc n) (entry_bytes e + b) db w"
  shows "small_write db w e"
proof -
  let ?m = "bt_insert (fst e) (snd e) (db_map db)"
  have "5 * (rsize ?m + 9 * n + b) + (length ?m + n) * bits_per_key (db_set db) + 179 < 2 ^ 63"
    by (rule space_for_insert) (use assms in \<open>simp add: space_for_def\<close>)
  from table_bound_le [OF this, of "rsize ?m" "length ?m * bits_per_key (db_set db)"]
  have "small_table (bits_per_key (db_set db)) ?m" by (simp add: small_table_def)
  then show ?thesis using assms by (simp add: small_write_def space_for_def)
qed

lemma flush_Ok:
  assumes "flush db w = (Ok u, db', w')" and "wfile (db_wal db) = WAL_NAME"
  shows "db_map db' = []" and "bits_per_key (db_set db') = bits_per_key (db_set db)" and "contents (dir w') WAL_NAME = []"
proof -
  have cut: "contents (dir w2) WAL_NAME = []" if "wal_truncate (db_wal db) w1 = (Ok v, w2)" for w1 v w2
    using that assms(2) unfolding wal_truncate_def sys_truncate_def io_bind_eq
    by (auto simp: contents_update dest: sys_sync_effect(1) elim!: syscall_atomic_cases)
  show "contents (dir w') WAL_NAME = []"
    using assms(1) by (auto simp: flush_def Let_def split: prod.splits res.splits intro: cut)
qed (use assms in \<open>auto simp: flush_def set_write_def replace_tables_def Let_def split: prod.splits res.splits if_splits\<close>)

lemma write_op_space:
  assumes "db_inv crc db w ess ws" and "write_fits e" and "space_for (Suc n) (entry_bytes e + b) db w"
    and "write_op crc e db w = (Ok u, db', w')"
  shows "space_for n b db' w'"
proof -
  have wal: "wfile (db_wal db) = WAL_NAME" using assms(1) by (simp add: db_inv_def)
  obtain w1 where a: "wal_append crc (db_wal db) (wkey (wrec e)) (wvalue (wrec e)) (woperation (wrec e)) w = (Ok (), w1)"
    using assms(4) by (auto simp: write_op_logged split: prod.splits res.splits)
  have log: "length (contents (dir w1) WAL_NAME) = length (contents (dir w) WAL_NAME) + 17 + entry_bytes e"
    using wal_append_effect(3) [OF a record_fits_wrec [OF assms(2)]] wal by (simp add: contents_def wrec_def)
  have map: "5 * (rsize (db_map (logged e db)) + 9 * n + b) +
      (length (db_map (logged e db)) + n) * bits_per_key (db_set db) + 179 < 2 ^ 63"
    unfolding logged_def
    using space_for_insert [of "db_map db" n e b "bits_per_key (db_set db)"] assms(3) by (simp add: space_for_def)
  show ?thesis
  proof (cases "cfg_table_size (db_config db) < db_size (logged e db)")
    case False
    then have "db' = logged e db" "w' = w1" using assms(4) a by (auto simp: write_op_logged)
    then show ?thesis using log map assms(3) by (simp add: space_for_def logged_def)
  next
    case True
    then obtain db2 where f: "flush (logged e db) w1 = (Ok (), db2, w')" "db' = db2\<lparr>db_size := 0\<rparr>"
      using assms(4) a by (auto simp: write_op_logged split: prod.splits res.splits)
    note fl = flush_Ok [OF f(1)]
    have "5 * (9 * n + b) + n * bits_per_key (db_set db) + 179 < 2 ^ 63"
      by (rule table_bound_le [OF map]) simp_all
    then show ?thesis using fl f(2) wal assms(3) by (simp add: space_for_def logged_def)
  qed
qed

end
