(* ===== verification/Utf8.thy ===== *)
theory Utf8
  imports Prelude
begin

text \<open>
  Strings of the standard library as the UTF-8 bytes they are: validity, \<open>String::from_utf8_lossy\<close>,
  the division into characters, white space, \<open>split_whitespace\<close> and \<open>trim\<close>, and the splitting of
  slices. A character is the list of its bytes.
\<close>

section \<open>One step of the decoder\<close>

definition char_width :: "u8 \<Rightarrow> nat" where
  "char_width b =
     (if b < 0x80 then 1 else if 0xC2 \<le> b \<and> b \<le> 0xDF then 2
      else if 0xE0 \<le> b \<and> b \<le> 0xEF then 3 else if 0xF0 \<le> b \<and> b \<le> 0xF4 then 4 else 0)"

definition continuation :: "u8 \<Rightarrow> bool" where
  "continuation b \<longleftrightarrow> 0x80 \<le> b \<and> b \<le> 0xBF"

text \<open>The second byte: no overlong forms, no surrogates, nothing above U+10FFFF.\<close>

definition second_ok :: "u8 \<Rightarrow> u8 \<Rightarrow> bool" where
  "second_ok b0 b1 \<longleftrightarrow> continuation b1 \<and> (b0 = 0xE0 \<longrightarrow> 0xA0 \<le> b1) \<and> (b0 = 0xED \<longrightarrow> b1 \<le> 0x9F) \<and>
     (b0 = 0xF0 \<longrightarrow> 0x90 \<le> b1) \<and> (b0 = 0xF4 \<longrightarrow> b1 \<le> 0x8F)"

definition byte_at :: "bytes \<Rightarrow> nat \<Rightarrow> u8" where
  "byte_at bs i = (if i < length bs then bs ! i else 0)"

text \<open>How many bytes the next character, or the next chunk that is none, takes.\<close>

definition utf8_step :: "bytes \<Rightarrow> nat \<times> bool" where
  "utf8_step bs =
     (let b0 = byte_at bs 0; n = char_width b0
      in if n \<le> 1 then (1, n = 1)
         else if \<not> second_ok b0 (byte_at bs 1) then (1, False)
         else if n = 2 then (2, True)
         else if \<not> continuation (byte_at bs 2) then (2, False)
         else if n = 3 then (3, True)
         else if \<not> continuation (byte_at bs 3) then (3, False)
         else (4, True))"

lemma byte_at_append: "i < length bs \<Longrightarrow> byte_at (bs @ cs) i = byte_at bs i"
  by (simp add: byte_at_def nth_append)

lemma byte_at_take: "i < n \<Longrightarrow> byte_at (take n bs) i = byte_at bs i"
  by (simp add: byte_at_def)

lemma continuation_present: "continuation (byte_at bs i) \<Longrightarrow> i < length bs"
  by (auto simp: byte_at_def continuation_def split: if_splits)

lemma second_ok_present: "second_ok b0 (byte_at bs i) \<Longrightarrow> i < length bs"
  by (simp add: second_ok_def continuation_present)

lemma utf8_step_bounds:
  assumes "utf8_step bs = (n, ok)" and "bs \<noteq> []"
  shows "1 \<le> n" and "n \<le> length bs"
  using assms
  by (auto simp: utf8_step_def Let_def Suc_le_eq dest!: continuation_present second_ok_present
      split: if_splits)

lemma utf8_step_shrinks: "utf8_step bs = (n, ok) \<Longrightarrow> bs \<noteq> [] \<Longrightarrow> length bs - n < length bs"
  using utf8_step_bounds [of bs n ok] by auto

lemma utf8_step_local:
  assumes "utf8_step bs = (n, True)" and "bs \<noteq> []"
  shows "utf8_step (take n bs @ rest) = (n, True)"
proof -
  have "n \<le> length bs" using utf8_step_bounds [OF assms] by simp
  then have same: "i < n \<Longrightarrow> byte_at (take n bs @ rest) i = byte_at bs i" for i
    by (simp add: byte_at_append byte_at_take)
  show ?thesis
    using assms(1) same [of 0] same [of 1] same [of 2] same [of 3]
    by (auto simp: utf8_step_def Let_def split: if_splits)
qed

lemma utf8_step_ascii: "b < 0x80 \<Longrightarrow> utf8_step (b # bs) = (1, True)"
  by (simp add: utf8_step_def byte_at_def char_width_def)

section \<open>Valid strings and \<open>from_utf8_lossy\<close>\<close>

function valid_utf8 :: "bytes \<Rightarrow> bool" where
  "valid_utf8 bs =
     (if bs = [] then True
      else case utf8_step bs of (n, ok) \<Rightarrow> if ok then valid_utf8 (drop n bs) else False)"
  by pat_completeness auto
termination
  by (relation "measure length") (auto dest!: utf8_step_shrinks [OF sym])

declare valid_utf8.simps [simp del]

definition REPLACEMENT :: bytes where
  "REPLACEMENT = [0xEF, 0xBF, 0xBD]"

function from_utf8_lossy :: "bytes \<Rightarrow> bytes" where
  "from_utf8_lossy bs =
     (if bs = [] then []
      else case utf8_step bs of
             (n, ok) \<Rightarrow> (if ok then take n bs else REPLACEMENT) @ from_utf8_lossy (drop n bs))"
  by pat_completeness auto
termination
  by (relation "measure length") (auto dest!: utf8_step_shrinks [OF sym])

declare from_utf8_lossy.simps [simp del]

lemma valid_utf8_Nil [simp]: "valid_utf8 []"
  by (simp add: valid_utf8.simps)

lemma from_utf8_lossy_Nil [simp]: "from_utf8_lossy [] = []"
  by (simp add: from_utf8_lossy.simps)

lemma from_utf8_lossy_valid: "valid_utf8 bs \<Longrightarrow> from_utf8_lossy bs = bs"
proof (induction bs rule: valid_utf8.induct)
  case (1 bs)
  show ?case
  proof (cases "bs = []")
    case False
    obtain n ok where st: "utf8_step bs = (n, ok)" by force
    have "ok \<and> valid_utf8 (drop n bs)"
      using 1(2) st False by (subst (asm) valid_utf8.simps) (simp split: if_splits)
    then show ?thesis
      using False st 1(1) [OF False st [symmetric]] by (subst from_utf8_lossy.simps) simp
  qed simp
qed

lemma valid_utf8_char:
  assumes "utf8_step bs = (n, True)" and "bs \<noteq> []"
  shows "valid_utf8 (take n bs @ rest) \<longleftrightarrow> valid_utf8 rest"
proof -
  have n: "1 \<le> n" "n \<le> length bs" using utf8_step_bounds [OF assms] by simp_all
  then have "take n bs @ rest \<noteq> []" "drop n (take n bs @ rest) = rest" using assms(2) by auto
  then show ?thesis
    using utf8_step_local [OF assms, of rest] by (subst valid_utf8.simps) (simp only: if_False prod.case if_True)
qed

lemma valid_utf8_append:
  "valid_utf8 xs \<Longrightarrow> valid_utf8 (xs @ ys) \<longleftrightarrow> valid_utf8 ys"
proof (induction xs rule: valid_utf8.induct)
  case (1 xs)
  show ?case
  proof (cases "xs = []")
    case False
    obtain n ok where st: "utf8_step xs = (n, ok)" by force
    have ok: "ok" "valid_utf8 (drop n xs)"
      using 1(2) st False by (subst (asm) valid_utf8.simps, simp split: if_splits)+
    have "xs @ ys = take n xs @ drop n xs @ ys" by simp
    then have "valid_utf8 (xs @ ys) \<longleftrightarrow> valid_utf8 (drop n xs @ ys)"
      using valid_utf8_char [of xs n "drop n xs @ ys"] st ok(1) False by metis
    also have "\<dots> \<longleftrightarrow> valid_utf8 ys" using 1(1) [OF False st [symmetric]] ok by simp
    finally show ?thesis .
  qed simp
qed

lemma valid_utf8_ascii: "\<forall>b \<in> set bs. b < 0x80 \<Longrightarrow> valid_utf8 bs"
proof (induction bs)
  case (Cons b bs)
  have "valid_utf8 (take 1 (b # bs) @ bs) \<longleftrightarrow> valid_utf8 bs"
    using Cons.prems by (intro valid_utf8_char) (simp_all add: utf8_step_ascii)
  then show ?case using Cons by simp
qed simp

lemma valid_REPLACEMENT: "valid_utf8 REPLACEMENT"
proof -
  have "utf8_step REPLACEMENT = (3, True)"
    by (simp add: REPLACEMENT_def utf8_step_def byte_at_def char_width_def second_ok_def continuation_def)
  then show ?thesis by (subst valid_utf8.simps) (simp add: REPLACEMENT_def)
qed

text \<open>Whatever it is given, the result is a string.\<close>

lemma valid_from_utf8_lossy: "valid_utf8 (from_utf8_lossy bs)"
proof (induction bs rule: from_utf8_lossy.induct)
  case (1 bs)
  show ?case
  proof (cases "bs = []")
    case False
    obtain n ok where st: "utf8_step bs = (n, ok)" by force
    have IH: "valid_utf8 (from_utf8_lossy (drop n bs))" using 1 [OF False st [symmetric]] .
    show ?thesis
      using False st IH valid_utf8_char [of bs n] valid_utf8_append [OF valid_REPLACEMENT]
      by (subst from_utf8_lossy.simps) (cases ok; simp)
  qed simp
qed

section \<open>Splitting\<close>

text \<open>\<open>slice::split\<close>, and the pieces that are not empty.\<close>

fun split_by :: "('a \<Rightarrow> bool) \<Rightarrow> 'a list \<Rightarrow> 'a list list" where
  "split_by p [] = [[]]"
| "split_by p (x # xs) =
     (if p x then [] # split_by p xs
      else case split_by p xs of [] \<Rightarrow> [[x]] | y # ys \<Rightarrow> (x # y) # ys)"

definition pieces :: "('a \<Rightarrow> bool) \<Rightarrow> 'a list \<Rightarrow> 'a list list" where
  "pieces p xs = filter (\<lambda>y. y \<noteq> []) (split_by p xs)"

lemma split_by_neq_Nil [simp]: "split_by p xs \<noteq> []"
  by (induction xs) (auto split: list.split)

lemma split_by_none: "\<forall>x \<in> set xs. \<not> p x \<Longrightarrow> split_by p xs = [xs]"
  by (induction xs) auto

lemma split_by_append:
  "\<forall>x \<in> set xs. \<not> p x \<Longrightarrow> p s \<Longrightarrow> split_by p (xs @ s # ys) = xs # split_by p ys"
  by (induction xs) auto

lemma pieces_word:
  "\<forall>x \<in> set xs. \<not> p x \<Longrightarrow> xs \<noteq> [] \<Longrightarrow> p s \<Longrightarrow> pieces p (xs @ s # ys) = xs # pieces p ys"
  by (simp add: pieces_def split_by_append)

lemma pieces_last: "\<forall>x \<in> set xs. \<not> p x \<Longrightarrow> xs \<noteq> [] \<Longrightarrow> pieces p xs = [xs]"
  by (simp add: pieces_def split_by_none)

lemma pieces_skip: "p s \<Longrightarrow> pieces p (s # ys) = pieces p ys"
  by (simp add: pieces_def)

lemma pieces_Nil [simp]: "pieces p [] = []"
  by (simp add: pieces_def)

lemma split_by_pieces:
  "ys \<in> set (split_by p xs) \<Longrightarrow> set ys \<subseteq> set xs \<and> (\<forall>x \<in> set ys. \<not> p x)"
proof (induction xs arbitrary: ys)
  case (Cons x xs)
  then show ?case
  proof (cases "p x \<or> ys \<in> set (split_by p xs)")
    case True
    then show ?thesis using Cons by (fastforce split: if_splits list.splits)
  next
    case False
    then obtain z zs where "split_by p xs = z # zs" "ys = x # z"
      using Cons.prems by (auto split: list.splits)
    then show ?thesis using Cons.IH [of z] False by auto
  qed
qed simp

lemma pieces_sound: "ys \<in> set (pieces p xs) \<Longrightarrow> ys \<noteq> [] \<and> set ys \<subseteq> set xs \<and> (\<forall>x \<in> set ys. \<not> p x)"
  using split_by_pieces by (fastforce simp: pieces_def)

section \<open>Characters and white space\<close>

text \<open>The characters of a string; on bytes that are no string, every step counts as one.\<close>

function utf8_chars :: "bytes \<Rightarrow> bytes list" where
  "utf8_chars bs =
     (if bs = [] then [] else case utf8_step bs of (n, ok) \<Rightarrow> take n bs # utf8_chars (drop n bs))"
  by pat_completeness auto
termination
  by (relation "measure length") (auto dest!: utf8_step_shrinks [OF sym])

declare utf8_chars.simps [simp del]

definition is_char :: "bytes \<Rightarrow> bool" where
  "is_char c \<longleftrightarrow> c \<noteq> [] \<and> utf8_step c = (length c, True)"

text \<open>\<open>char::is_whitespace\<close>: the code points with the property White_Space.\<close>

definition is_whitespace :: "bytes \<Rightarrow> bool" where
  "is_whitespace c \<longleftrightarrow>
     c \<in> {[9], [10], [11], [12], [13], [32], [0xC2, 0x85], [0xC2, 0xA0], [0xE1, 0x9A, 0x80],
          [0xE2, 0x80, 0xA8], [0xE2, 0x80, 0xA9], [0xE2, 0x80, 0xAF], [0xE2, 0x81, 0x9F],
          [0xE3, 0x80, 0x80]} \<or>
     length c = 3 \<and> take 2 c = [0xE2, 0x80] \<and> 0x80 \<le> c ! 2 \<and> c ! 2 \<le> 0x8A"

text \<open>\<open>u8::is_ascii_whitespace\<close>, which has no vertical tab.\<close>

definition is_ascii_whitespace :: "u8 \<Rightarrow> bool" where
  "is_ascii_whitespace b \<longleftrightarrow> b \<in> {9, 10, 12, 13, 32}"

definition split_whitespace :: "bytes \<Rightarrow> bytes list" where
  "split_whitespace s = map concat (pieces is_whitespace (utf8_chars s))"

definition trim :: "bytes \<Rightarrow> bytes" where
  "trim s = concat (rev (dropWhile is_whitespace (rev (dropWhile is_whitespace (utf8_chars s)))))"

definition to_ascii_uppercase :: "bytes \<Rightarrow> bytes" where
  "to_ascii_uppercase bs = map (\<lambda>b. if 97 \<le> b \<and> b \<le> 122 then b - 32 else b) bs"

text \<open>\<open>str::to_lowercase\<close> on a string of ASCII characters.\<close>

definition to_ascii_lowercase :: "bytes \<Rightarrow> bytes" where
  "to_ascii_lowercase bs = map (\<lambda>b. if 65 \<le> b \<and> b \<le> 90 then b + 32 else b) bs"

lemma utf8_chars_Nil [simp]: "utf8_chars [] = []"
  by (simp add: utf8_chars.simps)

lemma utf8_chars_char: "is_char c \<Longrightarrow> utf8_chars (c @ rest) = c # utf8_chars rest"
  using utf8_step_local [of c "length c" rest]
  by (subst utf8_chars.simps) (simp add: is_char_def)

lemma utf8_chars_concat: "\<forall>c \<in> set cs. is_char c \<Longrightarrow> utf8_chars (concat cs @ rest) = cs @ utf8_chars rest"
  by (induction cs) (simp_all add: utf8_chars_char)

lemma concat_utf8_chars [simp]: "concat (utf8_chars bs) = bs"
proof (induction bs rule: utf8_chars.induct)
  case (1 bs)
  then show ?case by (subst utf8_chars.simps) (auto split: prod.splits)
qed

lemma valid_utf8_chars: "valid_utf8 bs \<longleftrightarrow> (\<forall>c \<in> set (utf8_chars bs). is_char c)"
proof (induction bs rule: utf8_chars.induct)
  case (1 bs)
  show ?case
  proof (cases "bs = []")
    case False
    obtain n ok where st: "utf8_step bs = (n, ok)" by force
    have n: "1 \<le> n" "n \<le> length bs" using utf8_step_bounds [OF st False] .
    have "is_char (take n bs) \<longleftrightarrow> ok"
    proof
      show "is_char (take n bs)" if ok
        using that n False st utf8_step_local [of bs n "[]"] by (simp add: is_char_def)
      show ok if c: "is_char (take n bs)"
        using utf8_step_local [of "take n bs" n "drop n bs"] c n st by (simp add: is_char_def)
    qed
    then show ?thesis
      using False st 1 [OF False st [symmetric]]
      by (subst valid_utf8.simps, subst utf8_chars.simps) simp
  qed simp
qed

lemma valid_utf8_concat: "\<forall>c \<in> set cs. is_char c \<Longrightarrow> valid_utf8 (concat cs)"
  using utf8_chars_concat [of cs "[]"] by (simp add: valid_utf8_chars)

lemma is_char_ascii: "b < 0x80 \<Longrightarrow> is_char [b]"
  by (simp add: is_char_def utf8_step_ascii)

text \<open>A word: a string with characters but without white space. Words are what a line is split into.\<close>

definition is_word :: "bytes \<Rightarrow> bool" where
  "is_word s \<longleftrightarrow> s \<noteq> [] \<and> valid_utf8 s \<and> (\<forall>c \<in> set (utf8_chars s). \<not> is_whitespace c)"

lemma is_word_chars: "is_word s \<Longrightarrow> utf8_chars s \<noteq> []"
  by (metis concat.simps(1) concat_utf8_chars is_word_def)

lemma split_whitespace_word:
  assumes "is_word s" and "is_char c" and "is_whitespace c"
  shows "split_whitespace (s @ c @ rest) = s # split_whitespace rest"
proof -
  have "utf8_chars (s @ c @ rest) = utf8_chars s @ c # utf8_chars rest"
    using utf8_chars_concat [of "utf8_chars s" "c @ rest"] assms valid_utf8_chars
    by (simp add: is_word_def utf8_chars_char)
  then show ?thesis
    using assms is_word_chars [OF assms(1)] by (simp add: split_whitespace_def pieces_word is_word_def)
qed

lemma split_whitespace_last: "is_word s \<Longrightarrow> split_whitespace s = [s]"
  using is_word_chars [of s] by (simp add: split_whitespace_def pieces_last is_word_def)

lemma split_whitespace_words: "valid_utf8 s \<Longrightarrow> \<forall>x \<in> set (split_whitespace s). is_word x"
proof
  fix x assume v: "valid_utf8 s" and "x \<in> set (split_whitespace s)"
  then obtain cs where cs: "x = concat cs" "cs \<in> set (pieces is_whitespace (utf8_chars s))"
    by (auto simp: split_whitespace_def)
  from pieces_sound [OF cs(2)] have p: "cs \<noteq> []" "\<forall>c \<in> set cs. is_char c \<and> \<not> is_whitespace c"
    using v by (auto simp: valid_utf8_chars)
  have "utf8_chars x = cs" using utf8_chars_concat [of cs "[]"] p cs(1) by simp
  moreover have "x \<noteq> []" using p cs(1) by (cases cs) (auto simp: is_char_def)
  ultimately show "is_word x" using p valid_utf8_concat [of cs] cs(1) by (simp add: is_word_def)
qed

lemma utf8_chars_ascii: "\<forall>b \<in> set bs. b < 0x80 \<Longrightarrow> utf8_chars bs = map (\<lambda>b. [b]) bs"
proof (induction bs)
  case (Cons b bs)
  then show ?case using utf8_chars_char [of "[b]" bs] is_char_ascii by simp
qed simp

lemma utf8_chars_append: "valid_utf8 xs \<Longrightarrow> utf8_chars (xs @ ys) = utf8_chars xs @ utf8_chars ys"
  using utf8_chars_concat [of "utf8_chars xs" ys] by (simp add: valid_utf8_chars)

lemma is_word_ascii:
  assumes "s \<noteq> []" and "\<forall>b \<in> set s. b < 0x80 \<and> \<not> is_whitespace [b]"
  shows "is_word s"
  using assms valid_utf8_ascii [of s] utf8_chars_ascii [of s] by (auto simp: is_word_def)

text \<open>A line that begins and ends with a word has nothing to trim.\<close>

lemma trim_between:
  assumes "is_word a" and "valid_utf8 mid" and "is_word b"
  shows "trim (a @ mid @ b) = a @ mid @ b"
proof -
  have chars: "utf8_chars (a @ mid @ b) = utf8_chars a @ utf8_chars mid @ utf8_chars b"
    using assms by (simp add: utf8_chars_append is_word_def)
  obtain x xs where x: "utf8_chars a = x # xs" "\<not> is_whitespace x"
    using is_word_chars [OF assms(1)] assms(1) by (cases "utf8_chars a") (auto simp: is_word_def)
  obtain ys y where y: "utf8_chars b = ys @ [y]" "\<not> is_whitespace y"
    using is_word_chars [OF assms(3)] assms(3) by (cases "utf8_chars b" rule: rev_cases) (auto simp: is_word_def)
  have "dropWhile is_whitespace (utf8_chars (a @ mid @ b)) = utf8_chars (a @ mid @ b)"
    using x by (simp add: chars)
  moreover have "dropWhile is_whitespace (rev (utf8_chars (a @ mid @ b))) = rev (utf8_chars (a @ mid @ b))"
    using y by (simp add: chars)
  ultimately show ?thesis unfolding trim_def by simp
qed

lemma trim_word: "is_word a \<Longrightarrow> trim a = a"
proof -
  assume w: "is_word a"
  obtain x xs where x: "utf8_chars a = x # xs" "\<not> is_whitespace x"
    using is_word_chars [OF w] w by (cases "utf8_chars a") (auto simp: is_word_def)
  obtain ys y where y: "utf8_chars a = ys @ [y]" "\<not> is_whitespace y"
    using is_word_chars [OF w] w by (cases "utf8_chars a" rule: rev_cases) (auto simp: is_word_def)
  have "dropWhile is_whitespace (utf8_chars a) = utf8_chars a" using x by simp
  moreover have "dropWhile is_whitespace (rev (utf8_chars a)) = rev (utf8_chars a)" using y by simp
  ultimately show ?thesis unfolding trim_def by simp
qed

end
