(* ===== verification/Resp.thy ===== *)
theory Resp
  imports Codec Text Utf8
begin

text \<open>
  The protocol of the server, \<^verbatim>\<open>src/src/resp.rs\<close>: replies and how they are written, and the reader of
  commands with its limits and errors.
\<close>

section \<open>Replies\<close>

datatype reply =
    Simple bytes
  | Error bytes
  | Integer int
  | Bulk bytes
  | Nil_reply
  | Array "reply list"

definition CRLF :: bytes where
  "CRLF = [13, 10]"

text \<open>\<open>Display\<close> of an \<open>i64\<close>.\<close>

definition dec_int :: "int \<Rightarrow> bytes" where
  "dec_int n = (if n < 0 then 45 # dec_nat (nat (- n)) else dec_nat (nat n))"

fun write_to :: "reply \<Rightarrow> bytes" where
  "write_to (Simple text) = [43] @ text @ CRLF"
| "write_to (Error text) = [45] @ text @ CRLF"
| "write_to (Integer n) = [58] @ dec_int n @ CRLF"
| "write_to Nil_reply = [36, 45, 49, 13, 10]"
| "write_to (Bulk bytes) = [36] @ dec_nat (length bytes) @ CRLF @ bytes @ CRLF"
| "write_to (Array items) = [42] @ dec_nat (length items) @ CRLF @ concat (map write_to items)"

section \<open>The buffered reader\<close>

text \<open>
  What the peer sends until it closes its side, and the error that reading beyond that gives if the
  connection breaks instead of being closed.
\<close>

record reader =
  pending :: bytes
  broken :: "io_error option"

definition at_end :: "reader \<Rightarrow> stop \<Rightarrow> stop" where
  "at_end r eof = (case broken r of Some e \<Rightarrow> Io e | None \<Rightarrow> eof)"

definition read_exact_from :: "nat \<Rightarrow> reader \<Rightarrow> (bytes \<times> reader) res" where
  "read_exact_from n r =
     (case read_exact n (pending r) of
        Ok (bs, rest) \<Rightarrow> Ok (bs, r\<lparr>pending := rest\<rparr>)
      | Fail s \<Rightarrow> Fail (at_end r s))"

text \<open>The loop that pops line ends off the line.\<close>

definition pop_eol :: "bytes \<Rightarrow> bytes" where
  "pop_eol line = rev (dropWhile (\<lambda>b. b = 10 \<or> b = 13) (rev line))"

definition read_line :: "reader \<Rightarrow> (bytes option \<times> reader) res" where
  "read_line r =
     (let line = takeWhile (\<lambda>b. b \<noteq> 10) (pending r); rest = dropWhile (\<lambda>b. b \<noteq> 10) (pending r)
      in if rest \<noteq> [] then Ok (Some (pop_eol (line @ [10])), r\<lparr>pending := tl rest\<rparr>)
         else case broken r of
                Some e \<Rightarrow> Fail (Io e)
              | None \<Rightarrow>
                  if line = [] then Ok (None, r)
                  else Ok (Some (pop_eol line), r\<lparr>pending := []\<rparr>))"

section \<open>Commands\<close>

definition MAX_BULK_LEN :: int where
  "MAX_BULK_LEN = 64 * 1024 * 1024"

definition MAX_ARGS :: int where
  "MAX_ARGS = 1024"

definition invalid :: "bytes \<Rightarrow> 'a res" where
  "invalid msg = Err InvalidData msg"

definition unexpected_eof :: "'a res" where
  "unexpected_eof = Err UnexpectedEof (str ''connection closed mid-command'')"

definition parse_len :: "bytes \<Rightarrow> int \<Rightarrow> int res" where
  "parse_len bs max_len =
     (if \<not> valid_utf8 bs then invalid (str ''length is not valid UTF-8'')
      else case parse_i64 bs of
             None \<Rightarrow> invalid (str ''length is not an integer'')
           | Some len \<Rightarrow>
               if max_len < len then invalid (str ''length exceeds the protocol limit'') else Ok len)"

definition read_arg :: "reader \<Rightarrow> (bytes \<times> reader) res" where
  "read_arg r =
     bind_res (read_line r) (\<lambda>(line, r1).
       case line of
         None \<Rightarrow> unexpected_eof
       | Some header \<Rightarrow>
           if header = [] \<or> hd header \<noteq> 36 then invalid (str ''expected a bulk string argument'')
           else bind_res (parse_len (tl header) MAX_BULK_LEN) (\<lambda>len.
             if len < 0 then invalid (str ''negative bulk string length'')
             else bind_res (read_exact_from (nat len) r1) (\<lambda>(arg, r2).
               bind_res (read_exact_from 2 r2) (\<lambda>(terminator, r3). Ok (arg, r3)))))"

fun read_args :: "nat \<Rightarrow> reader \<Rightarrow> bytes list \<Rightarrow> (bytes list \<times> reader) res" where
  "read_args 0 r args = Ok (args, r)"
| "read_args (Suc n) r args = bind_res (read_arg r) (\<lambda>(arg, r1). read_args n r1 (args @ [arg]))"

definition read_command :: "reader \<Rightarrow> (bytes list option \<times> reader) res" where
  "read_command r =
     bind_res (read_line r) (\<lambda>(line, r1).
       case line of
         None \<Rightarrow> Ok (None, r1)
       | Some line \<Rightarrow>
           if line = [] \<or> hd line \<noteq> 42 then Ok (Some (pieces is_ascii_whitespace line), r1)
           else bind_res (parse_len (tl line) MAX_ARGS) (\<lambda>count.
             bind_res (read_args (nat count) r1 []) (\<lambda>(args, r2). Ok (Some args, r2))))"

section \<open>Lines and lengths\<close>

lemma pop_eol_CRLF:
  assumes "line = [] \<or> last line \<notin> {10, 13}"
  shows "pop_eol (line @ [13, 10]) = line" and "pop_eol (line @ [10]) = line"
    and "pop_eol (line @ [13]) = line" and "pop_eol line = line"
proof -
  have "dropWhile (\<lambda>b. b = 10 \<or> b = 13) (rev line) = rev line"
    using assms by (cases line rule: rev_cases) auto
  then show "pop_eol (line @ [13, 10]) = line" "pop_eol (line @ [10]) = line"
    "pop_eol (line @ [13]) = line" "pop_eol line = line"
    by (simp_all add: pop_eol_def)
qed

lemma read_line_CRLF:
  assumes "10 \<notin> set line" and "line = [] \<or> last line \<noteq> 13"
  shows "read_line \<lparr>pending = line @ CRLF @ rest, broken = b\<rparr> =
    Ok (Some line, \<lparr>pending = rest, broken = b\<rparr>)"
proof -
  have "line = [] \<or> last line \<notin> {10, 13}" using assms by (metis empty_iff insert_iff last_in_set)
  note pop = pop_eol_CRLF(1) [OF this]
  have "takeWhile (\<lambda>b. b \<noteq> 10) (line @ 13 # 10 # rest) = line @ [13]"
    "dropWhile (\<lambda>b. b \<noteq> 10) (line @ 13 # 10 # rest) = 10 # rest"
    using assms(1) by (induction line) auto
  then show ?thesis using pop by (simp add: read_line_def CRLF_def)
qed

text \<open>Reading a line uses up part of what is pending, if there is one.\<close>

lemma read_line_shrinks:
  "read_line r = Ok (Some line, r') \<Longrightarrow> length (pending r') < length (pending r) \<and> broken r' = broken r"
proof -
  have le: "length (dropWhile (\<lambda>b. b \<noteq> 10) xs) \<le> length xs" for xs :: bytes
    by (rule length_dropWhile_le)
  assume "read_line r = Ok (Some line, r')"
  then show ?thesis
    using le [of "pending r"]
    by (cases "dropWhile (\<lambda>b. b \<noteq> 10) (pending r)")
      (auto simp: read_line_def Let_def split: if_splits option.splits)
qed

lemma read_exact_from_length:
  "read_exact_from n r = Ok (bs, r') \<Longrightarrow> length (pending r) = n + length (pending r') \<and> broken r' = broken r"
  by (auto simp: read_exact_from_def read_exact_def split: res.splits if_splits prod.splits)

lemma read_arg_cases:
  assumes "read_arg r = Ok (arg, r')"
  obtains header len r1 r2 terminator where "read_line r = Ok (Some header, r1)"
    and "parse_len (tl header) MAX_BULK_LEN = Ok len" and "0 \<le> len"
    and "read_exact_from (nat len) r1 = Ok (arg, r2)" and "read_exact_from 2 r2 = Ok (terminator, r')"
  using assms unfolding read_arg_def bind_res_eq_Ok unexpected_eof_def invalid_def
  by (auto simp: bind_res_eq_Ok split: option.splits if_splits)

lemma read_arg_shrinks:
  assumes "read_arg r = Ok (arg, r')"
  shows "length (pending r') < length (pending r) \<and> broken r' = broken r"
  using assms by (rule read_arg_cases) (auto dest!: read_line_shrinks read_exact_from_length)

lemma read_args_shrinks:
  "read_args n r args = Ok (args', r') \<Longrightarrow>
     length (pending r') \<le> length (pending r) \<and> broken r' = broken r \<and> length args' = length args + n"
proof (induction n arbitrary: r args)
  case (Suc n)
  then show ?case by (fastforce simp: res_simps split: prod.splits dest!: read_arg_shrinks)
qed simp

lemma read_command_shrinks:
  "read_command r = Ok (Some args, r') \<Longrightarrow> length (pending r') < length (pending r) \<and> broken r' = broken r"
  by (auto simp: read_command_def res_simps split: option.splits if_splits
      dest!: read_line_shrinks read_args_shrinks)

lemma digits_line:
  assumes "\<forall>b \<in> set ds. is_digit b"
  shows "10 \<notin> set ds" and "ds = [] \<or> last ds \<noteq> 13" and "valid_utf8 ds"
proof -
  have d: "b \<noteq> 10 \<and> b \<noteq> 13 \<and> b < 0x80" if "b \<in> set ds" for b
  proof -
    have "48 \<le> b" "b \<le> 57" using assms that by (auto simp: is_digit_def)
    then show ?thesis unfolding word_le_nat_alt word_less_nat_alt by auto
  qed
  then show "10 \<notin> set ds" "valid_utf8 ds" by (auto intro: valid_utf8_ascii)
  show "ds = [] \<or> last ds \<noteq> 13" using d last_in_set by blast
qed

lemma parse_i64_dec_nat: "n < 2 ^ 63 \<Longrightarrow> parse_i64 (dec_nat n) = Some (int n)"
proof -
  assume n: "n < 2 ^ 63"
  obtain d ds where d: "dec_nat n = d # ds" using dec_nat_nonempty by (meson neq_Nil_conv)
  then have "is_digit d" using dec_nat_digits [of n] by simp
  then have "d \<noteq> 43" "d \<noteq> 45" by simp_all
  then show ?thesis using d n parse_digits_dec_nat [of n] by (simp add: parse_i64_def Let_def)
qed

lemma parse_len_dec_nat: "int n \<le> m \<Longrightarrow> n < 2 ^ 63 \<Longrightarrow> parse_len (dec_nat n) m = Ok (int n)"
  using digits_line(3) [OF dec_nat_digits] by (simp add: parse_len_def parse_i64_dec_nat)

text \<open>A header line: a type byte and a decimal number.\<close>

lemma read_line_header:
  assumes "c \<noteq> 10" and "c \<noteq> 13"
  shows "read_line \<lparr>pending = c # dec_nat n @ CRLF @ rest, broken = b\<rparr> =
    Ok (Some (c # dec_nat n), \<lparr>pending = rest, broken = b\<rparr>)"
  using read_line_CRLF [of "c # dec_nat n" rest b] digits_line [OF dec_nat_digits [of n]] assms by auto

section \<open>Commands as clients send them\<close>

text \<open>An array of bulk strings, which is what every client library sends.\<close>

definition encode_arg :: "bytes \<Rightarrow> bytes" where
  "encode_arg arg = 36 # dec_nat (length arg) @ CRLF @ arg @ CRLF"

definition encode_command :: "bytes list \<Rightarrow> bytes" where
  "encode_command args = 42 # dec_nat (length args) @ CRLF @ concat (map encode_arg args)"

text \<open>What the limits of the protocol admit.\<close>

definition arg_fits :: "bytes \<Rightarrow> bool" where
  "arg_fits arg \<longleftrightarrow> int (length arg) \<le> MAX_BULK_LEN"

definition command_fits :: "bytes list \<Rightarrow> bool" where
  "command_fits args \<longleftrightarrow> int (length args) \<le> MAX_ARGS \<and> (\<forall>arg \<in> set args. arg_fits arg)"

lemma arg_fits_63: "arg_fits arg \<Longrightarrow> length arg < 2 ^ 63"
  by (simp add: arg_fits_def MAX_BULK_LEN_def)

lemma read_exact_from_append:
  "read_exact_from (length bs) \<lparr>pending = bs @ rest, broken = b\<rparr> = Ok (bs, \<lparr>pending = rest, broken = b\<rparr>)"
  by (simp add: read_exact_from_def read_exact_append)

lemma read_arg_encode:
  assumes "arg_fits arg"
  shows "read_arg \<lparr>pending = encode_arg arg @ rest, broken = b\<rparr> = Ok (arg, \<lparr>pending = rest, broken = b\<rparr>)"
proof -
  have two: "read_exact_from 2 \<lparr>pending = CRLF @ rest, broken = b\<rparr> = Ok (CRLF, \<lparr>pending = rest, broken = b\<rparr>)"
    using read_exact_from_append [of CRLF rest b] by (simp add: CRLF_def numeral_2_eq_2)
  have "parse_len (dec_nat (length arg)) MAX_BULK_LEN = Ok (int (length arg))"
    using assms arg_fits_63 [OF assms] by (simp add: arg_fits_def parse_len_dec_nat)
  then show ?thesis
    using read_line_header [of 36 "length arg" "arg @ CRLF @ rest" b] read_exact_from_append two
    by (simp add: read_arg_def encode_arg_def)
qed

lemma read_args_encode:
  "\<forall>arg \<in> set args. arg_fits arg \<Longrightarrow>
     read_args (length args) \<lparr>pending = concat (map encode_arg args) @ rest, broken = b\<rparr> acc =
       Ok (acc @ args, \<lparr>pending = rest, broken = b\<rparr>)"
  by (induction args arbitrary: acc) (simp_all add: read_arg_encode)

lemma read_command_encode:
  assumes "command_fits args"
  shows "read_command \<lparr>pending = encode_command args @ rest, broken = b\<rparr> =
    Ok (Some args, \<lparr>pending = rest, broken = b\<rparr>)"
proof -
  have "parse_len (dec_nat (length args)) MAX_ARGS = Ok (int (length args))"
    using assms by (intro parse_len_dec_nat) (auto simp: command_fits_def MAX_ARGS_def)
  then show ?thesis
    using read_line_header [of 42 "length args" "concat (map encode_arg args) @ rest" b] assms
    by (simp add: read_command_def encode_command_def command_fits_def read_args_encode)
qed

text \<open>The reader of commands as a decoder of bytes: the laws of formats apply to the protocol.\<close>

definition decode_command :: "bytes \<Rightarrow> (bytes list \<times> bytes) res" where
  "decode_command bs =
     bind_res (read_command \<lparr>pending = bs, broken = None\<rparr>) (\<lambda>(args, r).
       case args of None \<Rightarrow> unexpected_eof | Some args \<Rightarrow> Ok (args, pending r))"

interpretation command_codec: eager_codec encode_command decode_command command_fits
proof unfold_locales
  show "decode_command (encode_command args @ r) = Ok (args, r)" if "command_fits args" for args r
    using that by (simp add: decode_command_def read_command_encode)
  show "length r' < length r" if d: "decode_command r = Ok (args, r')" for r args r'
  proof -
    from d obtain q where "read_command \<lparr>pending = r, broken = None\<rparr> = Ok (Some args, q)" "r' = pending q"
      unfolding decode_command_def unexpected_eof_def
      by (cases "read_command \<lparr>pending = r, broken = None\<rparr>") (auto split: option.splits)
    then show ?thesis using read_command_shrinks [of "\<lparr>pending = r, broken = None\<rparr>" args q] by simp
  qed
qed

section \<open>Errors\<close>

text \<open>Whatever the peer sends, reading a command does not panic: it ends with one of two kinds of error,
  or with the error of the connection.\<close>

definition protocol_stop :: "io_error option \<Rightarrow> stop \<Rightarrow> bool" where
  "protocol_stop b s \<longleftrightarrow> (\<exists>e. s = Io e \<and> (kind e \<in> {InvalidData, UnexpectedEof} \<or> b = Some e))"

definition stops :: "io_error option \<Rightarrow> 'a res \<Rightarrow> bool" where
  "stops b m \<longleftrightarrow> (\<forall>s. m = Fail s \<longrightarrow> protocol_stop b s)"

lemma stops_bind:
  "stops b m \<Longrightarrow> (\<And>x y. m = Ok (x, y) \<Longrightarrow> stops b (f x y)) \<Longrightarrow> stops b (bind_res m (\<lambda>(x, y). f x y))"
  "stops b m' \<Longrightarrow> (\<And>n. m' = Ok n \<Longrightarrow> stops b (g n)) \<Longrightarrow> stops b (bind_res m' g)"
  by (auto simp: stops_def res_simps)

lemma stops_simps [simp]: "stops b (Ok x)" "stops b (invalid msg)" "stops b unexpected_eof"
  by (auto simp: stops_def invalid_def unexpected_eof_def protocol_stop_def)

lemma stops_read_line: "broken r = b \<Longrightarrow> stops b (read_line r)"
  by (auto simp: stops_def read_line_def Let_def protocol_stop_def split: if_splits option.splits)

lemma stops_read_exact_from: "broken r = b \<Longrightarrow> stops b (read_exact_from n r)"
  by (auto simp: stops_def read_exact_from_def read_exact_def at_end_def protocol_stop_def
      split: res.splits if_splits option.splits)

lemma stops_parse_len [simp]: "stops b (parse_len bs m)"
  by (simp add: parse_len_def split: option.split)

lemma stops_read_arg: "broken r = b \<Longrightarrow> stops b (read_arg r)"
  unfolding read_arg_def
  by (rule stops_bind(1))
    (auto intro!: stops_bind stops_read_line stops_read_exact_from split: option.split
      dest!: read_line_shrinks read_exact_from_length)

lemma stops_read_args: "broken r = b \<Longrightarrow> stops b (read_args n r args)"
proof (induction n arbitrary: r args)
  case (Suc n)
  show ?case
    unfolding read_args.simps
    using Suc by (intro stops_bind(1) stops_read_arg) (auto dest: read_arg_shrinks)
qed simp

lemma stops_read_command: "stops (broken r) (read_command r)"
  unfolding read_command_def
  by (rule stops_bind(1))
    (auto intro!: stops_bind stops_read_line stops_read_args split: option.split
      dest!: read_line_shrinks)

section \<open>A command that is cut off\<close>

text \<open>The first digits of a positive number are a positive number.\<close>

lemma parse_digits_ge: "parse_digits acc ds = Some n \<Longrightarrow> acc \<le> n"
proof (induction ds arbitrary: acc)
  case (Cons d ds)
  then have "10 * acc + (unat d - 48) \<le> n" by (auto split: if_splits)
  then show ?case by simp
qed simp

lemma parse_digits_total: "\<forall>d \<in> set ds. is_digit d \<Longrightarrow> \<exists>n. parse_digits acc ds = Some n"
  by (induction ds arbitrary: acc) auto

lemma dec_nat_hd: "0 < n \<Longrightarrow> 48 < hd (dec_nat n)"
proof (induction n rule: dec_nat.induct)
  case (1 n)
  show ?case
  proof (cases "n < 10")
    case True
    then have "unat (word_of_nat (48 + n) :: u8) = 48 + n" using digit_byte(2) by blast
    then show ?thesis
      using True 1(2) by (subst dec_nat.simps) (simp add: word_less_nat_alt del: of_nat_add)
  next
    case False
    then show ?thesis using 1(1) by (subst dec_nat.simps) (simp add: hd_append)
  qed
qed

lemma parse_i64_prefix:
  assumes "k \<le> length (dec_nat n)" and "parse_i64 (take k (dec_nat n)) = Some m"
  shows "0 \<le> m" and "0 < n \<Longrightarrow> 0 < m"
proof -
  let ?ds = "take k (dec_nat n)"
  have dig: "\<forall>d \<in> set ?ds. is_digit d" using dec_nat_digits by (meson in_set_takeD)
  obtain d ds where d: "?ds = d # ds" using assms(2) by (cases ?ds) (auto simp: parse_i64_def)
  then have "is_digit d" using dig by simp
  then have ne: "d \<noteq> 43" "d \<noteq> 45" by simp_all
  obtain j where j: "parse_digits 0 ?ds = Some j" using parse_digits_total [OF dig] by blast
  then have m: "m = int j" using assms(2) d ne by (auto simp: parse_i64_def Let_def split: if_splits)
  then show "0 \<le> m" by simp
  assume "0 < n"
  have "hd (dec_nat n) = d" using d by (metis hd_take list.sel(1) list.distinct(1) take_eq_Nil neq0_conv)
  then have "48 < d" using dec_nat_hd [OF \<open>0 < n\<close>] by simp
  then have "48 < unat d" by (simp add: word_less_nat_alt)
  moreover have "unat d - 48 \<le> j"
    using j d \<open>is_digit d\<close> parse_digits_ge [of "unat d - 48" ds j] by simp
  ultimately show "0 < m" using m by simp
qed

text \<open>A header line that is cut off: what is left of its number is taken for the number.\<close>

lemma read_line_cut:
  assumes "0 < m" and "m < length (c # dec_nat n @ CRLF)" and "c \<noteq> 10" and "c \<noteq> 13"
  shows "\<exists>k \<le> length (dec_nat n). read_line \<lparr>pending = take m (c # dec_nat n @ CRLF), broken = None\<rparr> =
    Ok (Some (c # take k (dec_nat n)), \<lparr>pending = [], broken = None\<rparr>)"
proof -
  have whole: "read_line \<lparr>pending = p, broken = None\<rparr> = Ok (Some (pop_eol p), \<lparr>pending = [], broken = None\<rparr>)"
    if "p \<noteq> []" "10 \<notin> set p" for p
  proof -
    have "takeWhile (\<lambda>b. b \<noteq> 10) p = p" "dropWhile (\<lambda>b. b \<noteq> 10) p = []" using that(2) by (induction p) auto
    then show ?thesis using that(1) unfolding read_line_def by (simp only: reader.simps Let_def option.case if_False simp_thms)
  qed
  have clean: "c # take k (dec_nat n) = [] \<or> last (c # take k (dec_nat n)) \<notin> {10, 13}"
    "10 \<notin> set (c # take k (dec_nat n))" for k
  proof -
    have "\<forall>b \<in> set (take k (dec_nat n)). is_digit b" using dec_nat_digits by (meson in_set_takeD)
    note dl = digits_line [OF this]
    show "10 \<notin> set (c # take k (dec_nat n))" using dl(1) assms(3) by simp
    show "c # take k (dec_nat n) = [] \<or> last (c # take k (dec_nat n)) \<notin> {10, 13}"
      using dl(1,2) assms(3,4) by (cases "take k (dec_nat n) = []") (simp, metis empty_iff insert_iff last_ConsR last_in_set)
  qed
  obtain j where j: "m = Suc j" using assms(1) by (cases m) auto
  show ?thesis
  proof (cases "j \<le> length (dec_nat n)")
    case True
    then have "take m (c # dec_nat n @ CRLF) = c # take j (dec_nat n)" using j by simp
    then show ?thesis
      using whole [of "c # take j (dec_nat n)"] clean [of j] pop_eol_CRLF(4) [OF clean(1) [of j]] True by auto
  next
    case False
    then have "j = length (dec_nat n) + 1" using assms(2) j by (simp add: CRLF_def)
    then have "take m (c # dec_nat n @ CRLF) = (c # dec_nat n) @ [13]" using j by (simp add: CRLF_def)
    moreover have "pop_eol ((c # dec_nat n) @ [13]) = c # dec_nat n"
      using pop_eol_CRLF(3) [of "c # dec_nat n"] clean(1) [of "length (dec_nat n)"] by simp
    ultimately show ?thesis
      using whole [of "(c # dec_nat n) @ [13]"] clean(2) [of "length (dec_nat n)"]
      by (auto intro!: exI [of _ "length (dec_nat n)"])
  qed
qed

lemma parse_len_prefix:
  assumes "k \<le> length (dec_nat n)" and "parse_len (take k (dec_nat n)) m = Ok l"
  shows "0 \<le> l" and "0 < n \<Longrightarrow> 0 < l"
proof -
  have "parse_i64 (take k (dec_nat n)) = Some l"
    using assms(2) by (auto simp: parse_len_def invalid_def split: if_splits option.splits)
  from parse_i64_prefix [OF assms(1) this] show "0 \<le> l" "0 < n \<Longrightarrow> 0 < l" by simp_all
qed

lemma read_nothing:
  "read_line \<lparr>pending = [], broken = None\<rparr> = Ok (None, \<lparr>pending = [], broken = None\<rparr>)"
  "read_arg \<lparr>pending = [], broken = None\<rparr> = unexpected_eof"
  by (simp_all add: read_line_def read_arg_def)

lemma read_exact_from_short:
  "length p < n \<Longrightarrow> is_ok (read_exact_from n \<lparr>pending = p, broken = b\<rparr>) = False"
  by (simp add: read_exact_from_def)

lemma read_arg_cut:
  assumes "m < length (encode_arg arg)"
  shows "\<not> is_ok (read_arg \<lparr>pending = take m (encode_arg arg), broken = None\<rparr>)"
proof
  assume "is_ok (read_arg \<lparr>pending = take m (encode_arg arg), broken = None\<rparr>)"
  then obtain a r' where ok: "read_arg \<lparr>pending = take m (encode_arg arg), broken = None\<rparr> = Ok (a, r')"
    by (auto simp: is_ok_iff)
  let ?h = "36 # dec_nat (length arg) @ CRLF"
  have enc: "encode_arg arg = ?h @ arg @ CRLF" by (simp add: encode_arg_def)
  have m0: "0 < m" using ok read_nothing(2) by (cases m) (auto simp: unexpected_eof_def)
  from ok show False
  proof (cases rule: read_arg_cases)
    case (1 header len r1 r2 t)
    show False
    proof (cases "m < length ?h")
      case True
      then have "take m (encode_arg arg) = take m ?h" unfolding enc by (subst take_append) simp
      then obtain k where "r1 = \<lparr>pending = [], broken = None\<rparr>"
        using read_line_cut [OF m0 True] 1(1) by auto
      then show False using 1(4,5) by (auto dest!: read_exact_from_length)
    next
      case False
      then have "take m (encode_arg arg) = 36 # dec_nat (length arg) @ CRLF @ take (m - length ?h) (arg @ CRLF)"
        using enc take_append [of m ?h "arg @ CRLF"] by simp
      then have r1: "header = 36 # dec_nat (length arg)"
        "r1 = \<lparr>pending = take (m - length ?h) (arg @ CRLF), broken = None\<rparr>"
        using read_line_header [of 36 "length arg" "take (m - length ?h) (arg @ CRLF)" None] 1(1) by auto
      have "parse_i64 (dec_nat (length arg)) = Some len"
        using 1(2) r1(1) by (auto simp: parse_len_def invalid_def split: if_splits option.splits)
      moreover obtain j where "parse_digits 0 (dec_nat (length arg)) = Some j" "j = length arg"
        using parse_digits_dec_nat by blast
      moreover obtain d ds where "dec_nat (length arg) = d # ds" "d \<noteq> 43" "d \<noteq> 45"
        using dec_nat_digits [of "length arg"] dec_nat_nonempty [of "length arg"] is_digit_neq
        by (cases "dec_nat (length arg)") auto
      ultimately have "len = int (length arg)" by (auto simp: parse_i64_def Let_def split: if_splits)
      then have "length (pending r1) = length arg + 2 + length (pending r')"
        using 1(4,5) by (auto dest!: read_exact_from_length)
      then show False using r1(2) assms False by (simp add: enc CRLF_def)
    qed
  qed
qed

lemma read_args_cut:
  assumes "\<forall>arg \<in> set args. arg_fits arg" and "m < length (concat (map encode_arg args))"
  shows "\<not> is_ok (read_args (length args) \<lparr>pending = take m (concat (map encode_arg args)), broken = None\<rparr> acc)"
  using assms
proof (induction args arbitrary: m acc)
  case (Cons arg args)
  show ?case
  proof (cases "m < length (encode_arg arg)")
    case True
    then show ?thesis using read_arg_cut [OF True] by (auto simp: is_ok_iff res_simps)
  next
    case False
    then have "take m (concat (map encode_arg (arg # args))) =
        encode_arg arg @ take (m - length (encode_arg arg)) (concat (map encode_arg args))" by simp
    moreover have "\<not> is_ok (read_args (length args)
        \<lparr>pending = take (m - length (encode_arg arg)) (concat (map encode_arg args)), broken = None\<rparr> (acc @ [arg]))"
      using Cons False by (intro Cons.IH) auto
    ultimately show ?thesis using Cons.prems(1) by (simp add: read_arg_encode)
  qed
qed simp

lemma read_command_cut:
  assumes "command_fits args" and "args \<noteq> []" and "0 < m" and "m < length (encode_command args)"
  shows "\<not> is_ok (read_command \<lparr>pending = take m (encode_command args), broken = None\<rparr>)"
proof -
  let ?h = "42 # dec_nat (length args) @ CRLF" and ?body = "concat (map encode_arg args)"
  have enc: "encode_command args = ?h @ ?body" by (simp add: encode_command_def)
  have len: "0 < length args" using assms(2) by simp
  show ?thesis
  proof (cases "m < length ?h")
    case True
    then have "take m (encode_command args) = take m ?h" unfolding enc by (subst take_append) simp
    then obtain k where k: "k \<le> length (dec_nat (length args))"
      "read_line \<lparr>pending = take m (encode_command args), broken = None\<rparr> =
        Ok (Some (42 # take k (dec_nat (length args))), \<lparr>pending = [], broken = None\<rparr>)"
      using read_line_cut [OF assms(3) True] by auto
    show ?thesis
    proof (cases "parse_len (take k (dec_nat (length args))) MAX_ARGS")
      case (Ok l)
      then have "0 < l" using parse_len_prefix(2) [OF k(1)] len by blast
      then obtain i where "nat l = Suc i" by (metis gr0_implies_Suc zero_less_nat_eq)
      then show ?thesis
        using k(2) Ok by (simp add: read_command_def read_nothing(2) unexpected_eof_def)
    qed (use k(2) in \<open>simp add: read_command_def\<close>)
  next
    case False
    then have "take m (encode_command args) =
        42 # dec_nat (length args) @ CRLF @ take (m - length ?h) ?body"
      using enc take_append [of m ?h ?body] by simp
    moreover have "m - length ?h < length ?body" using assms(4) False by (simp add: enc)
    moreover have "parse_len (dec_nat (length args)) MAX_ARGS = Ok (int (length args))"
      using assms(1) by (intro parse_len_dec_nat) (auto simp: command_fits_def MAX_ARGS_def)
    ultimately show ?thesis
      using read_args_cut [of args "m - length ?h" "[]"] assms(1)
        read_line_header [of 42 "length args" "take (m - length ?h) ?body" None]
      by (auto simp: read_command_def command_fits_def is_ok_iff res_simps)
  qed
qed

section \<open>What a connection can rely on\<close>

text \<open>C29: what a client sends is what the server reads: a command within the limits of the protocol,
  whatever bytes its arguments have, is read back exactly, and nothing of what follows it is used up.\<close>

theorem command_round_trip:
  assumes "command_fits args"
  shows "read_command \<lparr>pending = encode_command args @ rest, broken = b\<rparr> =
    Ok (Some args, \<lparr>pending = rest, broken = b\<rparr>)"
  using assms by (rule read_command_encode)

theorem command_round_trip_witness:
  "read_command \<lparr>pending = encode_command [str ''SET'', [13, 10], []] @ [42], broken = None\<rparr> =
     Ok (Some [str ''SET'', [13, 10], []], \<lparr>pending = [42], broken = None\<rparr>)"
  by (rule command_round_trip) (simp add: command_fits_def arg_fits_def MAX_ARGS_def MAX_BULK_LEN_def)

text \<open>A command in the array form that is cut off anywhere by the end of the connection is refused
  with an error; no part of it is ever executed.\<close>

lemma cut_off_command_refused:
  assumes "command_fits args" and "args \<noteq> []" and "0 < n" and "n < length (encode_command args)"
  shows "\<exists>k m. read_command \<lparr>pending = take n (encode_command args), broken = None\<rparr> = Err k m \<and>
    k \<in> {InvalidData, UnexpectedEof}"
proof -
  let ?r = "\<lparr>pending = take n (encode_command args), broken = None\<rparr>"
  obtain s where s: "read_command ?r = Fail s"
    using read_command_cut [OF assms] by (cases "read_command ?r") auto
  then have "protocol_stop None s" using stops_read_command [of ?r] by (simp add: stops_def)
  then obtain e where "s = Io e" "kind e \<in> {InvalidData, UnexpectedEof}" by (auto simp: protocol_stop_def)
  then show ?thesis using s by (cases e) auto
qed

text \<open>C31: whatever the peer sends, reading a command does not panic and makes progress: it gives a
  command and has used up input, or finds the connection closed with nothing left, or fails with a
  protocol error, the end of the connection, or the connection's own error.\<close>

theorem read_command_total:
  "case read_command r of
     Ok (Some args, r') \<Rightarrow> length (pending r') < length (pending r) \<and> broken r' = broken r
   | Ok (None, r') \<Rightarrow> pending r = [] \<and> broken r = None \<and> r' = r
   | Fail s \<Rightarrow> \<exists>e. s = Io e \<and> (kind e \<in> {InvalidData, UnexpectedEof} \<or> broken r = Some e)"
proof (cases "read_command r")
  case (Ok x)
  obtain args r' where x: "x = (args, r')" by (cases x)
  show ?thesis
  proof (cases args)
    case None
    have "dropWhile (\<lambda>b. b \<noteq> 10) xs = [] \<Longrightarrow> takeWhile (\<lambda>b. b \<noteq> 10) xs = [] \<Longrightarrow> xs = []" for xs :: bytes
      by (metis append_Nil takeWhile_dropWhile_id)
    moreover have "read_line r = Ok (None, r')"
    proof (cases "read_line r")
      case l: (Ok y)
      then show ?thesis
        using Ok x None by (cases "fst y"; cases y) (auto simp: read_command_def res_simps split: if_splits)
    qed (use Ok in \<open>simp add: read_command_def\<close>)
    ultimately show ?thesis
      using Ok x None by (auto simp: read_line_def Let_def split: if_splits option.splits)
  qed (use Ok x read_command_shrinks in auto)
next
  case (Fail s)
  then show ?thesis using stops_read_command [of r] by (simp add: stops_def protocol_stop_def)
qed

text \<open>An inline command has no such protection. What has arrived of its line when the connection
  closes is taken for the whole command: a \<open>SET\<close> is carried out with a part of its value.\<close>

lemma inline_command_cut_off_runs:
  assumes "line \<noteq> []" and "hd line \<noteq> 42" and "10 \<notin> set line" and "last line \<noteq> 13"
  shows "read_command \<lparr>pending = line, broken = None\<rparr> =
    Ok (Some (pieces is_ascii_whitespace line), \<lparr>pending = [], broken = None\<rparr>)"
proof -
  have "last line \<notin> {10, 13}" using assms last_in_set by force
  then have "pop_eol line = line" by (intro pop_eol_CRLF(4)) simp
  moreover have "takeWhile (\<lambda>b. b \<noteq> 10) line = line" "dropWhile (\<lambda>b. b \<noteq> 10) line = []"
    using assms(3) by (induction line) auto
  ultimately have "read_line \<lparr>pending = line, broken = None\<rparr> = Ok (Some line, \<lparr>pending = [], broken = None\<rparr>)"
    using assms(1) unfolding read_line_def by (simp only: reader.simps Let_def option.case if_False simp_thms)
  then show ?thesis using assms(1,2) by (simp add: read_command_def)
qed

text \<open>The two bytes after an argument are read but not looked at.\<close>

lemma terminator_unchecked:
  assumes "arg_fits arg"
  shows "read_arg \<lparr>pending = 36 # dec_nat (length arg) @ CRLF @ arg @ [x, y] @ rest, broken = b\<rparr> =
    Ok (arg, \<lparr>pending = rest, broken = b\<rparr>)"
proof -
  have two: "read_exact_from 2 \<lparr>pending = [x, y] @ rest, broken = b\<rparr> = Ok ([x, y], \<lparr>pending = rest, broken = b\<rparr>)"
    using read_exact_from_append [of "[x, y]" rest b] by (simp add: numeral_2_eq_2)
  have "parse_len (dec_nat (length arg)) MAX_BULK_LEN = Ok (int (length arg))"
    using assms arg_fits_63 [OF assms] by (simp add: arg_fits_def parse_len_dec_nat)
  then show ?thesis
    using read_line_header [of 36 "length arg" "arg @ [x, y] @ rest" b] read_exact_from_append two
    by (simp add: read_arg_def)
qed

end
