(* ===== verification/Client.thy ===== *)
theory Client
  imports Resp
begin

text \<open>
  The other end of the protocol: the client of the load generator, \<^verbatim>\<open>src/src/bin/ycsb.rs\<close>. It sends
  commands with \<open>encode_command\<close> (of theory Resp) and skips over one reply for each.
\<close>

section \<open>Lines\<close>

text \<open>\<open>String::push(byte as char)\<close>: the bytes of a line are taken for the characters U+0000 to U+00FF.\<close>

definition latin1 :: "u8 \<Rightarrow> bytes" where
  "latin1 b = (if b < 0x80 then [b] else if b < 0xC0 then [0xC2, b] else [0xC3, b - 0x40])"

text \<open>The loop that reads byte by byte up to the line feed and leaves out carriage returns.\<close>

fun client_line :: "bytes \<Rightarrow> bytes \<Rightarrow> (bytes \<times> bytes) res" where
  "client_line line [] = Err UnexpectedEof (str ''failed to fill whole buffer'')"
| "client_line line (b # bs) =
     (if b = 10 then Ok (line, bs)
      else if b \<noteq> 13 then client_line (line @ latin1 b) bs else client_line line bs)"

definition client_read_line :: "reader \<Rightarrow> (bytes \<times> reader) res" where
  "client_read_line r =
     (case client_line [] (pending r) of
        Ok (line, rest) \<Rightarrow> Ok (line, r\<lparr>pending := rest\<rparr>)
      | Fail s \<Rightarrow> Fail (at_end r s))"

lemma client_line_length: "client_line acc bs = Ok (line, rest) \<Longrightarrow> length rest < length bs"
  by (induction acc bs rule: client_line.induct) (auto split: if_splits)

lemma client_read_line_shrinks: "client_read_line r = Ok (line, r') \<Longrightarrow> length (pending r') < length (pending r)"
  by (auto simp: client_read_line_def split: res.splits dest: client_line_length)

section \<open>Replies\<close>

text \<open>\<open>line[1..].trim().parse().unwrap_or(fallback)\<close>\<close>

definition header_number :: "bytes \<Rightarrow> int \<Rightarrow> int" where
  "header_number line fallback =
     (case parse_i64 (trim (tl line)) of None \<Rightarrow> fallback | Some n \<Rightarrow> n)"

text \<open>
  \<open>consume_reply\<close> calls itself once for each element of an array, one after the other: what is left to
  do is the number of replies to skip, and an array replaces one of them by its elements.
\<close>

function consume_replies :: "nat \<Rightarrow> reader \<Rightarrow> reader res" where
  "consume_replies n r =
     (if n = 0 then Ok r
      else bind_res (client_read_line r) (\<lambda>(line, r1).
        if line \<noteq> [] \<and> hd line = 36 then
          let len = header_number line (- 1)
          in if 0 \<le> len
             then bind_res (read_exact_from (nat len + 2) r1) (\<lambda>(body, r2). consume_replies (n - 1) r2)
             else consume_replies (n - 1) r1
        else if line \<noteq> [] \<and> hd line = 42 then
          let count = header_number line 0
          in consume_replies (nat (max 0 count) + (n - 1)) r1
        else consume_replies (n - 1) r1))"
  by pat_completeness auto
termination
  by (relation "measure (\<lambda>(n, r). length (pending r))")
    (auto dest!: client_read_line_shrinks read_exact_from_length)

declare consume_replies.simps [simp del]

definition consume_reply :: "reader \<Rightarrow> reader res" where
  "consume_reply r = consume_replies 1 r"

text \<open>The bytes that a call sends, and the reader after its reply.\<close>

definition client_call :: "bytes list \<Rightarrow> reader \<Rightarrow> bytes \<times> reader res" where
  "client_call parts r = (encode_command parts, consume_reply r)"

text \<open>\<open>format!("user{i:012}")\<close>\<close>

definition ycsb_key :: "nat \<Rightarrow> bytes" where
  "ycsb_key i = str ''user'' @ replicate (12 - length (dec_nat i)) 48 @ dec_nat i"

section \<open>One reply at a time\<close>

text \<open>Replies that stay on their line, with lengths that an \<open>i64\<close> holds.\<close>

fun reply_fits :: "reply \<Rightarrow> bool" where
  "reply_fits (Simple text) = (10 \<notin> set text)"
| "reply_fits (Error text) = (10 \<notin> set text)"
| "reply_fits (Integer n) = True"
| "reply_fits Nil_reply = True"
| "reply_fits (Bulk bytes) = (length bytes < 2 ^ 63)"
| "reply_fits (Array items) = (length items < 2 ^ 63 \<and> (\<forall>item \<in> set items. reply_fits item))"

lemma client_line_append:
  "10 \<notin> set line \<Longrightarrow> client_line acc (line @ 10 # rest) =
     Ok (acc @ concat (map latin1 (filter (\<lambda>b. b \<noteq> 13) line)), rest)"
  by (induction line arbitrary: acc) auto

lemma client_read_line_CRLF:
  "10 \<notin> set line \<Longrightarrow> client_read_line \<lparr>pending = line @ CRLF @ rest, broken = b\<rparr> =
     Ok (concat (map latin1 (filter (\<lambda>b. b \<noteq> 13) line)), \<lparr>pending = rest, broken = b\<rparr>)"
  using client_line_append [of "line @ [13]" "[]" rest]
  by (simp add: client_read_line_def CRLF_def)

lemma latin1_ascii: "\<forall>b \<in> set bs. b < 0x80 \<and> b \<noteq> 13 \<Longrightarrow> concat (map latin1 (filter (\<lambda>b. b \<noteq> 13) bs)) = bs"
  by (induction bs) (auto simp: latin1_def)

lemma digit_ascii: "is_digit b \<Longrightarrow> b < 0x80 \<and> b \<noteq> 13 \<and> b \<noteq> 10 \<and> b \<noteq> 32"
  unfolding is_digit_def word_le_nat_alt word_less_nat_alt by auto

lemma digit_not_whitespace: "is_digit b \<Longrightarrow> \<not> is_whitespace [b]"
  unfolding is_digit_def is_whitespace_def word_le_nat_alt by auto

lemma trim_digits:
  assumes "\<forall>b \<in> set ds. is_digit b"
  shows "trim ds = ds"
proof -
  have d: "dropWhile is_whitespace (map (\<lambda>b. [b]) xs) = map (\<lambda>b. [b]) xs" if "\<forall>b \<in> set xs. is_digit b" for xs
    using that digit_not_whitespace by (cases xs) auto
  have "utf8_chars ds = map (\<lambda>b. [b]) ds" using assms digit_ascii by (intro utf8_chars_ascii) blast
  then show ?thesis
    using d [OF assms] d [of "rev ds"] assms by (simp add: trim_def rev_map)
qed

lemma header_number_dec_nat: "n < 2 ^ 63 \<Longrightarrow> header_number (c # dec_nat n) fallback = int n"
  using trim_digits [OF dec_nat_digits] by (simp add: header_number_def parse_i64_dec_nat)

lemma client_read_header:
  assumes "c < 0x80" and "c \<noteq> 10" and "c \<noteq> 13"
  shows "client_read_line \<lparr>pending = c # dec_nat n @ CRLF @ rest, broken = b\<rparr> =
    Ok (c # dec_nat n, \<lparr>pending = rest, broken = b\<rparr>)"
proof -
  have d: "\<forall>b \<in> set (dec_nat n). b < 0x80 \<and> b \<noteq> 13" "10 \<notin> set (dec_nat n)"
    using dec_nat_digits [of n] digit_ascii by blast+
  show ?thesis
    using client_read_line_CRLF [of "c # dec_nat n" rest b] d assms latin1_ascii [of "c # dec_nat n"] by simp
qed

text \<open>A line of text: whatever its first character is, if it is not a header, it is skipped.\<close>

lemma consume_text:
  assumes "c \<in> {43, 45, 58}" and "10 \<notin> set text"
  shows "consume_replies (Suc n) \<lparr>pending = c # text @ CRLF @ rest, broken = b\<rparr> =
    consume_replies n \<lparr>pending = rest, broken = b\<rparr>"
proof -
  have "client_read_line \<lparr>pending = c # text @ CRLF @ rest, broken = b\<rparr> =
      Ok (c # concat (map latin1 (filter (\<lambda>b. b \<noteq> 13) text)), \<lparr>pending = rest, broken = b\<rparr>)"
    using client_read_line_CRLF [of "c # text" rest b] assms by (auto simp: latin1_def)
  then show ?thesis using assms(1) by (subst consume_replies.simps) auto
qed

lemma dec_int_line: "10 \<notin> set (dec_int i)"
proof -
  have "10 \<notin> set (dec_nat n)" for n using dec_nat_digits [of n] digit_ascii by blast
  then show ?thesis by (simp add: dec_int_def)
qed

lemma consume_write_to:
  "reply_fits r \<Longrightarrow> consume_replies (Suc n) \<lparr>pending = write_to r @ rest, broken = b\<rparr> =
     consume_replies n \<lparr>pending = rest, broken = b\<rparr>"
proof (induction r arbitrary: n rest)
  case (Simple m)
  then show ?case using consume_text [of 43 m n rest b] by simp
next
  case (Error m)
  then show ?case using consume_text [of 45 m n rest b] by simp
next
  case (Integer i)
  then show ?case using consume_text [of 58 "dec_int i" n rest b] dec_int_line by simp
next
  case Nil_reply
  have "client_read_line \<lparr>pending = [36, 45, 49, 13, 10] @ rest, broken = b\<rparr> =
      Ok ([36, 45, 49], \<lparr>pending = rest, broken = b\<rparr>)"
    using client_read_line_CRLF [of "[36, 45, 49]" rest b] by (simp add: CRLF_def latin1_def)
  moreover have "header_number [36, 45, 49] (- 1) = - 1"
  proof -
    have "utf8_chars [45, 49] = [[45], [49]]" using utf8_chars_ascii [of "[45, 49]"] by simp
    then have "trim [45, 49] = [45, 49]" by (simp add: trim_def is_whitespace_def)
    then show ?thesis by (simp add: header_number_def parse_i64_def is_digit_def)
  qed
  ultimately show ?case by (subst consume_replies.simps) simp
next
  case (Bulk bs)
  have "read_exact_from (length bs + 2) \<lparr>pending = bs @ CRLF @ rest, broken = b\<rparr> =
      Ok (bs @ CRLF, \<lparr>pending = rest, broken = b\<rparr>)"
    using read_exact_from_append [of "bs @ CRLF" rest b] by (simp add: CRLF_def)
  then show ?case
    using Bulk client_read_header [of 36 "length bs" "bs @ CRLF @ rest" b]
    by (subst consume_replies.simps) (simp add: header_number_dec_nat)
next
  case (Array items)
  have elems: "consume_replies (length xs + n) \<lparr>pending = concat (map write_to xs) @ rest, broken = b\<rparr> =
      consume_replies n \<lparr>pending = rest, broken = b\<rparr>" if "set xs \<subseteq> set items" for xs
    using that
  proof (induction xs)
    case (Cons x xs)
    then have "reply_fits x" "x \<in> set items" using Array.prems by auto
    then show ?case
      using Cons Array.IH [of x "length xs + n" "concat (map write_to xs) @ rest"] by simp
  qed simp
  show ?case
    using Array.prems client_read_header [of 42 "length items" "concat (map write_to items) @ rest" b] elems [of items]
    by (subst consume_replies.simps) (simp add: header_number_dec_nat)
qed

text \<open>A text with a line feed in it ends early for the client; it reads on inside the text.\<close>

lemma consume_split_text:
  assumes "10 \<notin> set text"
  shows "consume_reply \<lparr>pending = 45 # text @ 10 # rest, broken = b\<rparr> = Ok \<lparr>pending = rest, broken = b\<rparr>"
proof -
  have "client_read_line \<lparr>pending = 45 # text @ 10 # rest, broken = b\<rparr> =
      Ok (45 # concat (map latin1 (filter (\<lambda>b. b \<noteq> 13) text)), \<lparr>pending = rest, broken = b\<rparr>)"
    using client_line_append [of "45 # text" "[]" rest] assms
    by (simp add: client_read_line_def latin1_def)
  then show ?thesis
    unfolding consume_reply_def
    by (subst consume_replies.simps, subst consume_replies.simps) simp
qed



end
