(* ===== verification/Server.thy ===== *)
theory Server
  imports Faults Client
begin

text \<open>
  The server, \<^verbatim>\<open>src/src/server.rs\<close>: the lock around the store, the dispatch of commands, and the loop that
  serves a connection.
\<close>

section \<open>The store behind its lock\<close>

text \<open>
  \<open>RwLock<Db>\<close>: commands run one after the other, in the order in which they get the lock. A panic while the
  lock is held for writing poisons it, and \<open>unwrap\<close> panics from then on.
\<close>

record locked =
  guarded :: db
  poisoned :: bool

definition locked_read :: "(db \<Rightarrow> 'a res) \<Rightarrow> locked \<Rightarrow> 'a res" where
  "locked_read f l = (if poisoned l then Fail Panic else f (guarded l))"

definition locked_write :: "'a db_op \<Rightarrow> locked \<Rightarrow> world \<Rightarrow> 'a res \<times> locked \<times> world" where
  "locked_write f l w =
     (if poisoned l then (Fail Panic, l, w)
      else case f (guarded l) w of
             (r, d, w1) \<Rightarrow> (r, \<lparr>guarded = d, poisoned = (r = Fail Panic)\<rparr>, w1))"

section \<open>Dispatch\<close>

datatype outcome = Nothing | Reply reply | Quit

definition server_error :: "io_error \<Rightarrow> reply" where
  "server_error e = Error (str ''ERR '' @ message e)"

text \<open>The arms that turn an \<open>Err\<close> into a reply; a panic goes on.\<close>

definition reply_of :: "('a \<Rightarrow> reply) \<Rightarrow> 'a res \<Rightarrow> outcome res" where
  "reply_of f r =
     (case r of
        Ok x \<Rightarrow> Ok (Reply (f x))
      | Fail (Io e) \<Rightarrow> Ok (Reply (server_error e))
      | Fail Panic \<Rightarrow> Fail Panic
      | Fail Killed \<Rightarrow> Fail Killed)"

fun value_reply :: "bytes option \<Rightarrow> reply" where
  "value_reply (Some val) = Bulk val"
| "value_reply None = Nil_reply"

text \<open>The loop of \<open>DEL\<close>, which holds the lock from its first key to its last.\<close>

fun del_keys :: "(bytes \<Rightarrow> u32) \<Rightarrow> bytes list \<Rightarrow> int \<Rightarrow> int db_op" where
  "del_keys crc [] removed db w = (Ok removed, db, w)"
| "del_keys crc (key # keys) removed db w =
     (case db_get db key of
        Ok (Some val) \<Rightarrow>
          (case delete crc key db w of
             (Ok u, db1, w1) \<Rightarrow> del_keys crc keys (removed + 1) db1 w1
           | (Fail s, db1, w1) \<Rightarrow> (Fail s, db1, w1))
      | Ok None \<Rightarrow> del_keys crc keys removed db w
      | Fail s \<Rightarrow> (Fail s, db, w))"

definition wrong_arity :: "bytes \<Rightarrow> reply" where
  "wrong_arity name =
     Error (str ''ERR wrong number of arguments for '' @ [39] @ to_ascii_lowercase name @ [39] @
       str '' command'')"

definition unknown_command :: "bytes \<Rightarrow> reply" where
  "unknown_command arg = Error (str ''ERR unknown command '' @ [39] @ from_utf8_lossy arg @ [39])"

text \<open>The arms of the \<open>match\<close>, in their order.\<close>

definition dispatch :: "(bytes \<Rightarrow> u32) \<Rightarrow> bytes list \<Rightarrow> locked \<Rightarrow> world \<Rightarrow> outcome res \<times> locked \<times> world" where
  "dispatch crc args l w =
     (if args = [] then (Ok Nothing, l, w)
      else
        let name = to_ascii_uppercase (args ! 0); n = length args
        in if name = str ''PING'' \<and> n = 1 then (Ok (Reply (Simple (str ''PONG''))), l, w)
           else if name = str ''PING'' \<and> n = 2 then (Ok (Reply (Bulk (args ! 1))), l, w)
           else if name = str ''ECHO'' \<and> n = 2 then (Ok (Reply (Bulk (args ! 1))), l, w)
           else if name = str ''QUIT'' then (Ok Quit, l, w)
           else if name = str ''COMMAND'' then (Ok (Reply (Array [])), l, w)
           else if name = str ''GET'' \<and> n = 2 then
             (reply_of value_reply (locked_read (\<lambda>db. db_get db (args ! 1)) l), l, w)
           else if name = str ''SET'' \<and> n = 3 then
             (case locked_write (put crc (args ! 1) (args ! 2)) l w of
                (r, l1, w1) \<Rightarrow> (reply_of (\<lambda>u. Simple (str ''OK'')) r, l1, w1))
           else if name = str ''DEL'' \<and> 2 \<le> n then
             (case locked_write (del_keys crc (drop 1 args) 0) l w of
                (r, l1, w1) \<Rightarrow> (reply_of Integer r, l1, w1))
           else if name \<in> {str ''PING'', str ''ECHO'', str ''GET'', str ''SET'', str ''DEL''} then
             (Ok (Reply (wrong_arity name)), l, w)
           else (Ok (Reply (unknown_command (args ! 0))), l, w))"

section \<open>A connection\<close>

text \<open>
  What the peer sends, what it has been sent, and, if it stops accepting, after how many more bytes
  a write fails with which error.
\<close>

record conn =
  incoming :: reader
  sent :: bytes
  capacity :: "(nat \<times> io_error) option"

definition send :: "bytes \<Rightarrow> conn \<Rightarrow> unit res \<times> conn" where
  "send bs c =
     (case capacity c of
        None \<Rightarrow> (Ok (), c\<lparr>sent := sent c @ bs\<rparr>)
      | Some (n, e) \<Rightarrow>
          if length bs \<le> n then (Ok (), c\<lparr>sent := sent c @ bs, capacity := Some (n - length bs, e)\<rparr>)
          else (Fail (Io e), c\<lparr>sent := sent c @ take n bs, capacity := Some (0, e)\<rparr>))"

lemma send_incoming: "send bs c = (r, c') \<Longrightarrow> incoming c' = incoming c"
  by (auto simp: send_def split: option.splits prod.splits if_splits)

lemma send_shrinks:
  "read_command (incoming c) = Ok (Some args, r) \<Longrightarrow> (q, c') = send bs (c\<lparr>incoming := r\<rparr>) \<Longrightarrow>
     length (pending (incoming c')) < length (pending (incoming c))"
  by (metis conn.select_convs(1) conn.surjective conn.update_convs(1) read_command_shrinks send_incoming)

function serve :: "(bytes \<Rightarrow> u32) \<Rightarrow> conn \<Rightarrow> locked \<Rightarrow> world \<Rightarrow> unit res \<times> conn \<times> locked \<times> world" where
  "serve crc c l w =
     (case read_command (incoming c) of
        Ok (None, r) \<Rightarrow> (Ok (), c\<lparr>incoming := r\<rparr>, l, w)
      | Fail (Io e) \<Rightarrow>
          if kind e = InvalidData then
            (case send (write_to (Error (str ''ERR Protocol error: '' @ message e))) c of
               (q, c1) \<Rightarrow> (q, c1, l, w))
          else (Fail (Io e), c, l, w)
      | Fail Panic \<Rightarrow> (Fail Panic, c, l, w)
      | Fail Killed \<Rightarrow> (Fail Killed, c, l, w)
      | Ok (Some args, r) \<Rightarrow>
          let c1 = c\<lparr>incoming := r\<rparr>
          in case dispatch crc args l w of
               (Fail s, l1, w1) \<Rightarrow> (Fail s, c1, l1, w1)
             | (Ok Nothing, l1, w1) \<Rightarrow> serve crc c1 l1 w1
             | (Ok (Reply rep), l1, w1) \<Rightarrow>
                 (case send (write_to rep) c1 of
                    (Ok u, c2) \<Rightarrow> serve crc c2 l1 w1
                  | (Fail s, c2) \<Rightarrow> (Fail s, c2, l1, w1))
             | (Ok Quit, l1, w1) \<Rightarrow>
                 (case send (write_to (Simple (str ''OK''))) c1 of (q, c2) \<Rightarrow> (q, c2, l1, w1)))"
  by pat_completeness auto
termination
  by (relation "measure (\<lambda>(crc, c, l, w). length (pending (incoming c)))")
    (auto dest: read_command_shrinks send_shrinks)

declare serve.simps [simp del]

section \<open>What the commands mean\<close>

text \<open>The commands on a map from keys to values.\<close>

type_synonym kv = "bytes \<Rightarrow> bytes option"

definition redis_data :: "bytes \<Rightarrow> bytes list \<Rightarrow> kv \<Rightarrow> (reply \<times> kv) option" where
  "redis_data name args m =
     (if name = str ''GET'' \<and> length args = 1 then Some (value_reply (m (hd args)), m)
      else if name = str ''SET'' \<and> length args = 2 then
        Some (Simple (str ''OK''), m(args ! 0 := Some (args ! 1)))
      else if name = str ''DEL'' \<and> args \<noteq> [] then
        Some (Integer (int (card {k \<in> set args. m k \<noteq> None})), \<lambda>k. if k \<in> set args then None else m k)
      else None)"

definition redis :: "bytes list \<Rightarrow> kv \<Rightarrow> outcome \<times> kv" where
  "redis args m =
     (if args = [] then (Nothing, m)
      else
        let name = to_ascii_uppercase (hd args)
        in case redis_data name (tl args) m of
             Some (r, m') \<Rightarrow> (Reply r, m')
           | None \<Rightarrow>
               (if name = str ''QUIT'' then Quit
                else if name = str ''COMMAND'' then Reply (Array [])
                else if name = str ''PING'' \<and> length args = 1 then Reply (Simple (str ''PONG''))
                else if name \<in> {str ''PING'', str ''ECHO''} \<and> length args = 2 then Reply (Bulk (args ! 1))
                else if name \<in> {str ''PING'', str ''ECHO'', str ''GET'', str ''SET'', str ''DEL''}
                then Reply (wrong_arity name)
                else Reply (unknown_command (hd args)), m))"

section \<open>Dispatch implements the commands\<close>

definition room_for :: "nat \<Rightarrow> db \<Rightarrow> bool" where
  "room_for n db \<longleftrightarrow> next_seq (db_set db) + n < 2 ^ 64"

definition serving :: "(bytes \<Rightarrow> u32) \<Rightarrow> locked \<Rightarrow> world \<Rightarrow> kv \<Rightarrow> bool" where
  "serving crc l w m \<longleftrightarrow> \<not> poisoned l \<and> (\<exists>ess ws. db_inv crc (guarded l) w ess ws \<and> view ess ws = m)"

lemma room_for_room: "room_for (Suc n) db \<Longrightarrow> room db"
  by (simp add: room_for_def room_def)

text \<open>
  The store can take \<open>n\<close> writes of \<open>b\<close> bytes of keys and values: sequence numbers stay below \<open>2 ^ 64\<close> and files below
  the largest there can be.
\<close>

definition ample :: "nat \<Rightarrow> nat \<Rightarrow> db \<Rightarrow> world \<Rightarrow> bool" where
  "ample n b db w \<longleftrightarrow> room_for n db \<and> space_for n b db w"

lemma ample_less: "ample n b db w \<Longrightarrow> n' \<le> n \<Longrightarrow> b' \<le> b \<Longrightarrow> ample n' b' db w"
  unfolding ample_def room_for_def using space_for_less by force

text \<open>The reply, or the end of the thread, when a write of the store ends with a failure.\<close>

definition refusal :: "stop \<Rightarrow> outcome res" where
  "refusal s = (case s of Io e \<Rightarrow> Ok (Reply (server_error e)) | Panic \<Rightarrow> Fail Panic | Killed \<Rightarrow> Fail Killed)"

lemma reply_of_Fail: "reply_of f (Fail s) = refusal s"
  by (simp add: reply_of_def refusal_def)

lemma reply_of_Ok: "reply_of f (Ok x) = Ok (Reply (f x))"
  by (simp add: reply_of_def)

text \<open>One write, in the terms of the server.\<close>

lemma write_op_serving:
  assumes "db_inv crc db w ess ws" and "room_for (Suc n) db" and "write_fits (k, v)"
    and "write_op crc (k, v) db w = (Ok (), db', w')"
  shows "\<exists>ess' ws'. db_inv crc db' w' ess' ws' \<and> view ess' ws' = (view ess ws)(k := v)"
    and "room_for n db'"
  using db_write_effect(2) [OF assms(1) room_for_room [OF assms(2)] assms(3,4)]
    write_op_seq [OF assms(4)] assms(2)
  by (auto simp: room_for_def)

lemma write_op_outcome:
  assumes inv: "db_inv crc db w ess ws" and amp: "ample (Suc n) (entry_bytes (k, v) + b) db w" and fits: "write_fits (k, v)"
    and op: "write_op crc (k, v) db w = (r, db', w')"
  shows "outcome_traced r w w'"
    and "r = Ok () \<Longrightarrow> \<exists>ess' ws'. db_inv crc db' w' ess' ws' \<and> view ess' ws' = (view ess ws)(k := v)"
    and "r = Ok () \<Longrightarrow> ample n b db' w'"
proof -
  have sp: "room db" "space_for (Suc n) (entry_bytes (k, v) + b) db w" using amp by (auto simp: ample_def room_for_room)
  show "outcome_traced r w w'" by (rule write_op_traced [OF inv sp(1) fits space_for_small [OF sp(2)] op])
  assume ok: "r = Ok ()"
  have rm: "room_for (Suc n) db" using amp by (simp add: ample_def)
  note wr = write_op_serving [OF inv rm fits op [unfolded ok]]
  show "\<exists>ess' ws'. db_inv crc db' w' ess' ws' \<and> view ess' ws' = (view ess ws)(k := v)" by (rule wr(1))
  show "ample n b db' w'" using wr(2) write_op_space [OF inv fits sp(2) op [unfolded ok]] by (simp add: ample_def)
qed

abbreviation args_bytes :: "bytes list \<Rightarrow> nat" where
  "args_bytes args \<equiv> sum_list (map length args)"

lemma del_keys_effect:
  assumes "db_inv crc db w ess ws" and "ample (length keys + n) (args_bytes keys + b) db w"
    and "\<forall>k \<in> set keys. write_fits (k, None)"
    and "del_keys crc keys c db w = (r, db', w')"
  shows "outcome_traced r w w' \<and>
    (\<forall>d. r = Ok d \<longrightarrow> ample n b db' w' \<and> d = c + int (card {k \<in> set keys. view ess ws k \<noteq> None}) \<and>
      (\<exists>ess' ws'. db_inv crc db' w' ess' ws' \<and> view ess' ws' = (\<lambda>k. if k \<in> set keys then None else view ess ws k)))"
  using assms
proof (induction keys arbitrary: c db w ess ws)
  case Nil
  then show ?case by auto
next
  case (Cons key keys)
  let ?m = "view ess ws"
  have get: "db_get db key = Ok (?m key)" using db_get_view [OF Cons.prems(1)] .
  have amp: "ample (Suc (length keys + n)) (length key + (args_bytes keys + b)) db w"
    using Cons.prems(2) by (simp add: add.assoc)
  show ?case
  proof (cases "?m key")
    case None
    have "ample (length keys + n) (args_bytes keys + b) db w" by (rule ample_less [OF amp]) simp_all
    moreover have "del_keys crc keys c db w = (r, db', w')" using Cons.prems(4) get None by simp
    moreover have "\<forall>k \<in> set keys. write_fits (k, None)" using Cons.prems(3) by simp
    moreover have same: "{k \<in> set (key # keys). ?m k \<noteq> None} = {k \<in> set keys. ?m k \<noteq> None}"
      "(\<lambda>k. if k \<in> set (key # keys) then None else ?m k) = (\<lambda>k. if k \<in> set keys then None else ?m k)"
      using None by auto
    ultimately show ?thesis using Cons.IH [OF Cons.prems(1)] unfolding same by blast
  next
    case (Some val)
    obtain q db1 w1 where op: "delete crc key db w = (q, db1, w1)" by (metis prod_cases3)
    have "write_op crc (key, None) db w = (q, db1, w1)" using op by (simp add: write_op_def)
    note wr = write_op_outcome [OF Cons.prems(1) _ _ this, of "length keys + n" "args_bytes keys + b"]
    have one: "outcome_traced q w w1" using wr(1) amp Cons.prems(3) by (simp add: value_bytes_def)
    show ?thesis
    proof (cases q)
      case (Fail s)
      then show ?thesis using one op Cons.prems(4) get Some by auto
    next
      case (Ok u)
      have next_op: "del_keys crc keys (c + 1) db1 w1 = (r, db', w')" using Cons.prems(4) get Some op Ok by simp
      obtain ess1 ws1 where two: "db_inv crc db1 w1 ess1 ws1" "view ess1 ws1 = ?m(key := None)"
        using wr(2) amp Ok Cons.prems(3) by (auto simp: value_bytes_def)
      have "ample (length keys + n) (args_bytes keys + b) db1 w1" using wr(3) amp Ok Cons.prems(3) by (simp add: value_bytes_def)
      from Cons.IH [OF two(1) this _ next_op] Cons.prems(3) have
        IH: "outcome_traced r w1 w'" "\<forall>d. r = Ok d \<longrightarrow> ample n b db' w' \<and>
          d = c + 1 + int (card {k \<in> set keys. view ess1 ws1 k \<noteq> None}) \<and>
          (\<exists>ess' ws'. db_inv crc db' w' ess' ws' \<and> view ess' ws' = (\<lambda>k. if k \<in> set keys then None else view ess1 ws1 k))"
        by auto
      have tr: "outcome_traced r w w'" by (rule undisturbed_traced [OF _ IH(1)]) (use one Ok in simp)
      have "{k \<in> set (key # keys). ?m k \<noteq> None} = insert key {k \<in> set keys. view ess1 ws1 k \<noteq> None}"
        using Some two(2) by auto
      moreover have "key \<notin> {k \<in> set keys. view ess1 ws1 k \<noteq> None}" using two(2) by simp
      ultimately have card: "card {k \<in> set (key # keys). ?m k \<noteq> None} =
          Suc (card {k \<in> set keys. view ess1 ws1 k \<noteq> None})" by (simp add: card_insert_disjoint)
      have same: "(\<lambda>k. if k \<in> set keys then None else view ess1 ws1 k) =
          (\<lambda>k. if k \<in> set (key # keys) then None else ?m k)" using two(2) by auto
      show ?thesis using tr IH(2) unfolding card same [symmetric] by (simp add: add.assoc)
    qed
  qed
qed

lemma arg_fits_write: "arg_fits k \<Longrightarrow> write_fits (k, None)"
  "arg_fits k \<Longrightarrow> arg_fits v \<Longrightarrow> write_fits (k, Some v)"
  by (simp_all add: arg_fits_def MAX_BULK_LEN_def write_fits_def)

lemma serving_get: "serving crc l w m \<Longrightarrow> locked_read (\<lambda>db. db_get db k) l = Ok (m k)"
  using db_get_view by (auto simp: serving_def locked_read_def)

text \<open>The three commands on data; the rest does not touch the store.\<close>

lemma locked_set:
  assumes "serving crc l w m" and "ample (Suc n) (length k + length v + b) (guarded l) w" and "arg_fits k" and "arg_fits v"
    and "locked_write (put crc k v) l w = (r, l', w')"
  shows "outcome_traced r w w'" and "r = Ok () \<Longrightarrow> serving crc l' w' (m(k := Some v)) \<and> ample n b (guarded l') w'"
proof -
  from assms(1) obtain ess ws where inv: "db_inv crc (guarded l) w ess ws" "view ess ws = m" "\<not> poisoned l"
    by (auto simp: serving_def)
  then have op: "write_op crc (k, Some v) (guarded l) w = (r, guarded l', w')" "poisoned l' \<longleftrightarrow> r = Fail Panic"
    using assms(5) by (auto simp: locked_write_def write_op_def split: prod.splits)
  have "ample (Suc n) (entry_bytes (k, Some v) + b) (guarded l) w" using assms(2) by (simp add: value_bytes_def)
  note wr = write_op_outcome [OF inv(1) this arg_fits_write(2) [OF assms(3,4)] op(1)]
  show "outcome_traced r w w'" by (rule wr(1))
  show "r = Ok () \<Longrightarrow> serving crc l' w' (m(k := Some v)) \<and> ample n b (guarded l') w'"
    using wr(2,3) op(2) inv(2) by (auto simp: serving_def)
qed

lemma locked_del:
  assumes "serving crc l w m" and "ample (length keys + n) (args_bytes keys + b) (guarded l) w" and "\<forall>k \<in> set keys. arg_fits k"
    and "locked_write (del_keys crc keys 0) l w = (r, l', w')"
  shows "outcome_traced r w w'"
    and "r = Ok d \<Longrightarrow> serving crc l' w' (\<lambda>k. if k \<in> set keys then None else m k) \<and> ample n b (guarded l') w' \<and>
      d = int (card {k \<in> set keys. m k \<noteq> None})"
proof -
  from assms(1) obtain ess ws where inv: "db_inv crc (guarded l) w ess ws" "view ess ws = m" "\<not> poisoned l"
    by (auto simp: serving_def)
  then have op: "del_keys crc keys 0 (guarded l) w = (r, guarded l', w')" "poisoned l' \<longleftrightarrow> r = Fail Panic"
    using assms(4) by (auto simp: locked_write_def split: prod.splits)
  have fits: "\<forall>k \<in> set keys. write_fits (k, None)" using arg_fits_write(1) assms(3) by blast
  note eff = del_keys_effect [OF inv(1) assms(2) fits op(1), unfolded inv(2)]
  show "outcome_traced r w w'" using eff by blast
  show "r = Ok d \<Longrightarrow> serving crc l' w' (\<lambda>k. if k \<in> set keys then None else m k) \<and> ample n b (guarded l') w' \<and>
      d = int (card {k \<in> set keys. m k \<noteq> None})"
    using eff op(2) by (auto simp: serving_def)
qed

lemma names_distinct [simp]:
  "str ''GET'' \<noteq> str ''SET''" "str ''GET'' \<noteq> str ''DEL''" "str ''SET'' \<noteq> str ''DEL''"
  "str ''GET'' \<noteq> str ''PING''" "str ''GET'' \<noteq> str ''ECHO''" "str ''GET'' \<noteq> str ''QUIT''"
  "str ''GET'' \<noteq> str ''COMMAND''" "str ''SET'' \<noteq> str ''PING''" "str ''SET'' \<noteq> str ''ECHO''"
  "str ''SET'' \<noteq> str ''QUIT''" "str ''SET'' \<noteq> str ''COMMAND''" "str ''DEL'' \<noteq> str ''PING''"
  "str ''DEL'' \<noteq> str ''ECHO''" "str ''DEL'' \<noteq> str ''QUIT''" "str ''DEL'' \<noteq> str ''COMMAND''"
  "str ''QUIT'' \<noteq> str ''PING''" "str ''QUIT'' \<noteq> str ''ECHO''" "str ''QUIT'' \<noteq> str ''COMMAND''"
  "str ''COMMAND'' \<noteq> str ''PING''" "str ''COMMAND'' \<noteq> str ''ECHO''" "str ''PING'' \<noteq> str ''ECHO''"
  by (simp_all add: str_def)

text \<open>Only \<open>SET\<close> and \<open>DEL\<close> with the right number of arguments write.\<close>

definition is_write :: "bytes list \<Rightarrow> bool" where
  "is_write args \<longleftrightarrow> args \<noteq> [] \<and>
     (to_ascii_uppercase (hd args) = str ''SET'' \<and> length args = 3 \<or>
      to_ascii_uppercase (hd args) = str ''DEL'' \<and> 2 \<le> length args)"

lemma dispatch_effect:
  assumes sv: "serving crc l w m" and amp: "ample (length args + n) (args_bytes args + b) (guarded l) w"
    and fits: "\<forall>arg \<in> set args. arg_fits arg" and op: "dispatch crc args l w = (q, l', w')"
  shows "q = Ok (fst (redis args m)) \<and> serving crc l' w' (snd (redis args m)) \<and> ample n b (guarded l') w' \<and>
      undisturbed w w' \<or>
    (\<exists>s. q = refusal s \<and> stopped_by s w w' \<and> is_write args)"
proof (cases args)
  case Nil
  then show ?thesis using assms by (auto simp: dispatch_def redis_def)
next
  case (Cons arg rest)
  let ?name = "to_ascii_uppercase arg"
  have amp': "ample n b (guarded l) w" by (rule ample_less [OF amp]) simp_all
  consider (get) "?name = str ''GET''" "length rest = 1" | (set) "?name = str ''SET''" "length rest = 2"
    | (del) "?name = str ''DEL''" "rest \<noteq> []"
    | (other) "\<not> (?name = str ''GET'' \<and> length rest = 1)" "\<not> (?name = str ''SET'' \<and> length rest = 2)"
      "\<not> (?name = str ''DEL'' \<and> rest \<noteq> [])" by blast
  then show ?thesis
  proof cases
    case get
    then obtain k where "rest = [k]" by (auto simp: length_Suc_conv)
    then show ?thesis
      using get sv amp' op Cons serving_get [OF sv, of k]
      by (auto simp: dispatch_def redis_def redis_data_def reply_of_def)
  next
    case set
    then obtain k v where rest: "rest = [k, v]" by (auto simp: numeral_2_eq_2 length_Suc_conv)
    obtain r l1 w1 where lw: "locked_write (put crc k v) l w = (r, l1, w1)" by (metis prod_cases3)
    have q: "q = reply_of (\<lambda>u. Simple (str ''OK'')) r" "l' = l1" "w' = w1"
      using op Cons set rest lw by (auto simp: dispatch_def)
    have "ample (Suc n) (length k + length v + b) (guarded l) w"
      by (rule ample_less [OF amp]) (use Cons rest in simp_all)
    note eff = locked_set [OF sv this _ _ lw]
    show ?thesis
    proof (cases r)
      case (Ok u)
      then show ?thesis
        using eff q fits Cons rest set by (auto simp: reply_of_Ok redis_def redis_data_def)
    next
      case (Fail s)
      then show ?thesis
        using eff(1) q fits Cons rest set by (auto simp: reply_of_Fail is_write_def)
    qed
  next
    case del
    obtain r l1 w1 where lw: "locked_write (del_keys crc rest 0) l w = (r, l1, w1)" by (metis prod_cases3)
    have q: "q = reply_of Integer r" "l' = l1" "w' = w1"
      using op Cons del lw by (cases rest; auto simp: dispatch_def)+
    have "ample (length rest + n) (args_bytes rest + b) (guarded l) w"
      by (rule ample_less [OF amp]) (use Cons in simp_all)
    note eff = locked_del [OF sv this _ lw]
    show ?thesis
    proof (cases r)
      case (Ok d)
      then show ?thesis
        using eff q fits Cons del by (auto simp: reply_of_Ok redis_def redis_data_def)
    next
      case (Fail s)
      have "2 \<le> length args" using Cons del by (cases rest) auto
      then show ?thesis
        using eff(1) q fits Cons del Fail by (auto simp: reply_of_Fail is_write_def)
    qed
  next
    case other
    then have none: "redis_data ?name rest m = None" by (auto simp: redis_data_def)
    have "w' = w \<and> l' = l \<and> q = Ok (fst (redis args m))"
      using op other Cons none by (cases rest; auto simp: dispatch_def redis_def Let_def split: if_splits)
    moreover have "snd (redis args m) = m" using Cons none by (simp add: redis_def Let_def)
    ultimately show ?thesis using sv amp' by simp
  qed
qed

section \<open>Connections\<close>

text \<open>What a client gets for a sequence of commands, and what they do to the map.\<close>

fun session :: "bytes list list \<Rightarrow> kv \<Rightarrow> bytes \<times> kv" where
  "session [] m = ([], m)"
| "session (args # cmds) m =
     (case redis args m of
        (Nothing, m1) \<Rightarrow> session cmds m1
      | (Reply r, m1) \<Rightarrow> (case session cmds m1 of (out, m2) \<Rightarrow> (write_to r @ out, m2))
      | (Quit, m1) \<Rightarrow> (write_to (Simple (str ''OK'')), m1))"

lemma send_all: "capacity c = None \<Longrightarrow> send bs c = (Ok (), c\<lparr>sent := sent c @ bs\<rparr>)"
  by (simp add: send_def)

text \<open>One command of a connection whose output is accepted.\<close>

lemma serve_command:
  assumes "incoming c = \<lparr>pending = encode_command args @ rest, broken = b\<rparr>" and "command_fits args"
    and "capacity c = None" and "dispatch crc args l w = (q, l1, w1)"
  shows "serve crc c l w =
    (case q of
       Ok Nothing \<Rightarrow> serve crc (c\<lparr>incoming := \<lparr>pending = rest, broken = b\<rparr>\<rparr>) l1 w1
     | Ok (Reply r) \<Rightarrow>
         serve crc (c\<lparr>incoming := \<lparr>pending = rest, broken = b\<rparr>, sent := sent c @ write_to r\<rparr>) l1 w1
     | Ok Quit \<Rightarrow>
         (Ok (), c\<lparr>incoming := \<lparr>pending = rest, broken = b\<rparr>, sent := sent c @ write_to (Simple (str ''OK''))\<rparr>,
          l1, w1)
     | Fail s \<Rightarrow> (Fail s, c\<lparr>incoming := \<lparr>pending = rest, broken = b\<rparr>\<rparr>, l1, w1))"
  using assms
  by (subst serve.simps)
    (simp add: read_command_encode send_all del: write_to.simps split: res.split outcome.split)

lemma serve_nothing:
  "incoming c = \<lparr>pending = [], broken = None\<rparr> \<Longrightarrow> serve crc c l w = (Ok (), c, l, w)"
  by (subst serve.simps) (simp add: read_command_def read_nothing(1))

text \<open>What was sent stays sent.\<close>

lemma send_sent: "send bs c = (r, c') \<Longrightarrow> \<exists>out. sent c' = sent c @ out"
  by (auto simp: send_def split: option.splits prod.splits if_splits)

lemma serve_sent: "serve crc c l w = (r, c', l', w') \<Longrightarrow> \<exists>out. sent c' = sent c @ out"
proof (induction crc c l w rule: serve.induct)
  case (1 crc c l w)
  note run = 1(3) [unfolded serve.simps [of crc c l w]]
  show ?case
  proof (cases "read_command (incoming c)")
    case (Fail s)
    then show ?thesis
      using run by (auto split: stop.splits if_splits prod.splits dest: send_sent)
  next
    case (Ok x)
    obtain cmd rd where x: "x = (cmd, rd)" by (cases x)
    show ?thesis
    proof (cases cmd)
      case None
      then show ?thesis using run Ok x by auto
    next
      case (Some args)
      let ?c1 = "c\<lparr>incoming := rd\<rparr>"
      obtain q l1 w1 where d: "dispatch crc args l w = (q, l1, w1)" by (metis prod_cases3)
      show ?thesis
      proof (cases q)
        case q: (Ok out)
        show ?thesis
        proof (cases out)
          case Nothing
          then have "serve crc ?c1 l1 w1 = (r, c', l', w')" using run Ok x Some d q by simp
          from 1(1) [OF Ok x [symmetric] Some refl d [symmetric] q Nothing refl this] show ?thesis by simp
        next
          case (Reply rep)
          obtain p c2 where s: "send (write_to rep) ?c1 = (p, c2)" by force
          from send_sent [OF s] obtain o1 where o1: "sent c2 = sent c @ o1" by auto
          show ?thesis
          proof (cases p)
            case p: (Ok u)
            then have "serve crc c2 l1 w1 = (r, c', l', w')" using run Ok x Some d q Reply s by simp
            from 1(2) [OF Ok x [symmetric] Some refl d [symmetric] q Reply refl s [symmetric] p this] o1
            show ?thesis by auto
          qed (use run Ok x Some d q Reply s o1 in simp)
        next
          case Quit
          then show ?thesis
            using run Ok x Some d q by (auto split: prod.splits simp del: write_to.simps dest: send_sent)
        qed
      qed (use run Ok x Some d in auto)
    qed
  qed
qed

text \<open>
  The session goes as specified up to a command that writes, and there the store stops with \<open>s\<close>: an I/O error is
  the reply to that command, and the connection may go on; otherwise it ends.
\<close>

definition failed_at :: "nat \<Rightarrow> stop \<Rightarrow> bytes list list \<Rightarrow> kv \<Rightarrow> unit res \<Rightarrow> bytes \<Rightarrow> bool" where
  "failed_at n s cmds m r out \<longleftrightarrow> n < length cmds \<and> is_write (cmds ! n) \<and>
     (case s of
        Io e \<Rightarrow> \<exists>more. out = fst (session (take n cmds) m) @ write_to (server_error e) @ more
      | _ \<Rightarrow> r = Fail s \<and> out = fst (session (take n cmds) m))"

lemma failed_at_Suc:
  assumes "failed_at n s cmds m1 r out"
  shows "redis args m = (Nothing, m1) \<Longrightarrow> failed_at (Suc n) s (args # cmds) m r out"
    and "redis args m = (Reply rep, m1) \<Longrightarrow> failed_at (Suc n) s (args # cmds) m r (write_to rep @ out)"
proof -
  obtain out1 m2 where ses: "session (take n cmds) m1 = (out1, m2)" by force
  show "failed_at (Suc n) s (args # cmds) m r out" if "redis args m = (Nothing, m1)"
    using assms that ses by (cases s) (auto simp: failed_at_def simp del: write_to.simps)
  show "failed_at (Suc n) s (args # cmds) m r (write_to rep @ out)" if "redis args m = (Reply rep, m1)"
    using assms that ses by (cases s) (auto simp: failed_at_def simp del: write_to.simps)
qed

text \<open>What a list of commands can need of the store.\<close>

abbreviation ample_for :: "bytes list list \<Rightarrow> locked \<Rightarrow> world \<Rightarrow> bool" where
  "ample_for cmds l w \<equiv> ample (sum_list (map length cmds)) (sum_list (map args_bytes cmds)) (guarded l) w"

text \<open>A session that goes as specified, or stops at the first call that is not done.\<close>

definition session_ends :: "(bytes \<Rightarrow> u32) \<Rightarrow> bytes list list \<Rightarrow> kv \<Rightarrow> world \<Rightarrow> unit res \<Rightarrow> bytes \<Rightarrow> locked \<Rightarrow> world \<Rightarrow> bool" where
  "session_ends crc cmds m w r out l' w' \<longleftrightarrow>
     r = Ok () \<and> out = fst (session cmds m) \<and> serving crc l' w' (snd (session cmds m)) \<or>
     (\<exists>n s. first_fault s w \<and> failed_at n s cmds m r out)"

lemma session_ends_later:
  assumes "session_ends crc cmds m1 w1 r out l' w'" and "undisturbed w w1"
  shows "redis args m = (Nothing, m1) \<Longrightarrow> session_ends crc (args # cmds) m w r out l' w'"
    and "redis args m = (Reply rep, m1) \<Longrightarrow> session_ends crc (args # cmds) m w r (write_to rep @ out) l' w'"
proof -
  have f: "first_fault s w1 \<Longrightarrow> first_fault s w" for s by (rule undisturbed_first_fault [OF assms(2)])
  show "session_ends crc (args # cmds) m w r out l' w'" if "redis args m = (Nothing, m1)"
    using assms(1) f failed_at_Suc(1) [OF _ that] that unfolding session_ends_def by auto blast+
  show "session_ends crc (args # cmds) m w r (write_to rep @ out) l' w'" if "redis args m = (Reply rep, m1)"
    using assms(1) f failed_at_Suc(2) [OF _ that] that
    unfolding session_ends_def by (auto simp del: write_to.simps split: prod.splits) blast+
qed

lemma serve_session_effect:
  assumes "serving crc l w m" and "\<forall>args \<in> set cmds. command_fits args" and "ample_for cmds l w"
    and "incoming c = \<lparr>pending = concat (map encode_command cmds), broken = None\<rparr>"
    and "capacity c = None" and "serve crc c l w = (r, c', l', w')"
  shows "\<exists>out. sent c' = sent c @ out \<and> session_ends crc cmds m w r out l' w'"
  using assms
proof (induction cmds arbitrary: c l w m)
  case Nil
  then show ?case using serve_nothing [of c crc l w] by (auto simp: session_ends_def)
next
  case (Cons args cmds)
  let ?rest = "concat (map encode_command cmds)"
  let ?c1 = "c\<lparr>incoming := \<lparr>pending = ?rest, broken = None\<rparr>\<rparr>"
  have inc: "incoming c = \<lparr>pending = encode_command args @ ?rest, broken = None\<rparr>" using Cons.prems(4) by simp
  have fits: "command_fits args" "\<forall>arg \<in> set args. arg_fits arg" "\<forall>args \<in> set cmds. command_fits args"
    using Cons.prems(2) by (simp_all add: command_fits_def)
  obtain q l1 w1 where d: "dispatch crc args l w = (q, l1, w1)" by (metis prod_cases3)
  note run = serve_command [OF inc fits(1) Cons.prems(5) d]
  have "ample (length args + sum_list (map length cmds)) (args_bytes args + sum_list (map args_bytes cmds)) (guarded l) w"
    using Cons.prems(3) by simp
  from dispatch_effect [OF Cons.prems(1) this fits(2) d] show ?case
  proof (elim disjE exE conjE)
    fix s assume s: "q = refusal s" "stopped_by s w w1" "is_write args"
    have at: "failed_at 0 s (args # cmds) m r out"
      if "case s of Io e \<Rightarrow> \<exists>more. out = write_to (server_error e) @ more | _ \<Rightarrow> r = Fail s \<and> out = []" for out
      using that s(3) by (cases s) (simp_all add: failed_at_def)
    have "\<exists>out. sent c' = sent c @ out \<and> failed_at 0 s (args # cmds) m r out"
    proof (cases s)
      case (Io e)
      then have "serve crc (?c1\<lparr>sent := sent c @ write_to (server_error e)\<rparr>) l1 w1 = (r, c', l', w')"
        using run s(1) Cons.prems(6) by (simp add: refusal_def del: write_to.simps)
      from serve_sent [OF this] obtain more where "sent c' = sent c @ write_to (server_error e) @ more"
        by (auto simp del: write_to.simps)
      then show ?thesis using at [of "write_to (server_error e) @ more"] Io by auto
    next
      case Panic
      then show ?thesis using run s(1) Cons.prems(6) at [of "[]"] by (auto simp: refusal_def)
    next
      case Killed
      then show ?thesis using run s(1) Cons.prems(6) at [of "[]"] by (auto simp: refusal_def)
    qed
    then show ?thesis using stopped_first_fault [OF s(2)] unfolding session_ends_def by blast
  next
    let ?m1 = "snd (redis args m)"
    assume q: "q = Ok (fst (redis args m))" and ok: "serving crc l1 w1 ?m1"
      "ample (sum_list (map length cmds)) (sum_list (map args_bytes cmds)) (guarded l1) w1" "undisturbed w w1"
    obtain out where red: "redis args m = (out, ?m1)" by (cases "redis args m") simp
    then have qo: "q = Ok out" using q by (metis fst_conv)
    note ih = Cons.IH [OF ok(1) fits(3) ok(2)]
    show ?thesis
    proof (cases out)
      case Nothing
      have "serve crc ?c1 l1 w1 = (r, c', l', w')" using run qo Nothing Cons.prems(6) by simp
      from ih [OF _ _ this] Cons.prems(5) obtain out' where
        "sent c' = sent c @ out'" "session_ends crc cmds ?m1 w1 r out' l' w'" by auto
      then show ?thesis using session_ends_later(1) [OF _ ok(3)] red Nothing by blast
    next
      case (Reply rep)
      have "serve crc (?c1\<lparr>sent := sent c @ write_to rep\<rparr>) l1 w1 = (r, c', l', w')"
        using run qo Reply Cons.prems(6) by (simp del: write_to.simps)
      from ih [OF _ _ this] Cons.prems(5) obtain out' where
        "sent c' = sent c @ write_to rep @ out'" "session_ends crc cmds ?m1 w1 r out' l' w'"
        by (auto simp del: write_to.simps)
      then show ?thesis using session_ends_later(2) [OF _ ok(3)] red Reply by blast
    next
      case Quit
      then have "r = Ok ()" "sent c' = sent c @ write_to (Simple (str ''OK''))" "l' = l1" "w' = w1"
        using run qo Cons.prems(6) by (auto simp del: write_to.simps)
      moreover have "session (args # cmds) m = (write_to (Simple (str ''OK'')), ?m1)"
        using red Quit by (auto simp del: write_to.simps split: prod.splits)
      ultimately show ?thesis using ok(1) by (auto simp: session_ends_def)
    qed
  qed
qed

section \<open>What a command leaves on the disk\<close>

lemma write_op_leaves:
  assumes "db_inv crc db w ess ws" and "ample (Suc n) b db w" and "write_fits (k, v)"
    and "write_op crc (k, v) db w = (r, db', w')"
  shows "root w' = Directory"
    and "disk_view crc (dir w') (view ess ws) \<or> disk_view crc (dir w') ((view ess ws)(k := v))"
proof -
  have "room db" using assms(2) by (auto simp: ample_def room_for_room)
  note * = assms(1) this assms(3,4)
  show "root w' = Directory" by (rule write_op_root [OF *])
  show "disk_view crc (dir w') (view ess ws) \<or> disk_view crc (dir w') ((view ess ws)(k := v))"
  proof (cases "r = Ok ()")
    case True
    then show ?thesis using db_write_effect(2) [OF *] by (metis db_inv_store resting.inv_disk_view)
  next
    case False
    then show ?thesis using db_write_effect(1) [OF *] by blast
  qed
qed

text \<open>A \<open>DEL\<close> that is cut off has deleted some of the keys, those in front.\<close>

lemma del_keys_leaves:
  assumes "db_inv crc db w ess ws" and "ample (length keys) (args_bytes keys) db w"
    and "\<forall>k \<in> set keys. write_fits (k, None)" and "del_keys crc keys c db w = (r, db', w')"
  shows "root w' = Directory \<and>
    (\<exists>j \<le> length keys. disk_view crc (dir w') (\<lambda>k. if k \<in> set (take j keys) then None else view ess ws k))"
  using assms
proof (induction keys arbitrary: c db w ess ws)
  case Nil
  then show ?case using resting.inv_disk_view [of crc db w ess ws] by (simp add: db_inv_store store_inv_def)
next
  case (Cons key keys)
  let ?m = "view ess ws"
  let ?without = "\<lambda>m ks k. if k \<in> set ks then None else m k"
  have get: "db_get db key = Ok (?m key)" using db_get_view [OF Cons.prems(1)] .
  have fits: "\<forall>k \<in> set keys. write_fits (k, None)" using Cons.prems(3) by simp
  have amp: "ample (Suc (length keys)) (length key + args_bytes keys) db w" using Cons.prems(2) by simp
  have later: ?case if "root w' = Directory" "j \<le> length keys" "disk_view crc (dir w') (?without (?m(key := None)) (take j keys))" for j
  proof -
    have "?without (?m(key := None)) (take j keys) = ?without ?m (take (Suc j) (key # keys))" by auto
    then show ?thesis using that by (intro conjI exI [of _ "Suc j"]) simp_all
  qed
  show ?case
  proof (cases "?m key")
    case None
    have "ample (length keys) (args_bytes keys) db w" by (rule ample_less [OF amp]) simp_all
    moreover have "del_keys crc keys c db w = (r, db', w')" using Cons.prems(4) get None by simp
    ultimately obtain j where j: "root w' = Directory" "j \<le> length keys" "disk_view crc (dir w') (?without ?m (take j keys))"
      using Cons.IH [OF Cons.prems(1) _ fits] by blast
    have "disk_view crc (dir w') (?without (?m(key := None)) (take j keys))" using j(3) fun_upd_idem [of ?m key, OF None] by (simp only:)
    then show ?thesis by (rule later [OF j(1,2)])
  next
    case (Some val)
    obtain q db1 w1 where op: "delete crc key db w = (q, db1, w1)" by (metis prod_cases3)
    then have wop: "write_op crc (key, None) db w = (q, db1, w1)" by (simp add: write_op_def)
    have kf: "write_fits (key, None)" using Cons.prems(3) by simp
    note lv = write_op_leaves [OF Cons.prems(1) amp kf wop]
    show ?thesis
    proof (cases q)
      case (Fail s)
      then have "w' = w1" using op Cons.prems(4) get Some by auto
      have "?m(key := None) = ?without ?m (take (Suc 0) (key # keys))" by (auto simp: fun_eq_iff)
      note first = subst [where P = "disk_view crc (dir w1)", OF this]
      from lv(2) show ?thesis
      proof
        assume "disk_view crc (dir w1) ?m"
        then show ?thesis using lv(1) \<open>w' = w1\<close> by (intro conjI exI [of _ 0]) simp_all
      next
        assume "disk_view crc (dir w1) (?m(key := None))"
        from first [OF this] show ?thesis using lv(1) \<open>w' = w1\<close> by (intro conjI exI [of _ "Suc 0"]) simp_all
      qed
    next
      case (Ok u)
      have "ample (Suc (length keys)) (entry_bytes (key, None) + args_bytes keys) db w" using amp by (simp add: value_bytes_def)
      note wr = write_op_outcome(2,3) [OF Cons.prems(1) this kf wop]
      obtain ess1 ws1 where two: "db_inv crc db1 w1 ess1 ws1" "view ess1 ws1 = ?m(key := None)" using wr(1) Ok by auto
      have "del_keys crc keys (c + 1) db1 w1 = (r, db', w')" using Cons.prems(4) get Some op Ok by simp
      moreover have "ample (length keys) (args_bytes keys) db1 w1" using wr(2) Ok by simp
      ultimately obtain j where j: "root w' = Directory" "j \<le> length keys"
        "disk_view crc (dir w') (?without (view ess1 ws1) (take j keys))" using Cons.IH [OF two(1) _ fits] by blast
      show ?thesis by (rule later [OF j(1,2)]) (use j(3) in \<open>simp only: two(2)\<close>)
    qed
  qed
qed

text \<open>
  Whatever happens during a command, the directory stands for the map as the command would have left it, had it had only
  some of its arguments: for all of the command or, if it is cut off, for nothing of it or the keys in front of a \<open>DEL\<close>.
\<close>

lemma dispatch_leaves:
  assumes sv: "serving crc l w m" and amp: "ample (length args) (args_bytes args) (guarded l) w"
    and fits: "\<forall>arg \<in> set args. arg_fits arg" and op: "dispatch crc args l w = (q, l', w')"
  shows "root w' = Directory \<and> (\<exists>j \<le> length args. disk_view crc (dir w') (snd (redis (take j args) m)))"
proof -
  from sv obtain ess ws where inv: "db_inv crc (guarded l) w ess ws" "view ess ws = m" "\<not> poisoned l"
    by (auto simp: serving_def)
  have rest: "root v = Directory" "disk_view crc (dir v) m'" if "serving crc l1 v m'" for l1 v m'
    using that resting.inv_disk_view [of crc "guarded l1" v] by (auto simp: serving_def db_inv_store store_inv_def)
  have none: "snd (redis (take 0 args) m) = m" by (simp add: redis_def)
  show ?thesis
  proof (cases "is_write args")
    case False
    have "ample (length args + 0) (args_bytes args + 0) (guarded l) w" using amp by simp
    from dispatch_effect [OF sv this fits op] False have "serving crc l' w' (snd (redis args m))" by blast
    then show ?thesis using rest by (intro conjI exI [of _ "length args"]) auto
  next
    case True
    then obtain arg rst where Cons: "args = arg # rst" by (cases args) (auto simp: is_write_def)
    show ?thesis
    proof (cases "to_ascii_uppercase arg = str ''SET''")
      case set: True
      then obtain k v where rst: "rst = [k, v]" using True Cons by (auto simp: is_write_def numeral_3_eq_3 length_Suc_conv names_distinct simp del: str_simps)
      obtain r l1 w1 where lw: "locked_write (put crc k v) l w = (r, l1, w1)" by (metis prod_cases3)
      have "w' = w1" using op Cons set rst lw by (auto simp: dispatch_def)
      then have "write_op crc (k, Some v) (guarded l) w = (r, guarded l1, w')"
        using lw inv(3) by (auto simp: locked_write_def write_op_def split: prod.splits)
      moreover have "ample (Suc 2) (args_bytes args) (guarded l) w" using amp Cons rst by (simp add: numeral_eq_Suc)
      moreover have "write_fits (k, Some v)" using arg_fits_write(2) fits Cons rst by simp
      ultimately have "root w' = Directory" "disk_view crc (dir w') m \<or> disk_view crc (dir w') (m(k := Some v))"
        using write_op_leaves [OF inv(1)] inv(2) by blast+
      moreover have "snd (redis (take 3 args) m) = m(k := Some v)"
        using Cons rst set by (simp add: redis_def redis_data_def)
      ultimately show ?thesis using none Cons rst
        by (metis (no_types) le_refl length_Cons list.size(3) numeral_3_eq_3 zero_le)
    next
      case del: False
      then have name: "to_ascii_uppercase arg = str ''DEL''" "rst \<noteq> []" using True Cons by (auto simp: is_write_def)
      obtain r l1 w1 where lw: "locked_write (del_keys crc rst 0) l w = (r, l1, w1)" by (metis prod_cases3)
      have "w' = w1" using op Cons name lw by (cases rst; auto simp: dispatch_def)+
      then have dk: "del_keys crc rst 0 (guarded l) w = (r, guarded l1, w')"
        using lw inv(3) by (auto simp: locked_write_def split: prod.splits)
      have "ample (length rst) (args_bytes rst) (guarded l) w" by (rule ample_less [OF amp]) (use Cons in simp_all)
      moreover have "\<forall>k \<in> set rst. write_fits (k, None)" using arg_fits_write(1) fits Cons by simp
      ultimately obtain j where j: "root w' = Directory" "j \<le> length rst"
        "disk_view crc (dir w') (\<lambda>k. if k \<in> set (take j rst) then None else m k)"
        using del_keys_leaves [OF inv(1) _ _ dk] inv(2) by blast
      have "snd (redis (take (if j = 0 then 0 else Suc j) args) m) = (\<lambda>k. if k \<in> set (take j rst) then None else m k)"
        using Cons name by (auto simp: redis_def redis_data_def)
      then show ?thesis using j Cons by (intro conjI exI [of _ "if j = 0 then 0 else Suc j"]) auto
    qed
  qed
qed

section \<open>What clients can rely on\<close>

text \<open>C28: every command does to the map of keys and values what it says: \<open>GET\<close> answers with the value,
  \<open>SET\<close> changes one key, \<open>DEL\<close> removes its keys and counts the ones that were there, once each, and
  everything else, wrong arities and unknown names included, leaves the store alone. It is otherwise only for a
  well-formed \<open>SET\<close> or \<open>DEL\<close> during which a system call is not done: the reply then has the error of that call, which
  was the last one, or the process was killed in it, and the next process opens the directory to the map as it is
  without the command or after it, or with some keys in front of the \<open>DEL\<close> removed. Sequence numbers and files are
  below their limits (\<open>ample\<close>).\<close>

theorem dispatch_refines_redis:
  assumes "db_inv crc (guarded l) w ess ws" and "\<not> poisoned l" and "ample (length args) (args_bytes args) (guarded l) w"
    and "\<forall>arg \<in> set args. arg_fits arg" and "dispatch crc args l w = (q, l', w')"
  shows "(q = Ok (fst (redis args (view ess ws))) \<and> \<not> poisoned l' \<and>
      (\<exists>ess' ws'. db_inv crc (guarded l') w' ess' ws' \<and> view ess' ws' = snd (redis args (view ess ws)))) \<or>
    (\<exists>s. q = refusal s \<and> stopped_by s w w' \<and> is_write args \<and>
      (\<exists>j \<le> length args. \<exists>db2 w2. with_config crc cfg (calm w') = (Ok db2, w2) \<and>
         db_get db2 = (\<lambda>k. Ok (snd (redis (take j args) (view ess ws)) k))))"
proof -
  have sv: "serving crc l w (view ess ws)" using assms(1,2) by (auto simp: serving_def)
  from dispatch_leaves [OF sv assms(3-5)] obtain j where "j \<le> length args"
    "root w' = Directory" "disk_view crc (dir w') (snd (redis (take j args) (view ess ws)))" by blast
  moreover from reopen_disk_view [OF this(3,2)] obtain db2 w2 where "with_config crc cfg (calm w') = (Ok db2, w2)"
    "\<forall>k. db_get db2 k = Ok (snd (redis (take j args) (view ess ws)) k)" by blast
  moreover from this(2) have "db_get db2 = (\<lambda>k. Ok (snd (redis (take j args) (view ess ws)) k))" by (simp add: fun_eq_iff)
  ultimately have "\<exists>j \<le> length args. \<exists>db2 w2. with_config crc cfg (calm w') = (Ok db2, w2) \<and>
      db_get db2 = (\<lambda>k. Ok (snd (redis (take j args) (view ess ws)) k))" by blast
  then show ?thesis using dispatch_effect [OF sv _ assms(4,5), of 0 0] assms(3) by (auto simp: serving_def)
qed

definition empty_locked :: locked where
  "empty_locked = \<lparr>guarded = empty_db, poisoned = False\<rparr>"

lemma empty_locked_simps [simp]: "guarded empty_locked = empty_db" "\<not> poisoned empty_locked"
  by (simp_all add: empty_locked_def)

lemma empty_ample: "n < 1000 \<Longrightarrow> b < 1000 \<Longrightarrow> dir w = [(WAL_NAME, [])] \<Longrightarrow> ample n b (guarded empty_locked) w"
  by (simp add: ample_def room_for_def space_for_def empty_db_def empty_set_def contents_def MAX_FILE_SIZE_def)

lemma dir_empty_store [simp]: "dir (empty_store faults) = [(WAL_NAME, [])]"
  by (simp add: empty_store_def)

text \<open>Without faults a \<open>SET\<close> goes through.\<close>

lemma dispatch_set_calm:
  assumes "env w = []" and "db_inv crc (guarded l) w ess ws" and "\<not> poisoned l" and "room (guarded l)"
    and "arg_fits k" and "arg_fits v" and "small_write (guarded l) w (k, Some v)"
  shows "\<exists>l' w'. dispatch crc [str ''SET'', k, v] l w = (Ok (Reply (Simple (str ''OK''))), l', w') \<and>
    serving crc l' w' ((view ess ws)(k := Some v))"
proof -
  obtain db' w' where op: "write_op crc (k, Some v) (guarded l) w = (Ok (), db', w')"
    using db_write_calm [OF assms(1,2,4) arg_fits_write(2) [OF assms(5,6)] assms(7)] by blast
  obtain ess' ws' where "db_inv crc db' w' ess' ws'" "view ess' ws' = (view ess ws)(k := Some v)"
    using db_write_effect(2) [OF assms(2,4) arg_fits_write(2) [OF assms(5,6)] op refl] by blast
  moreover have "dispatch crc [str ''SET'', k, v] l w =
      (Ok (Reply (Simple (str ''OK''))), \<lparr>guarded = db', poisoned = False\<rparr>, w')"
  proof -
    have "to_ascii_uppercase (str ''SET'') = str ''SET''" by (simp add: to_ascii_uppercase_def str_def)
    then show ?thesis
      using op assms(3)
      by (simp add: dispatch_def locked_write_def write_op_def reply_of_def not_sym [OF names_distinct(1)])
  qed
  ultimately show ?thesis by (auto simp: serving_def)
qed

lemma demo_arg_fits: "arg_fits [1]" "arg_fits [7]" "arg_fits (str ''SET'')" "arg_fits (str ''GET'')"
  by (simp_all add: arg_fits_def MAX_BULK_LEN_def)

theorem dispatch_refines_redis_witness:
  "\<exists>l' w'. dispatch (\<lambda>bs. 0) [str ''SET'', [1], [7]] empty_locked (empty_store []) =
       (Ok (Reply (Simple (str ''OK''))), l', w') \<and> db_get (guarded l') [1] = Ok (Some [7])"
proof -
  let ?args = "[str ''SET'', [1], [7]]"
  obtain q l' w' where op: "dispatch (\<lambda>bs. 0) ?args empty_locked (empty_store []) = (q, l', w')" by (metis prod_cases3)
  have inv: "db_inv (\<lambda>bs. 0) (guarded empty_locked) (empty_store []) [] []"
    using empty_store_inv by simp
  have red: "redis ?args (view [] []) = (Reply (Simple (str ''OK'')), (view [] [])([1] := Some [7]))"
    by (simp add: redis_def redis_data_def to_ascii_uppercase_def str_def)
  have "ample (length ?args) (args_bytes ?args) (guarded empty_locked) (empty_store [])" by (rule empty_ample) simp_all
  from dispatch_refines_redis [OF inv empty_locked_simps(2) this _ op, of default_config] demo_arg_fits
  have "q = Ok (fst (redis ?args (view [] []))) \<and>
      (\<exists>ess' ws'. db_inv (\<lambda>bs. 0) (guarded l') w' ess' ws' \<and> view ess' ws' = snd (redis ?args (view [] [])))"
    by (auto simp del: str_simps)
  then obtain ess' ws' where "q = Ok (Reply (Simple (str ''OK'')))" "db_inv (\<lambda>bs. 0) (guarded l') w' ess' ws'"
    "view ess' ws' = (view [] [])([1] := Some [7])" using red by auto
  then show ?thesis using op db_get_view [of "\<lambda>bs. 0" "guarded l'" w' ess' ws' "[1]"] by auto
qed

text \<open>C24: a connection is served in order. What a client sends in one go is answered command by command as
  the map prescribes, in one stream without gaps, and the store ends up with the map that the commands give. It is
  otherwise only if a system call is not done: the first such call happens in a command that writes; everything before
  that command has been answered as it should, and the reply to it has the error of that call, unless the process was
  killed.\<close>

theorem connection_refines_session:
  assumes "db_inv crc (guarded l) w ess ws" and "\<not> poisoned l"
    and "ample_for cmds l w" and "\<forall>args \<in> set cmds. command_fits args"
    and "incoming c = \<lparr>pending = concat (map encode_command cmds), broken = None\<rparr>"
    and "capacity c = None" and "serve crc c l w = (r, c', l', w')"
  shows "\<exists>out. sent c' = sent c @ out \<and>
    (r = Ok () \<and> out = fst (session cmds (view ess ws)) \<and>
       (\<exists>ess' ws'. db_inv crc (guarded l') w' ess' ws' \<and> view ess' ws' = snd (session cmds (view ess ws))) \<or>
     (\<exists>n s. first_fault s w \<and> failed_at n s cmds (view ess ws) r out))"
proof -
  have "serving crc l w (view ess ws)" using assms(1,2) by (auto simp: serving_def)
  from serve_session_effect [OF this assms(4,3,5-7)] show ?thesis by (auto simp: serving_def session_ends_def)
qed

theorem connection_refines_session_witness:
  "\<exists>c' l' w'.
     serve (\<lambda>bs. 0) \<lparr>incoming = \<lparr>pending = concat (map encode_command [[str ''SET'', [1], [7]], [str ''GET'', [1]]]),
         broken = None\<rparr>, sent = [], capacity = None\<rparr> empty_locked (empty_store []) = (Ok (), c', l', w') \<and>
     sent c' = write_to (Simple (str ''OK'')) @ write_to (Bulk [7])"
proof -
  let ?cmds = "[[str ''SET'', [1], [7]], [str ''GET'', [1]]]"
  let ?c = "\<lparr>incoming = \<lparr>pending = concat (map encode_command ?cmds), broken = None\<rparr>, sent = [], capacity = None\<rparr>"
  have ses: "fst (session ?cmds (view [] [])) = write_to (Simple (str ''OK'')) @ write_to (Bulk [7])"
    by (simp add: redis_def redis_data_def to_ascii_uppercase_def str_def del: write_to.simps)
  have inv: "db_inv (\<lambda>bs. 0) (guarded empty_locked) (empty_store []) [] []" using empty_store_inv by simp
  have fits: "\<forall>args \<in> set ?cmds. command_fits args"
    using demo_arg_fits by (simp add: command_fits_def MAX_ARGS_def)
  have amp: "ample_for ?cmds empty_locked (empty_store [])" by (rule empty_ample) simp_all
  obtain r c' l' w' where op: "serve (\<lambda>bs. 0) ?c empty_locked (empty_store []) = (r, c', l', w')"
    by (metis prod_cases4)
  from connection_refines_session [OF inv empty_locked_simps(2) amp fits _ _ op]
  have "r = Ok () \<and> sent c' = fst (session ?cmds (view [] []))" by auto
  then show ?thesis unfolding ses using op by blast
qed

text \<open>C33: progress of the server: without faults, a client that sets a key and gets it back is answered
  with \<open>OK\<close> and with the value, whatever bytes that has.\<close>

theorem set_then_get_served:
  assumes "env w = []" and "db_inv crc (guarded l) w ess ws" and "\<not> poisoned l" and "room (guarded l)"
    and "arg_fits k" and "arg_fits v" and "small_write (guarded l) w (k, Some v)"
    and "incoming c = \<lparr>pending = encode_command [str ''SET'', k, v] @ encode_command [str ''GET'', k], broken = None\<rparr>"
    and "capacity c = None"
  shows "\<exists>c' l' w'. serve crc c l w = (Ok (), c', l', w') \<and>
    sent c' = sent c @ write_to (Simple (str ''OK'')) @ write_to (Bulk v)"
proof -
  let ?get = "encode_command [str ''GET'', k]"
  obtain l1 w1 where d: "dispatch crc [str ''SET'', k, v] l w = (Ok (Reply (Simple (str ''OK''))), l1, w1)"
    "serving crc l1 w1 ((view ess ws)(k := Some v))"
    using dispatch_set_calm [OF assms(1-7)] by blast
  have fits: "command_fits [str ''SET'', k, v]" "command_fits [str ''GET'', k]"
    using assms(5,6) demo_arg_fits by (simp_all add: command_fits_def MAX_ARGS_def)
  let ?c1 = "c\<lparr>incoming := \<lparr>pending = ?get @ [], broken = None\<rparr>, sent := sent c @ write_to (Simple (str ''OK''))\<rparr>"
  have one: "serve crc c l w = serve crc ?c1 l1 w1"
    using serve_command [OF _ fits(1) assms(9) d(1), of ?get None] assms(8) by (simp del: write_to.simps)
  have "dispatch crc [str ''GET'', k] l1 w1 = (Ok (Reply (Bulk v)), l1, w1)"
  proof -
    have "to_ascii_uppercase (str ''GET'') = str ''GET''" by (simp add: to_ascii_uppercase_def str_def)
    then show ?thesis using serving_get [OF d(2), of k] by (simp add: dispatch_def reply_of_def)
  qed
  from serve_command [OF _ fits(2) _ this, of ?c1 "[]" None] assms(9)
  have "serve crc ?c1 l1 w1 =
      serve crc (?c1\<lparr>incoming := \<lparr>pending = [], broken = None\<rparr>, sent := sent ?c1 @ write_to (Bulk v)\<rparr>) l1 w1"
    by (simp del: write_to.simps)
  then show ?thesis using one serve_nothing by (simp del: write_to.simps)
qed

theorem set_then_get_served_witness:
  "\<exists>c' l' w'. serve (\<lambda>bs. 0) \<lparr>incoming = \<lparr>pending = encode_command [str ''SET'', [1], [7]] @ encode_command [str ''GET'', [1]],
       broken = None\<rparr>, sent = [], capacity = None\<rparr> empty_locked (empty_store []) = (Ok (), c', l', w') \<and>
     sent c' = write_to (Simple (str ''OK'')) @ write_to (Bulk [7])"
  using set_then_get_served [of "empty_store []" "\<lambda>bs. 0" empty_locked "[]" "[]" "[1]" "[7]"
      "\<lparr>incoming = \<lparr>pending = encode_command [str ''SET'', [1], [7]] @ encode_command [str ''GET'', [1]],
        broken = None\<rparr>, sent = [], capacity = None\<rparr>"]
    empty_store_inv empty_store_room demo_arg_fits demo_small(1) by (simp del: write_to.simps)

text \<open>C36: the answer to an unknown command repeats its name, line feeds included. A client that sends a
  name with a line feed takes the answer for the end of one reply and the rest of the name for the next.\<close>

theorem unknown_command_splits_reply:
  assumes "valid_utf8 (pre @ 10 # post)" and "10 \<notin> set pre"
  shows "\<exists>rep. dispatch crc [pre @ 10 # post] l w = (Ok (Reply rep), l, w) \<and>
    consume_reply \<lparr>pending = write_to rep, broken = None\<rparr> = Ok \<lparr>pending = post @ [39, 13, 10], broken = None\<rparr>"
proof -
  let ?name = "pre @ 10 # post"
  have "10 \<in> set (to_ascii_uppercase ?name)" by (simp add: to_ascii_uppercase_def)
  then have "to_ascii_uppercase ?name \<notin> {str ''PING'', str ''QUIT'', str ''COMMAND'', str ''ECHO'',
      str ''GET'', str ''SET'', str ''DEL''}" by (auto simp: str_def)
  then have "dispatch crc [?name] l w = (Ok (Reply (unknown_command ?name)), l, w)"
    by (simp add: dispatch_def)
  moreover have "write_to (unknown_command ?name) =
      45 # (str ''ERR unknown command '' @ [39] @ pre) @ 10 # (post @ [39, 13, 10])"
    using from_utf8_lossy_valid [OF assms(1)] by (simp add: unknown_command_def CRLF_def)
  moreover have "10 \<notin> set (str ''ERR unknown command '' @ [39] @ pre)"
    using assms(2) by (simp add: str_def)
  ultimately show ?thesis using consume_split_text by metis
qed

theorem unknown_command_splits_reply_witness:
  "\<exists>rep. dispatch (\<lambda>bs. 0) [str ''A'' @ 10 # str ''+OK''] empty_locked (empty_store []) =
       (Ok (Reply rep), empty_locked, empty_store []) \<and>
     consume_reply \<lparr>pending = write_to rep, broken = None\<rparr> =
       Ok \<lparr>pending = str ''+OK'' @ [39, 13, 10], broken = None\<rparr>"
  by (rule unknown_command_splits_reply) (auto simp: str_def intro!: valid_utf8_ascii)

text \<open>A panic under the lock ends every command on data from then on.\<close>

lemma poisoned_lock_panics:
  "poisoned l \<Longrightarrow> to_ascii_uppercase name \<in> {str ''GET''} \<Longrightarrow> dispatch crc [name, k] l w = (Fail Panic, l, w)"
  "poisoned l \<Longrightarrow> to_ascii_uppercase name \<in> {str ''SET''} \<Longrightarrow> dispatch crc [name, k, v] l w = (Fail Panic, l, w)"
  by (simp_all add: dispatch_def locked_read_def locked_write_def reply_of_def not_sym [OF names_distinct(1)])

end
