(* ===== verification/Reply_Types.thy ===== *)
theory Reply_Types
  imports Server
begin

text \<open>
  The types of the replies. The model has bytes where \<^verbatim>\<open>src/src/resp.rs\<close> has \<open>String\<close> and integers where it has
  \<open>i64\<close>; here it is shown that what \<open>dispatch\<close> builds would fit the types of the code: every text is UTF-8,
  whatever bytes came over the wire, and every number is in range.
\<close>

fun typed_reply :: "reply \<Rightarrow> bool" where
  "typed_reply (Simple msg) \<longleftrightarrow> valid_utf8 msg"
| "typed_reply (Error msg) \<longleftrightarrow> valid_utf8 msg"
| "typed_reply (Integer n) \<longleftrightarrow> - (2 ^ 63) \<le> n \<and> n < 2 ^ 63"
| "typed_reply (Bulk bs) \<longleftrightarrow> True"
| "typed_reply Nil_reply \<longleftrightarrow> True"
| "typed_reply (Array items) \<longleftrightarrow> list_all typed_reply items"

text \<open>A literal of ASCII characters is UTF-8.\<close>

lemma valid_utf8_str: "list_all (\<lambda>b. b < 0x80) (str s) \<Longrightarrow> valid_utf8 (str s)"
  by (rule valid_utf8_ascii) (simp add: list_all_iff)

lemma literals_valid:
  "valid_utf8 (str ''OK'')" "valid_utf8 (str ''PONG'')" "valid_utf8 (str ''ERR '')"
  "valid_utf8 (str ''ERR wrong number of arguments for '')" "valid_utf8 (str '' command'')"
  "valid_utf8 (str ''ERR unknown command '')" "valid_utf8 [39]"
  "valid_utf8 (str ''ERR Protocol error: '')"
  by (simp_all add: valid_utf8_ascii)

lemma typed_wrong_arity:
  assumes "name \<in> {str ''PING'', str ''ECHO'', str ''GET'', str ''SET'', str ''DEL''}"
  shows "typed_reply (wrong_arity name)"
proof -
  have "list_all (\<lambda>b. b < 0x80) (to_ascii_lowercase name)"
    using assms by (auto simp: to_ascii_lowercase_def)
  then have "valid_utf8 (to_ascii_lowercase name)" by (intro valid_utf8_ascii) (simp add: list_all_iff)
  then show ?thesis
    by (simp add: wrong_arity_def valid_utf8_append literals_valid del: str_simps append_Cons)
qed

lemma typed_unknown_command: "typed_reply (unknown_command arg)"
  by (simp add: unknown_command_def valid_utf8_append literals_valid valid_from_utf8_lossy del: str_simps append_Cons)

lemma typed_server_error: "valid_utf8 (message e) \<Longrightarrow> typed_reply (server_error e)"
  by (simp add: server_error_def valid_utf8_append literals_valid del: str_simps)

lemma typed_value_reply: "typed_reply (value_reply v)"
  by (cases v) simp_all

text \<open>The replies that the commands have by their meaning.\<close>

lemma typed_redis:
  assumes "fst (redis args m) = Reply rep" and "length args < 2 ^ 63"
  shows "typed_reply rep"
proof -
  let ?name = "to_ascii_uppercase (hd args)"
  have count: "typed_reply (Integer (int (card {k \<in> set (tl args). m k \<noteq> None})))"
  proof -
    have "card {k \<in> set (tl args). m k \<noteq> None} \<le> card (set (tl args))" by (intro card_mono) auto
    also have "... \<le> length args" using card_length [of "tl args"] by simp
    finally have "card {k \<in> set (tl args). m k \<noteq> None} < 2 ^ 63" using assms(2) by linarith
    then show ?thesis by simp
  qed
  consider (get) "rep = value_reply (m (hd (tl args)))" | (simple) "rep = Simple (str ''OK'') \<or> rep = Simple (str ''PONG'')"
    | (del) "rep = Integer (int (card {k \<in> set (tl args). m k \<noteq> None}))" | (bulk) bs where "rep = Bulk bs"
    | (array) "rep = Array []"
    | (arity) "?name \<in> {str ''PING'', str ''ECHO'', str ''GET'', str ''SET'', str ''DEL''}" "rep = wrong_arity ?name"
    | (unknown) "rep = unknown_command (hd args)"
    using assms(1) unfolding redis_def redis_data_def Let_def
    by (auto simp del: str_simps insert_iff split: if_split_asm prod.split_asm option.split_asm)
  then show ?thesis
  proof cases
    case simple
    then show ?thesis using literals_valid by (auto simp del: str_simps)
  next
    case del
    then show ?thesis using count by (simp only:)
  qed (simp_all add: typed_value_reply typed_wrong_arity typed_unknown_command del: str_simps)
qed

section \<open>Properties\<close>

text \<open>C30: replies are well typed. Whatever bytes the arguments of a command are, the texts of the reply that
  \<open>dispatch\<close> builds are UTF-8, as \<open>String\<close> requires, and the count of \<open>DEL\<close> fits into an \<open>i64\<close>. What is assumed of
  texts is only that the operating system describes its errors in UTF-8.\<close>

theorem dispatch_reply_typed:
  assumes "db_inv crc (guarded l) w ess ws" and "\<not> poisoned l" and "ample (length args) (args_bytes args) (guarded l) w"
    and "\<forall>arg \<in> set args. arg_fits arg" and "length args < 2 ^ 63"
    and "\<forall>e n. Fails e n \<in> set (env w) \<longrightarrow> valid_utf8 (message e)"
    and "dispatch crc args l w = (Ok (Reply rep), l', w')"
  shows "typed_reply rep"
proof -
  have sv: "serving crc l w (view ess ws)" using assms(1,2) by (auto simp: serving_def)
  have "ample (length args + 0) (args_bytes args + 0) (guarded l) w" using assms(3) by simp
  from dispatch_effect [OF sv this assms(4,7)] show ?thesis
  proof (elim disjE exE conjE)
    fix s assume "Ok (Reply rep) = refusal s" "stopped_by s w w'"
    then obtain e where "rep = server_error e" "first_fault (Io e) w"
      using stopped_first_fault by (cases s) (auto simp: refusal_def)
    then show ?thesis using first_fault_env(1) assms(6) typed_server_error by blast
  next
    assume "Ok (Reply rep) = Ok (fst (redis args (view ess ws)))"
    then show ?thesis using typed_redis [OF _ assms(5)] by simp
  qed
qed

text \<open>A name that is not UTF-8, to a store whose next call fails.\<close>

theorem dispatch_reply_typed_witness:
  "typed_reply (unknown_command [0xFF, 0xC3])"
proof -
  let ?w = "empty_store [Fails (IoError NotFound (str ''No such file'')) 0]"
  have op: "dispatch (\<lambda>bs. 0) [[0xFF, 0xC3]] empty_locked ?w
      = (Ok (Reply (unknown_command [0xFF, 0xC3])), empty_locked, ?w)"
    by (simp add: dispatch_def to_ascii_uppercase_def)
  have "db_inv (\<lambda>bs. 0) (guarded empty_locked) ?w [] []" using empty_store_inv by simp
  moreover have "ample (length [[0xFF, 0xC3] :: bytes]) (args_bytes [[0xFF, 0xC3]]) (guarded empty_locked) ?w"
    by (rule empty_ample) simp_all
  moreover have "arg_fits [0xFF, 0xC3]" by (simp add: arg_fits_def MAX_BULK_LEN_def)
  ultimately show ?thesis
    using dispatch_reply_typed [OF _ empty_locked_simps(2) _ _ _ _ op] by (simp add: valid_utf8_ascii)
qed

end
