(* ===== verification/Clients.thy ===== *)
theory Clients
  imports Server
begin

text \<open>
  Several connections at once. The server (\<^verbatim>\<open>src/src/server.rs\<close>) starts a thread for each connection; what they
  share is the store behind its lock, which a thread holds for one command. So the threads take turns:
  \<open>serve_one\<close> is one turn of the loop of \<open>serve_connection\<close>, and a schedule is the list of the threads in the
  order in which they come to their turns.
\<close>

section \<open>One turn of a connection\<close>

text \<open>\<open>Ok True\<close>: the loop goes on.\<close>

definition serve_one :: "(bytes \<Rightarrow> u32) \<Rightarrow> conn \<Rightarrow> locked \<Rightarrow> world \<Rightarrow> bool res \<times> conn \<times> locked \<times> world" where
  "serve_one crc c l w =
     (case read_command (incoming c) of
        Ok (None, r) \<Rightarrow> (Ok False, c\<lparr>incoming := r\<rparr>, l, w)
      | Fail (Io e) \<Rightarrow>
          if kind e = InvalidData then
            (case send (write_to (Error (str ''ERR Protocol error: '' @ message e))) c of
               (Ok u, c1) \<Rightarrow> (Ok False, c1, l, w)
             | (Fail s, c1) \<Rightarrow> (Fail s, c1, l, w))
          else (Fail (Io e), c, l, w)
      | Fail Panic \<Rightarrow> (Fail Panic, c, l, w)
      | Fail Killed \<Rightarrow> (Fail Killed, c, l, w)
      | Ok (Some args, r) \<Rightarrow>
          let c1 = c\<lparr>incoming := r\<rparr>
          in case dispatch crc args l w of
               (Fail s, l1, w1) \<Rightarrow> (Fail s, c1, l1, w1)
             | (Ok Nothing, l1, w1) \<Rightarrow> (Ok True, c1, l1, w1)
             | (Ok (Reply rep), l1, w1) \<Rightarrow>
                 (case send (write_to rep) c1 of
                    (Ok u, c2) \<Rightarrow> (Ok True, c2, l1, w1)
                  | (Fail s, c2) \<Rightarrow> (Fail s, c2, l1, w1))
             | (Ok Quit, l1, w1) \<Rightarrow>
                 (case send (write_to (Simple (str ''OK''))) c1 of
                    (Ok u, c2) \<Rightarrow> (Ok False, c2, l1, w1)
                  | (Fail s, c2) \<Rightarrow> (Fail s, c2, l1, w1)))"

text \<open>The loop is its turns, one after the other.\<close>

lemma serve_turns:
  "serve crc c l w =
     (case serve_one crc c l w of
        (Ok on, c1, l1, w1) \<Rightarrow> if on then serve crc c1 l1 w1 else (Ok (), c1, l1, w1)
      | (Fail s, c1, l1, w1) \<Rightarrow> (Fail s, c1, l1, w1))"
  by (subst serve.simps)
    (auto simp: serve_one_def Let_def simp del: write_to.simps
      split: res.split stop.split prod.split option.split outcome.split)

text \<open>
  The threads, with whether each is still running. A thread whose turn it is runs its loop once. When
  the process is killed there are no further turns.
\<close>

definition one_turn :: "(bytes \<Rightarrow> u32) \<Rightarrow> nat \<Rightarrow> (conn \<times> bool) list \<Rightarrow> locked \<Rightarrow> world \<Rightarrow>
    bool \<times> (conn \<times> bool) list \<times> locked \<times> world" where
  "one_turn crc i cs l w =
     (if i < length cs \<and> snd (cs ! i) then
        (case serve_one crc (fst (cs ! i)) l w of
           (q, c, l1, w1) \<Rightarrow> (q \<noteq> Fail Killed, cs[i := (c, q = Ok True)], l1, w1))
      else (True, cs, l, w))"

fun turns :: "(bytes \<Rightarrow> u32) \<Rightarrow> nat list \<Rightarrow> (conn \<times> bool) list \<Rightarrow> locked \<Rightarrow> world \<Rightarrow>
    (conn \<times> bool) list \<times> locked \<times> world" where
  "turns crc [] cs l w = (cs, l, w)"
| "turns crc (i # sched) cs l w =
     (case one_turn crc i cs l w of
        (alive, cs1, l1, w1) \<Rightarrow> if alive then turns crc sched cs1 l1 w1 else (cs1, l1, w1))"

text \<open>
  The loop of \<open>Server::run\<close>: what \<open>accept\<close> gives in each round, with the shutdown flag as the loop finds it
  then. The results are the connections that get a thread, in order, and the messages that are printed.
\<close>

datatype accepted = Connected conn | Accept_failed bytes

fun accept_loop :: "(bool \<times> accepted) list \<Rightarrow> conn list \<times> bytes list" where
  "accept_loop [] = ([], [])"
| "accept_loop ((shutdown, stream) # rounds) =
     (if shutdown then ([], [])
      else case accept_loop rounds of
        (cs, errs) \<Rightarrow>
          (case stream of
             Accept_failed e \<Rightarrow> (cs, (str ''lsmrs: accept failed: '' @ e) # errs)
           | Connected c \<Rightarrow> (c # cs, errs)))"

text \<open>A failed \<open>accept\<close> loses no other connection, and none is served from the round on that sees the flag.\<close>

lemma accept_loop_serves:
  "fst (accept_loop rounds) = [c. (_, Connected c) \<leftarrow> takeWhile (\<lambda>r. \<not> fst r) rounds]"
  by (induction rounds rule: accept_loop.induct) (auto split: prod.split accepted.split)

section \<open>The serial server\<close>

text \<open>What a client has still to send, and what it has been answered.\<close>

type_synonym client = "bytes list list \<times> bytes"

fun answer :: "outcome \<Rightarrow> bytes" where
  "answer Nothing = []"
| "answer (Reply r) = write_to r"
| "answer Quit = write_to (Simple (str ''OK''))"

declare answer.simps [simp del]

definition client_turn :: "nat \<Rightarrow> client list \<Rightarrow> kv \<Rightarrow> client list \<times> kv" where
  "client_turn i ps m =
     (if i < length ps then
        (case ps ! i of
           ([], out) \<Rightarrow> (ps, m)
         | (args # cmds, out) \<Rightarrow>
             (case redis args m of
                (a, m1) \<Rightarrow> (ps[i := (if a = Quit then [] else cmds, out @ answer a)], m1)))
      else (ps, m))"

fun serial :: "nat list \<Rightarrow> client list \<Rightarrow> kv \<Rightarrow> client list \<times> kv" where
  "serial [] ps m = (ps, m)"
| "serial (i # sched) ps m = (case client_turn i ps m of (ps1, m1) \<Rightarrow> serial sched ps1 m1)"

fun client_of :: "conn \<times> bool \<Rightarrow> client \<Rightarrow> bool" where
  "client_of (c, open) (cmds, out) \<longleftrightarrow>
     sent c = out \<and> capacity c = None \<and>
     (if open then incoming c = \<lparr>pending = concat (map encode_command cmds), broken = None\<rparr> \<and>
        list_all command_fits cmds
      else cmds = [])"

text \<open>A measure of commands, summed up over all that the clients have still to send.\<close>

definition still_to_send :: "(bytes list \<Rightarrow> nat) \<Rightarrow> client list \<Rightarrow> nat" where
  "still_to_send g ps = sum_list (map (\<lambda>p. sum_list (map g (fst p))) ps)"

definition clients_ok :: "(bytes \<Rightarrow> u32) \<Rightarrow> (conn \<times> bool) list \<times> locked \<times> world \<Rightarrow> client list \<times> kv \<Rightarrow> bool" where
  "clients_ok crc = (\<lambda>(cs, l, w) (ps, m).
     list_all2 client_of cs ps \<and> serving crc l w m \<and>
     ample (still_to_send length ps) (still_to_send args_bytes ps) (guarded l) w)"

text \<open>The turn of a thread whose command writes and meets a system call that is not done.\<close>

definition turn_fails :: "(bytes \<Rightarrow> u32) \<Rightarrow> nat \<Rightarrow> (conn \<times> bool) list \<times> locked \<times> world \<Rightarrow> bool" where
  "turn_fails crc i = (\<lambda>(cs, l, w). i < length cs \<and> snd (cs ! i) \<and>
     (\<exists>args r s l1 w1. read_command (incoming (fst (cs ! i))) = Ok (Some args, r) \<and> is_write args \<and>
        dispatch crc args l w = (refusal s, l1, w1) \<and> stopped_by s w w1))"

section \<open>The turns are serial\<close>

lemma serve_one_command:
  assumes "incoming c = \<lparr>pending = encode_command args @ rest, broken = b\<rparr>" and "command_fits args"
    and "capacity c = None" and "dispatch crc args l w = (Ok out, l1, w1)"
  shows "serve_one crc c l w =
    (Ok (out \<noteq> Quit), c\<lparr>incoming := \<lparr>pending = rest, broken = b\<rparr>, sent := sent c @ answer out\<rparr>, l1, w1)"
  using assms
  by (cases c; cases out)
    (simp_all add: serve_one_def read_command_encode send_all answer.simps del: write_to.simps)

lemma serve_one_nothing:
  "incoming c = \<lparr>pending = [], broken = None\<rparr> \<Longrightarrow> serve_one crc c l w = (Ok False, c, l, w)"
  by (cases c) (simp add: serve_one_def read_command_def read_nothing(1))

lemma still_to_send_update:
  assumes "i < length ps" and "ps ! i = (args # cmds, out)"
    and "sum_list (map g cmds') \<le> sum_list (map g cmds)"
  shows "g args + still_to_send g (ps[i := (cmds', out')]) \<le> still_to_send g ps"
proof -
  let ?f = "\<lambda>p :: client. sum_list (map g (fst p))"
  have "sum_list (map ?f ps) = ?f (ps ! i) + sum_list (map ?f (take i ps @ drop (Suc i) ps))"
    using assms(1) by (subst id_take_nth_drop [OF assms(1)]) simp
  moreover have "sum_list (map ?f (ps[i := (cmds', out')])) =
      sum_list (map g cmds') + sum_list (map ?f (take i ps @ drop (Suc i) ps))"
    using assms(1) by (simp add: upd_conv_take_nth_drop)
  ultimately show ?thesis using assms(2,3) by (simp add: still_to_send_def)
qed

lemma one_turn_effect:
  assumes ok: "clients_ok crc (cs, l, w) (ps, m)" and op: "one_turn crc i cs l w = (alive, cs', l', w')"
  shows "alive \<and> clients_ok crc (cs', l', w') (client_turn i ps m) \<or> turn_fails crc i (cs, l, w)"
proof -
  have R: "list_all2 client_of cs ps" "serving crc l w m"
    "ample (still_to_send length ps) (still_to_send args_bytes ps) (guarded l) w"
    using ok by (simp_all add: clients_ok_def)
  have len: "length ps = length cs" using R(1) by (simp add: list_all2_lengthD)
  show ?thesis
  proof (cases "i < length cs \<and> snd (cs ! i)")
    case False
    have "client_turn i ps m = (ps, m)"
    proof (cases "i < length cs")
      case True
      then have "client_of (cs ! i) (ps ! i)" using R(1) by (simp add: list_all2_nthD)
      then have "fst (ps ! i) = []" using False True by (cases "cs ! i"; cases "ps ! i") simp
      then show ?thesis by (cases "ps ! i") (simp add: client_turn_def)
    qed (simp add: client_turn_def len)
    then show ?thesis using op False ok by (simp add: one_turn_def)
  next
    case True
    obtain c where c: "cs ! i = (c, True)" using True by (cases "cs ! i") simp
    obtain cmds out where p: "ps ! i = (cmds, out)" by (cases "ps ! i")
    have "client_of (cs ! i) (ps ! i)" using R(1) True by (simp add: list_all2_nthD)
    then have C: "sent c = out" "capacity c = None" "list_all command_fits cmds"
      "incoming c = \<lparr>pending = concat (map encode_command cmds), broken = None\<rparr>" using c p by simp_all
    show ?thesis
    proof (cases cmds)
      case Nil
      then have "serve_one crc c l w = (Ok False, c, l, w)" using C(4) by (intro serve_one_nothing) simp
      then have "alive" "cs' = cs[i := (c, False)]" "l' = l" "w' = w" using op True c by (simp_all add: one_turn_def)
      moreover have "client_turn i ps m = (ps, m)" using p Nil by (simp add: client_turn_def)
      moreover have "list_all2 client_of (cs[i := (c, False)]) (ps[i := ps ! i])"
        using R(1) C p Nil by (intro list_all2_update_cong) simp_all
      ultimately show ?thesis using R by (simp add: clients_ok_def)
    next
      case (Cons args rest)
      let ?rest = "concat (map encode_command rest)"
      have inc: "incoming c = \<lparr>pending = encode_command args @ ?rest, broken = None\<rparr>" using C(4) Cons by simp
      have fits: "command_fits args" "\<forall>arg \<in> set args. arg_fits arg" using C(3) Cons by (simp_all add: command_fits_def)
      obtain q l1 w1 where d: "dispatch crc args l w = (q, l1, w1)" by (metis prod_cases3)
      have read: "read_command (incoming c) = Ok (Some args, \<lparr>pending = ?rest, broken = None\<rparr>)"
        unfolding inc by (rule read_command_encode [OF fits(1)])
      let ?a = "fst (redis args m)"
      let ?ps = "ps[i := (if ?a = Quit then [] else rest, out @ answer ?a)]"
      let ?c = "c\<lparr>incoming := \<lparr>pending = ?rest, broken = None\<rparr>, sent := sent c @ answer ?a\<rparr>"
      have "g args + still_to_send g ?ps \<le> still_to_send g ps" for g :: "bytes list \<Rightarrow> nat"
        by (rule still_to_send_update) (use True len p Cons in auto)
      then have "ample (length args + still_to_send length ?ps) (args_bytes args + still_to_send args_bytes ?ps) (guarded l) w"
        using ample_less [OF R(3)] by blast
      from dispatch_effect [OF R(2) this fits(2) d] show ?thesis
      proof (elim disjE exE conjE)
        fix s assume "q = refusal s" "stopped_by s w w1" "is_write args"
        then have "turn_fails crc i (cs, l, w)" unfolding turn_fails_def using True c read d by auto
        then show ?thesis by blast
      next
        assume a: "q = Ok ?a" and eff: "serving crc l1 w1 (snd (redis args m))"
          "ample (still_to_send length ?ps) (still_to_send args_bytes ?ps) (guarded l1) w1"
        have "serve_one crc c l w = (Ok (?a \<noteq> Quit), ?c, l1, w1)"
          using serve_one_command [OF inc fits(1) C(2)] d a by simp
        then have res: "alive" "cs' = cs[i := (?c, ?a \<noteq> Quit)]" "l' = l1" "w' = w1"
          using op True c by (auto simp: one_turn_def)
        have turn: "client_turn i ps m = (?ps, snd (redis args m))"
          using True len p Cons by (simp add: client_turn_def split: prod.split)
        have "list_all2 client_of (cs[i := (?c, ?a \<noteq> Quit)]) ?ps"
          using R(1) C Cons by (intro list_all2_update_cong) simp_all
        then show ?thesis using res turn eff by (simp add: clients_ok_def)
      qed
    qed
  qed
qed

section \<open>What concurrent clients can rely on\<close>

text \<open>C25: concurrent clients are served as if by one server that handles one command at a time. In whatever
  order the threads take their turns, every client has been answered exactly what the commands, in that
  order, give on one map, and the store has that map; it is otherwise only from the turn on in which a command that
  writes meets a system call that is not done.\<close>

theorem concurrent_clients_serial:
  assumes "clients_ok crc (cs, l, w) (ps, m)"
  shows "clients_ok crc (turns crc sched cs l w) (serial sched ps m) \<or>
    (\<exists>n < length sched. clients_ok crc (turns crc (take n sched) cs l w) (serial (take n sched) ps m) \<and>
       turn_fails crc (sched ! n) (turns crc (take n sched) cs l w))"
  using assms
proof (induction sched arbitrary: cs l w ps m)
  case Nil
  then show ?case by simp
next
  case (Cons i sched)
  obtain alive cs1 l1 w1 where t: "one_turn crc i cs l w = (alive, cs1, l1, w1)" by (metis prod_cases4)
  obtain ps1 m1 where c: "client_turn i ps m = (ps1, m1)" by force
  from one_turn_effect [OF Cons.prems t] show ?case
  proof
    assume "turn_fails crc i (cs, l, w)"
    then show ?thesis using Cons.prems by (intro disjI2 exI [of _ 0]) simp
  next
    assume "alive \<and> clients_ok crc (cs1, l1, w1) (client_turn i ps m)"
    then have alive: "alive" and "clients_ok crc (cs1, l1, w1) (ps1, m1)" using c by simp_all
    from Cons.IH [OF this(2)] show ?thesis
    proof
      assume "\<exists>n < length sched. clients_ok crc (turns crc (take n sched) cs1 l1 w1) (serial (take n sched) ps1 m1) \<and>
        turn_fails crc (sched ! n) (turns crc (take n sched) cs1 l1 w1)"
      then obtain n where "n < length sched"
        "clients_ok crc (turns crc (take n sched) cs1 l1 w1) (serial (take n sched) ps1 m1)"
        "turn_fails crc (sched ! n) (turns crc (take n sched) cs1 l1 w1)" by blast
      then show ?thesis using t c alive by (intro disjI2 exI [of _ "Suc n"]) simp
    qed (use t c alive in simp)
  qed
qed

lemma turn_fails_command:
  assumes "clients_ok crc (cs, l, w) (ps, m)" and "ps ! i = (args # cmds, out)" and "turn_fails crc i (cs, l, w)"
  shows "is_write args \<and> (\<exists>s. first_fault s w)"
proof -
  from assms(3) obtain args' r s w1 where f: "i < length cs" "snd (cs ! i)"
    "read_command (incoming (fst (cs ! i))) = Ok (Some args', r)" "is_write args'" "stopped_by s w w1"
    unfolding turn_fails_def prod.case by blast
  have "client_of (cs ! i) (args # cmds, out)"
    using assms(1,2) f(1) by (auto simp: clients_ok_def dest: list_all2_nthD)
  then have "incoming (fst (cs ! i)) = \<lparr>pending = encode_command args @ concat (map encode_command cmds), broken = None\<rparr>"
    "command_fits args" using f(2) by (cases "cs ! i"; simp)+
  then have "args' = args" using f(3) by (simp add: read_command_encode)
  then show ?thesis using f(4) stopped_first_fault [OF f(5)] by blast
qed

text \<open>Two clients: one sets a key, the other asks for it.\<close>

abbreviation "demo_set \<equiv> [str ''SET'', [1], [7]] :: bytes list"
abbreviation "demo_get \<equiv> [str ''GET'', [1]] :: bytes list"

abbreviation demo_conn :: "bytes list \<Rightarrow> conn" where
  "demo_conn args \<equiv> \<lparr>incoming = \<lparr>pending = encode_command args, broken = None\<rparr>, sent = [], capacity = None\<rparr>"

theorem concurrent_clients_serial_witness:
  "\<exists>cs' l' w'. turns (\<lambda>bs. 0) [0, 1] [(demo_conn demo_set, True), (demo_conn demo_get, True)] empty_locked
       (empty_store []) = (cs', l', w') \<and>
     sent (fst (cs' ! 0)) = write_to (Simple (str ''OK'')) \<and> sent (fst (cs' ! 1)) = write_to (Bulk [7])"
proof -
  let ?crc = "\<lambda>bs :: bytes. 0 :: u32"
  let ?cs = "[(demo_conn demo_set, True), (demo_conn demo_get, True)]"
  let ?ps = "[([demo_set], []), ([demo_get], [])] :: client list"
  let ?m = "view [] [] :: kv"
  have upper: "to_ascii_uppercase (str ''SET'') = str ''SET''" "to_ascii_uppercase (str ''GET'') = str ''GET''"
    by (simp_all add: to_ascii_uppercase_def str_def)
  have red: "redis demo_set ?m = (Reply (Simple (str ''OK'')), ?m([1] := Some [7]))"
    "redis demo_get (?m([1] := Some [7])) = (Reply (Bulk [7]), ?m([1] := Some [7]))"
    by (simp_all add: redis_def redis_data_def to_ascii_uppercase_def str_def)
  have fits: "command_fits demo_set" "command_fits demo_get"
    using demo_arg_fits by (simp_all add: command_fits_def MAX_ARGS_def)
  have inv: "db_inv ?crc (guarded empty_locked) (empty_store []) [] []" using empty_store_inv by simp
  have ok: "clients_ok ?crc (?cs, empty_locked, empty_store []) (?ps, ?m)"
    using fits inv empty_ample by (auto simp: clients_ok_def serving_def still_to_send_def)
  have ser: "serial [0] ?ps ?m = ([([], write_to (Simple (str ''OK''))), ([demo_get], [])], ?m([1] := Some [7]))"
    "serial [0, 1] ?ps ?m = ([([], write_to (Simple (str ''OK''))), ([], write_to (Bulk [7]))], ?m([1] := Some [7]))"
    by (simp_all add: client_turn_def red answer.simps del: write_to.simps str_simps fun_upd_apply)
  have one: "\<not> turn_fails ?crc 0 (?cs, empty_locked, empty_store [])"
    using turn_fails_command [OF ok nth_Cons_0] by (auto simp del: str_simps)
  have two: "\<not> turn_fails ?crc 1 (turns ?crc [0] ?cs empty_locked (empty_store []))"
    if k: "clients_ok ?crc (turns ?crc [0] ?cs empty_locked (empty_store [])) (serial [0] ?ps ?m)"
  proof
    obtain cs1 l1 w1 where t: "turns ?crc [0] ?cs empty_locked (empty_store []) = (cs1, l1, w1)" by (metis prod_cases3)
    assume f: "turn_fails ?crc 1 (turns ?crc [0] ?cs empty_locked (empty_store []))"
    have at_1: "[([], write_to (Simple (str ''OK''))), ([demo_get], [])] ! 1 = ([demo_get], [] :: bytes)" by simp
    have "is_write demo_get" using turn_fails_command [OF k [unfolded t ser(1)] at_1 f [unfolded t]] by blast
    then show False using upper by (simp add: is_write_def)
  qed
  have "clients_ok ?crc (turns ?crc [0, 1] ?cs empty_locked (empty_store [])) (serial [0, 1] ?ps ?m)"
    using concurrent_clients_serial [OF ok, of "[0, 1]"]
  proof
    assume "\<exists>n < length [0, 1 :: nat]. clients_ok ?crc (turns ?crc (take n [0, 1]) ?cs empty_locked (empty_store []))
        (serial (take n [0, 1]) ?ps ?m) \<and>
      turn_fails ?crc ([0, 1] ! n) (turns ?crc (take n [0, 1]) ?cs empty_locked (empty_store []))"
    then obtain n where n: "n < length [0, 1 :: nat]"
      "clients_ok ?crc (turns ?crc (take n [0, 1]) ?cs empty_locked (empty_store [])) (serial (take n [0, 1]) ?ps ?m)"
      "turn_fails ?crc ([0, 1] ! n) (turns ?crc (take n [0, 1]) ?cs empty_locked (empty_store []))" by blast
    then have "n = 0 \<or> n = 1" by auto
    then show ?thesis using n(2,3) one two by (elim disjE) (simp_all del: turns.simps(2) serial.simps(2))
  qed
  moreover obtain cs' l' w' where t: "turns ?crc [0, 1] ?cs empty_locked (empty_store []) = (cs', l', w')"
    by (metis prod_cases3)
  ultimately have "list_all2 client_of cs' [([], write_to (Simple (str ''OK''))), ([], write_to (Bulk [7]))]"
    unfolding ser by (simp only: clients_ok_def prod.case)
  then have "sent (fst (cs' ! 0)) = write_to (Simple (str ''OK''))" "sent (fst (cs' ! 1)) = write_to (Bulk [7])"
    by (auto simp: list_all2_Cons2 simp del: write_to.simps)
  then show ?thesis using t by blast
qed

end
