(* ===== verification/Cli.thy ===== *)
theory Cli
  imports Store Utf8
begin

text \<open>
  The command line: \<^verbatim>\<open>src/src/cli/mod.rs\<close> (parsing and execution of a line), \<^verbatim>\<open>src/src/error.rs\<close> (its errors)
  and the loop of \<^verbatim>\<open>src/src/main.rs\<close>. Lines are strings, that is valid UTF-8.
\<close>

section \<open>Errors and commands\<close>

datatype db_error = KeyNotFound | InvalidCommand bytes | Io_error io_error

fun display_error :: "db_error \<Rightarrow> bytes" where
  "display_error KeyNotFound = str ''key not found''"
| "display_error (InvalidCommand cmd) = str ''invalid command: '' @ cmd"
| "display_error (Io_error e) = str ''io error: '' @ message e"

datatype command = Get bytes | Put bytes bytes | Del bytes | Scan | Exit

definition invalid_command :: "string \<Rightarrow> db_error + 'a" where
  "invalid_command msg = Inl (InvalidCommand (str msg))"

definition parse :: "bytes \<Rightarrow> db_error + command" where
  "parse line =
     (case split_whitespace line of
        [] \<Rightarrow> Inl KeyNotFound
      | cmd # parts \<Rightarrow>
          if cmd = str ''GET'' then
            (case parts of [] \<Rightarrow> invalid_command ''GET requires a key'' | key # _ \<Rightarrow> Inr (Get key))
          else if cmd = str ''PUT'' then
            (case parts of
               [] \<Rightarrow> invalid_command ''PUT requires a key''
             | key # parts' \<Rightarrow>
                 (case parts' of
                    [] \<Rightarrow> invalid_command ''PUT requires a value''
                  | val # _ \<Rightarrow> Inr (Put key val)))
          else if cmd = str ''DEL'' then
            (case parts of [] \<Rightarrow> invalid_command ''PUT requires a key'' | key # _ \<Rightarrow> Inr (Del key))
          else if cmd = str ''SCAN'' then Inr Scan
          else if cmd = str ''EXIT'' then Inr Exit
          else Inl (InvalidCommand cmd))"

section \<open>Execution\<close>

text \<open>\<open>slice::join\<close> with a line feed.\<close>

fun join_lines :: "bytes list \<Rightarrow> bytes" where
  "join_lines [] = []"
| "join_lines [x] = x"
| "join_lines (x # y # xs) = x @ 10 # join_lines (y # xs)"

text \<open>The question-mark operator turns an \<open>io::Error\<close> into a \<open>DbError\<close>; a panic goes on.\<close>

definition or_io :: "'a res \<Rightarrow> ('a \<Rightarrow> bytes option) \<Rightarrow> (db_error + bytes option) res" where
  "or_io r f =
     (case r of
        Ok x \<Rightarrow> Ok (Inr (f x))
      | Fail (Io e) \<Rightarrow> Ok (Inl (Io_error e))
      | Fail Panic \<Rightarrow> Fail Panic
      | Fail Killed \<Rightarrow> Fail Killed)"

definition execute :: "(bytes \<Rightarrow> u32) \<Rightarrow> command \<Rightarrow> (db_error + bytes option) db_op" where
  "execute crc cmd db w =
     (case cmd of
        Get key \<Rightarrow>
          (or_io (db_get db key)
             (\<lambda>v. case v of Some x \<Rightarrow> Some (from_utf8_lossy x) | None \<Rightarrow> Some (str ''(not found)'')), db, w)
      | Put key val \<Rightarrow>
          (case put crc key val db w of (r, db1, w1) \<Rightarrow> (or_io r (\<lambda>u. Some (str ''OK'')), db1, w1))
      | Del key \<Rightarrow>
          (case delete crc key db w of (r, db1, w1) \<Rightarrow> (or_io r (\<lambda>u. Some (str ''OK'')), db1, w1))
      | Scan \<Rightarrow>
          (let output = map (\<lambda>(k, v). from_utf8_lossy k @ [32] @ from_utf8_lossy v) (scan db)
           in (Ok (Inr (Some (if output = [] then str ''(empty)'' else join_lines output))), db, w))
      | Exit \<Rightarrow> (Ok (Inr None), db, w))"

section \<open>The loop\<close>

text \<open>
  The line editor is a dependency: what it returns is an input of the model. \<open>Line\<close> also has the error,
  if any, of adding the line to the history.
\<close>

datatype readline = Line bytes "bytes option" | Interrupted | Eof | Readline_error bytes

datatype printed = Out bytes | Err_out bytes

fun repl :: "(bytes \<Rightarrow> u32) \<Rightarrow> readline list \<Rightarrow> printed list \<Rightarrow> db \<Rightarrow> world \<Rightarrow>
    (bytes option res \<times> printed list) \<times> db \<times> world" where
  "repl crc [] out db w = ((Ok None, out), db, w)"
| "repl crc (Interrupted # rs) out db w = ((Ok None, out), db, w)"
| "repl crc (Eof # rs) out db w = ((Ok None, out), db, w)"
| "repl crc (Readline_error e # rs) out db w =
     ((Ok None, out @ [Err_out (str ''readline error: '' @ e)]), db, w)"
| "repl crc (Line raw history # rs) out db w =
     (let line = trim raw
      in if line = [] then repl crc rs out db w
         else case history of
           Some e \<Rightarrow> ((Ok (Some e), out), db, w)
         | None \<Rightarrow>
             (case parse line of
                Inl e \<Rightarrow> repl crc rs (out @ [Err_out (str ''error: '' @ display_error e)]) db w
              | Inr Exit \<Rightarrow> ((Ok None, out), db, w)
              | Inr cmd \<Rightarrow>
                  (case execute crc cmd db w of
                     (Ok (Inr (Some text)), db1, w1) \<Rightarrow> repl crc rs (out @ [Out text]) db1 w1
                   | (Ok (Inr None), db1, w1) \<Rightarrow> repl crc rs out db1 w1
                   | (Ok (Inl e), db1, w1) \<Rightarrow>
                       repl crc rs (out @ [Err_out (str ''error: '' @ display_error e)]) db1 w1
                   | (Fail s, db1, w1) \<Rightarrow> ((Fail s, out), db1, w1))))"

section \<open>Arguments of the process\<close>

definition DEFAULT_ADDR :: bytes where
  "DEFAULT_ADDR = str ''127.0.0.1:6379''"

datatype startup = Serve bytes bool | Repl

definition main_args :: "bytes list \<Rightarrow> startup" where
  "main_args args =
     (if 1 < length args \<and> args ! 1 = str ''serve'' then
        Serve (if 2 < length args \<and> take 2 (args ! 2) \<noteq> str ''--'' then args ! 2 else DEFAULT_ADDR)
          (str ''--no-sync'' \<notin> set args)
      else Repl)"

definition serve_config :: "bool \<Rightarrow> config" where
  "serve_config sync = default_config\<lparr>cfg_sync := sync\<rparr>"

section \<open>Lines and commands\<close>

text \<open>How a user writes a command.\<close>

fun line_of :: "command \<Rightarrow> bytes" where
  "line_of (Get key) = str ''GET '' @ key"
| "line_of (Put key val) = str ''PUT '' @ key @ [32] @ val"
| "line_of (Del key) = str ''DEL '' @ key"
| "line_of Scan = str ''SCAN''"
| "line_of Exit = str ''EXIT''"

fun words_only :: "command \<Rightarrow> bool" where
  "words_only (Get key) = is_word key"
| "words_only (Put key val) = (is_word key \<and> is_word val)"
| "words_only (Del key) = is_word key"
| "words_only Scan = True"
| "words_only Exit = True"

lemma is_word_names: "is_word (str ''GET'')" "is_word (str ''PUT'')" "is_word (str ''DEL'')"
  "is_word (str ''SCAN'')" "is_word (str ''EXIT'')"
  by (rule is_word_ascii; simp add: str_def is_whitespace_def)+

lemma space: "is_char [32]" "is_whitespace [32]"
  by (simp_all add: is_char_ascii is_whitespace_def)

lemma str_space: "str ''GET '' = str ''GET'' @ [32]" "str ''PUT '' = str ''PUT'' @ [32]"
  "str ''DEL '' = str ''DEL'' @ [32]"
  by (simp_all add: str_def)

lemma split_line:
  "is_word a \<Longrightarrow> is_word b \<Longrightarrow> split_whitespace (a @ [32] @ b) = [a, b]"
  "is_word a \<Longrightarrow> is_word b \<Longrightarrow> is_word c \<Longrightarrow> split_whitespace (a @ [32] @ b @ [32] @ c) = [a, b, c]"
  using split_whitespace_word [OF _ space] split_whitespace_last by simp_all

lemma cli_names_distinct [simp]:
  "str ''PUT'' \<noteq> str ''GET''" "str ''DEL'' \<noteq> str ''GET''" "str ''DEL'' \<noteq> str ''PUT''"
  "str ''SCAN'' \<noteq> str ''GET''" "str ''SCAN'' \<noteq> str ''PUT''" "str ''SCAN'' \<noteq> str ''DEL''"
  "str ''EXIT'' \<noteq> str ''GET''" "str ''EXIT'' \<noteq> str ''PUT''" "str ''EXIT'' \<noteq> str ''DEL''"
  "str ''EXIT'' \<noteq> str ''SCAN''"
  by (simp_all add: str_def)

lemma parse_line_of:
  assumes "words_only cmd"
  shows "parse (line_of cmd) = Inr cmd" and "trim (line_of cmd) = line_of cmd" and "line_of cmd \<noteq> []"
proof -
  have v: "valid_utf8 [32]" using valid_utf8_ascii [of "[32]"] by simp
  have v2: "is_word k \<Longrightarrow> valid_utf8 ([32] @ k @ [32])" for k
    using v valid_utf8_append by (auto simp: is_word_def simp del: append_Cons append_Nil)
  show "parse (line_of cmd) = Inr cmd"
    using assms is_word_names split_line split_whitespace_last
    by (cases cmd) (simp_all add: parse_def str_space del: str_simps append_Cons append_Nil)
  show "trim (line_of cmd) = line_of cmd"
  proof (cases cmd)
    case (Put k v)
    then show ?thesis
      using assms trim_between [OF is_word_names(2) v2 [of k], of v] by (simp add: str_space del: str_simps)
  qed (use assms is_word_names trim_word trim_between [OF _ v] in \<open>simp_all add: str_space del: str_simps\<close>)
  show "line_of cmd \<noteq> []" by (cases cmd) (simp_all add: str_def)
qed

text \<open>What a line can be parsed to: keys and values are words of the line.\<close>

lemma parse_words:
  assumes "valid_utf8 line" and "parse line = Inr cmd"
  shows "words_only cmd"
  using assms(2) split_whitespace_words [OF assms(1)]
  by (auto simp: parse_def invalid_command_def split: list.splits if_splits)

text \<open>A command that is written out with its key and value, which have no white space, is parsed as it
  was meant, and a line that the line editor hands over parses to nothing but keys and values that are
  words, so that they print as they were typed.\<close>

lemma command_line_round_trip:
  assumes "words_only cmd"
  shows "parse (trim (line_of cmd)) = Inr cmd \<and>
    (\<forall>line cmd'. valid_utf8 line \<longrightarrow> parse line = Inr cmd' \<longrightarrow> words_only cmd')"
  using parse_line_of [OF assms] parse_words by simp

lemma words_lossy: "is_word v \<Longrightarrow> from_utf8_lossy v = v"
  by (simp add: is_word_def from_utf8_lossy_valid)

text \<open>A value that is put and shown at the prompt.\<close>

lemma repl_put_get:
  assumes "put crc k v db w = (Ok (), db', w')" and "db_get db' k = Ok (Some v)" and "is_word k" and "is_word v"
  shows "repl crc [Line (line_of (Put k v)) None, Line (line_of (Get k)) None, Line (line_of Exit) None] [] db w =
      ((Ok None, [Out (str ''OK''), Out v]), db', w')"
proof -
  have p: "words_only (Put k v)" "words_only (Get k)" "words_only Exit" using assms(3,4) by simp_all
  show ?thesis
    using parse_line_of [OF p(1)] parse_line_of [OF p(2)] parse_line_of [OF p(3)] assms(1,2) words_lossy [OF assms(4)]
    by (simp add: execute_def or_io_def Let_def del: line_of.simps)
qed

text \<open>The message for a missing key of \<open>DEL\<close> names another command.\<close>

lemma del_without_key: "parse (str ''DEL'') = Inl (InvalidCommand (str ''PUT requires a key''))"
  using split_whitespace_last [OF is_word_names(3)]
  by (simp add: parse_def invalid_command_def del: str_simps)

end
