(* ===== verification/Shutdown.thy ===== *)
theory Shutdown
  imports Store
begin

text \<open>
  The end of a store: \<open>Drop for Db\<close> (\<^verbatim>\<open>src/src/db.rs\<close>) closes the channel, so that the compactor thread works
  off the rings that are still in it and then returns, and waits for it.
\<close>

section \<open>The thread and \<open>drop\<close>\<close>

text \<open>A turn for every ring that is left; a panic ends the thread.\<close>

function compactor_thread :: "unit db_op" where
  "compactor_thread db w =
     (if db_rings db = 0 then (Ok (), db, w)
      else case compactor_turn db w of
             (Ok u, db1, w1) \<Rightarrow> compactor_thread db1 w1
           | (Fail s, db1, w1) \<Rightarrow> (Fail s, db1, w1))"
  by pat_completeness auto
termination
  by (relation "measure (\<lambda>(db, w). db_rings db)") (auto simp: compactor_turn_def split: prod.splits)

declare compactor_thread.simps [simp del]

text \<open>What \<open>join\<close> gives, which is an error if the thread has panicked, is ignored.\<close>

definition db_drop :: "unit db_op" where
  "db_drop db w =
     (case compactor_thread db w of
        (Fail Killed, db1, w1) \<Rightarrow> (Fail Killed, db1, w1)
      | (r, db1, w1) \<Rightarrow> (Ok (), db1, w1))"

section \<open>Calls that do not fail\<close>

text \<open>An environment in which calls succeed or the process is killed in them, but none returns an error.\<close>

fun no_error :: "sysres \<Rightarrow> bool" where
  "no_error (Fails e n) = False"
| "no_error _ = True"

definition no_errors :: "world \<Rightarrow> bool" where
  "no_errors w \<longleftrightarrow> list_all no_error (env w)"

lemma no_errors_dir [simp]:
  "no_errors (w\<lparr>dir := d\<rparr>) = no_errors w" "no_errors (w\<lparr>dir := d, disk := D\<rparr>) = no_errors w"
  by (simp_all add: no_errors_def)

lemma syscall_no_errors:
  assumes "syscall a b c d w = (r, w')" and "no_errors w"
  shows "no_errors w'" and "r = Ok () \<or> r = Fail Killed"
  using assms by (auto simp: syscall_def no_errors_def split: list.splits sysres.splits)

lemma syscall_atomic_no_errors:
  assumes "syscall_atomic f sh w = (r, w')" and "no_errors w"
  shows "no_errors w'" and "r = Ok () \<or> r = Fail Killed"
  using syscall_no_errors [OF assms(1) [unfolded syscall_atomic_def] assms(2)] by blast+

lemmas calls_no_errors =
  syscall_atomic_no_errors [where f = "AList.update n []" and sh = "\<lambda>_. sh_put n [[]]" for n, folded sys_create_def]
  syscall_atomic_no_errors [where f = "\<lambda>d. d" and sh = "\<lambda>d. sh_sync n (contents d n)" for n, folded sys_sync_def]
  syscall_atomic_no_errors [where f = "\<lambda>d. d" and sh = "\<lambda>_. sh_sync_dir", folded sys_sync_dir_def]

lemma sys_append_no_errors: "sys_append n data w = (r, w') \<Longrightarrow> no_errors w \<Longrightarrow> no_errors w'"
  by (auto simp: sys_append_def split: if_splits dest: syscall_no_errors(1))

lemma sys_rename_no_errors:
  assumes "sys_rename a b w = (r, w')" and "no_errors w" and "map_of (dir w) a \<noteq> None"
  shows "no_errors w'" and "r = Ok () \<or> r = Fail Killed"
  using assms syscall_atomic_no_errors [OF _ assms(2)]
  unfolding sys_rename_def on_existing_def by auto

lemma sys_remove_no_errors:
  assumes "sys_remove n w = (r, w')" and "no_errors w" and "map_of (dir w) n \<noteq> None"
  shows "no_errors w'" and "r = Ok () \<or> r = Fail Killed"
  using assms syscall_atomic_no_errors [OF _ assms(2)]
  unfolding sys_remove_def on_existing_def by auto

text \<open>A table that is not written for want of space, or of memory, leaves a temporary file at most.\<close>

lemma write_table_no_errors:
  assumes op: "write_table s span n es w = (r, w')" and ne: "no_errors w"
  shows "no_errors w'" and "(\<exists>t. r = Ok t) \<or> r = Fail Killed \<or> same_except (tmp_name span) w w'"
proof -
  let ?tmp = "tmp_name span"
  obtain r1 w1 where c: "sys_create ?tmp w = (r1, w1)" by force
  note c_ne = calls_no_errors(1,2) [OF c ne] and c_eff = sys_create_effect [OF c]
  have "no_errors w' \<and> ((\<exists>t. r = Ok t) \<or> r = Fail Killed \<or> same_except ?tmp w w')"
  proof (cases "\<exists>t. r1 = Ok () \<and> build_table span n (bits_per_key s) es = Ok t")
    case False
    then show ?thesis using op c c_ne c_eff(1)
      by (cases "build_table span n (bits_per_key s) es") (auto simp: write_table_def io_bind_def split: res.splits)
  next
    case True
    then obtain t where t: "r1 = Ok ()" "build_table span n (bits_per_key s) es = Ok t" by blast
    obtain r2 w2 where a: "sys_append ?tmp (file_data t) w1 = (r2, w2)" by force
    note a_ne = sys_append_no_errors [OF a c_ne(1)]
    have same: "same_except ?tmp w w2"
      using same_except_trans [OF c_eff(1) sys_append_effect(1) [OF a]] .
    show ?thesis
    proof (cases r2)
      case (Fail st)
      then show ?thesis using op c t a a_ne same by (auto simp: write_table_def io_bind_def)
    next
      case (Ok u)
      obtain r3 w3 where y: "sys_sync ?tmp w2 = (r3, w3)" by force
      note y_ne = calls_no_errors(3,4) [OF y a_ne]
      have "map_of (dir w3) ?tmp \<noteq> None"
        using sys_append_effect(2) [OF a] Ok sys_sync_effect(1) [OF y] by simp
      obtain r4 w4 where n: "sys_rename ?tmp (sst_name span) w3 = (r4, w4)" by force
      note n_ne = sys_rename_no_errors [OF n y_ne(1) \<open>map_of (dir w3) ?tmp \<noteq> None\<close>]
      obtain r5 w5 where z: "sys_sync_dir w4 = (r5, w5)" by force
      note z_ne = calls_no_errors(5,6) [OF z n_ne(1)]
      show ?thesis
        using op c t(1) a Ok y n z y_ne n_ne z_ne
        by (auto simp: write_table_def publish_def io_bind_def t(2) split: res.splits)
    qed
  qed
  then show "no_errors w'" "(\<exists>t. r = Ok t) \<or> r = Fail Killed \<or> same_except ?tmp w w'" by blast+
qed

lemma remove_files_no_errors:
  assumes "remove_files run w = (r, w')" and "no_errors w" and "distinct (map path run)"
    and "\<forall>t \<in> set run. map_of (dir w) (path t) \<noteq> None"
  shows "no_errors w' \<and> (r = Ok () \<or> r = Fail Killed)"
  using assms
proof (induction run arbitrary: w)
  case Nil
  then show ?case by simp
next
  case (Cons t run)
  obtain q w1 where q: "sys_remove (path t) w = (q, w1)" by force
  have present: "map_of (dir w) (path t) \<noteq> None" using Cons.prems(4) by simp
  note ne = sys_remove_no_errors [OF q Cons.prems(2) present]
  from q present show ?case
  proof (cases rule: sys_remove_effect)
    case removed
    have "remove_files run w1 = (r, w')" using Cons.prems(1) q removed(1) by (simp add: io_bind_def)
    moreover have "\<forall>u \<in> set run. map_of (dir w1) (path u) \<noteq> None"
      using Cons.prems(3,4) removed(2) by (auto simp: delete_conv' image_iff)
    ultimately show ?thesis using Cons.IH [of w1] ne(1) Cons.prems(3) by auto
  next
    case (failed st)
    then show ?thesis using Cons.prems(1) q ne by (simp add: io_bind_def)
  qed
qed

section \<open>Compactions without errors\<close>

lemma prepare_keeps_tables:
  assumes op: "compact_prepare s start count w = (q, w1)"
    and n: "map_of (dir w) n \<noteq> None" "extension n = Some (str ''sst'')"
  shows "map_of (dir w1) n \<noteq> None"
proof -
  have "map_of (dir w') n \<noteq> None" if "write_table s span k M w = (r, w')" for span k M r w'
    using that
  proof (cases rule: write_table_effect)
    case (published u)
    then show ?thesis using n extension_tmp_name [of span] by (cases "n = tmp_name span") auto
  next
    case (unpublished st)
    then show ?thesis using n extension_tmp_name [of span] by (cases "n = tmp_name span") (auto simp: same_except_def)
  qed
  then show ?thesis
    using op n(1) by (auto simp: compact_prepare_def Let_def io_bind_eq split: if_splits)
qed

lemma prepare_no_errors:
  assumes inv: "set_inv s ess (dir w)" and op: "compact_prepare s start count w = (q, w1)"
    and ne: "no_errors w"
  shows "no_errors w1" and "(\<exists>t. q = Ok t) \<or> q = Fail Killed \<or> set_inv s ess (dir w1)"
proof -
  have wt: "no_errors w' \<and> ((\<exists>t. r = Ok t) \<or> r = Fail Killed \<or> set_inv s ess (dir w'))"
    if "write_table s span k M w = (r, w')" for span k M r w'
    using write_table_no_errors [OF that ne] inv same_except_clean [OF _ tmp_name_not_table [of span]]
    unfolding set_inv_def by blast
  from op ne inv show "no_errors w1" "(\<exists>t. q = Ok t) \<or> q = Fail Killed \<or> set_inv s ess (dir w1)"
    by (auto simp: compact_prepare_def Let_def io_bind_def split: if_splits res.splits prod.splits dest: wt)
qed

text \<open>The invariant is kept: the only other way to stop is to be killed.\<close>

lemma compact_no_errors:
  assumes inv: "set_inv s ess (dir w)" and op: "compact start count s w = (r, s', w')" and ne: "no_errors w"
  shows "no_errors w'" and "r = Fail Killed \<or> (\<exists>ess'. set_inv s' ess' (dir w') \<and> live_eq ess' ess)"
proof -
  let ?run = "take count (drop start (tables s))"
  obtain q w1 where prep: "compact_prepare s start count w = (q, w1)" by force
  note p_ne = prepare_no_errors [OF inv prep ne]
  have "no_errors w' \<and> (r = Fail Killed \<or> (\<exists>ess'. set_inv s' ess' (dir w') \<and> live_eq ess' ess))"
  proof (cases q)
    case (Fail st)
    then have "r = Fail st" "s' = s" "w' = w1" using op prep by (simp_all add: compact_def)
    then show ?thesis using p_ne Fail by (auto intro: exI [of _ ess])
  next
    case (Ok replacement)
    have stored: "\<forall>t \<in> set (tables s). stored (dir w) t" and ok: "spans_ok (next_seq s) (tables s)"
      using inv by (auto simp: set_inv_def dir_clean_def)
    have "map_of (dir w1) (path t) \<noteq> None" if "t \<in> set ?run" for t
    proof -
      have "stored (dir w) t" using that stored by (auto dest!: in_set_takeD in_set_dropD)
      then show ?thesis
        using prepare_keeps_tables [OF prep] stored_present by (metis extension_sst_name option.distinct(1) stored_def)
    qed
    moreover have "distinct (map path ?run)"
      using spans_ok_paths [OF ok stored] by (simp add: distinct_drop distinct_take flip: take_map drop_map)
    moreover obtain r2 w2 where rm: "remove_files ?run w1 = (r2, w2)" by force
    ultimately have "no_errors w2" "r2 = Ok () \<or> r2 = Fail Killed"
      using remove_files_no_errors [OF rm p_ne(1)] by auto
    moreover have "r = r2" "w' = w2"
      using op prep Ok rm by (simp_all add: compact_def compact_publish_def Let_def)
    ultimately show ?thesis using compact_effect [OF inv op] by auto
  qed
  then show "no_errors w'" "r = Fail Killed \<or> (\<exists>ess'. set_inv s' ess' (dir w') \<and> live_eq ess' ess)" by blast+
qed

lemma compactor_loop_no_errors:
  assumes "set_inv s ess (dir w)" and "compactor_loop min_run ratio s w = (r, s', w')" and "no_errors w"
  shows "no_errors w' \<and> (r = Fail Killed \<or> (\<exists>ess'. set_inv s' ess' (dir w') \<and> live_eq ess' ess))"
  using assms
proof (induction min_run ratio s w arbitrary: ess rule: compactor_loop.induct)
  case (1 min_run ratio s w)
  note loop = 1(3) [unfolded compactor_loop.simps [of min_run ratio s w]]
  show ?case
  proof (cases "pick_run s min_run ratio")
    case None
    then show ?thesis using loop 1(2,4) by (auto intro: exI [of _ ess])
  next
    case (Some a)
    obtain start count where a: "a = (start, count)" by (cases a)
    obtain q s1 w1 where c: "compact start count s w = (q, s1, w1)" by (metis prod_cases3)
    note c_ne = compact_no_errors [OF 1(2) c 1(4)]
    show ?thesis
    proof (cases q)
      case (Ok u)
      then obtain m where m: "set_inv s1 m (dir w1)" "live_eq m ess" using c_ne(2) by auto
      have "compactor_loop min_run ratio s1 w1 = (r, s', w')" using loop Some a c Ok by simp
      then have "no_errors w' \<and> (r = Fail Killed \<or> (\<exists>ess'. set_inv s' ess' (dir w') \<and> live_eq ess' m))"
        using 1(1) [OF Some a [symmetric] c [symmetric] Ok refl m(1)] c_ne(1) by blast
      then show ?thesis using m(2) live_eq_trans by blast
    next
      case (Fail st)
      then show ?thesis using loop Some a c c_ne by (cases st) auto
    qed
  qed
qed

section \<open>Turns without errors\<close>

text \<open>A turn keeps the invariant and the contents, unless the process is killed in it.\<close>

lemma compactor_turn_no_errors:
  assumes inv: "db_inv crc db w ess ws" and op: "compactor_turn db w = (r, db', w')" and ne: "no_errors w"
  shows "no_errors w'"
    and "r = Fail Killed \<or> (\<exists>ess'. db_inv crc db' w' ess' ws \<and> live_eq ess' ess)"
proof -
  have I: "set_inv (db_set db) ess (dir w)" using inv by (simp add: db_inv_def)
  have "no_errors w' \<and> (r = Fail Killed \<or> (\<exists>ess'. db_inv crc db' w' ess' ws \<and> live_eq ess' ess))"
  proof (cases "db_rings db = 0")
    case True
    then show ?thesis using op ne inv by (auto simp: compactor_turn_def intro: exI [of _ ess])
  next
    case False
    let ?loop = "compactor_loop (cfg_threshold (db_config db)) (cfg_ratio (db_config db)) (db_set db) w"
    obtain q s' w1 where l: "?loop = (q, s', w1)" by (metis prod_cases3)
    have t: "r = q" "db' = db\<lparr>db_set := s', db_rings := db_rings db - 1\<rparr>" "w1 = w'"
      using op False l by (simp_all add: compactor_turn_def)
    obtain others: "others_same w w'" using compactor_loop_effect [OF I l] t(3) by blast
    have "map_of (dir w') WAL_NAME = map_of (dir w) WAL_NAME" "root w' = root w"
      using others_same_WAL [OF others] others by (simp_all add: others_same_def)
    then have "db_inv crc db' w' ess' ws" if "set_inv s' ess' (dir w')" for ess'
      using inv that t(2) by (simp add: db_inv_def)
    then show ?thesis using compactor_loop_no_errors [OF I l ne] t by blast
  qed
  then show "no_errors w'" "r = Fail Killed \<or> (\<exists>ess'. db_inv crc db' w' ess' ws \<and> live_eq ess' ess)"
    by blast+
qed

lemma compactor_thread_no_errors:
  assumes "db_inv crc db w ess ws" and "compactor_thread db w = (r, db', w')" and "no_errors w"
  shows "(\<exists>ess'. db_inv crc db' w' ess' ws \<and> live_eq ess' ess) \<or>
    r = Fail Killed \<and> disk_view crc (dir w') (view ess ws) \<and> root w' = Directory"
  using assms
proof (induction db w arbitrary: ess rule: compactor_thread.induct)
  case (1 db w)
  note run = 1(3) [unfolded compactor_thread.simps [of db w]]
  show ?case
  proof (cases "db_rings db = 0")
    case True
    then show ?thesis using run 1(2) by (auto intro: exI [of _ ess])
  next
    case False
    obtain q db1 w1 where t: "compactor_turn db w = (q, db1, w1)" by (metis prod_cases3)
    note t_ne = compactor_turn_no_errors [OF 1(2) t 1(4)]
    show ?thesis
    proof (cases q)
      case (Ok u)
      then obtain m where m: "db_inv crc db1 w1 m ws" "live_eq m ess" using t_ne(2) by auto
      have "compactor_thread db1 w1 = (r, db', w')" using run False t Ok by simp
      then have "(\<exists>ess'. db_inv crc db' w' ess' ws \<and> live_eq ess' m) \<or>
          r = Fail Killed \<and> disk_view crc (dir w') (view m ws) \<and> root w' = Directory"
        using 1(1) [OF False t [symmetric] Ok refl m(1)] t_ne(1) by simp
      then show ?thesis using m(2) live_eq_trans live_eq_view by metis
    next
      case (Fail st)
      then have "r = q" "db' = db1" "w' = w1" using run False t by simp_all
      then show ?thesis using t_ne(2) compactor_turn_effect(2,3) [OF 1(2) t] Fail by auto
    qed
  qed
qed

section \<open>Closing a store\<close>

lemma rings_used_up:
  "compactor_thread db w = (r, db', w') \<Longrightarrow> r = Ok u \<Longrightarrow> db_rings db' = 0"
proof (induction db w rule: compactor_thread.induct)
  case (1 db w)
  note run = 1(2) [unfolded compactor_thread.simps [of db w]]
  show ?case
  proof (cases "db_rings db = 0")
    case False
    obtain q db1 w1 where t: "compactor_turn db w = (q, db1, w1)" by (metis prod_cases3)
    show ?thesis using run False t 1(1) [OF False t [symmetric] _ refl] 1(3) by (cases q) auto
  qed (use run in auto)
qed

lemma live_eq_disk_view:
  assumes "db_inv crc db w ess' ws" and "live_eq ess' ess"
  shows "disk_view crc (dir w) (view ess ws) \<and> root w = Directory"
  using resting.inv_disk_view [of crc db w ess' ws] live_eq_view [OF assms(2)] assms(1)
  by (simp add: store_inv_def db_inv_def)

lemma drop_effect:
  assumes "db_inv crc db w ess ws" and "no_errors w" and "db_drop db w = (r, db', w')"
  shows "(r = Ok () \<and> (\<exists>ess'. db_inv crc db' w' ess' ws \<and> live_eq ess' ess)) \<or>
    (r = Fail Killed \<and> disk_view crc (dir w') (view ess ws) \<and> root w' = Directory)"
proof -
  obtain q where q: "compactor_thread db w = (q, db', w')"
    "r = (if q = Fail Killed then Fail Killed else Ok ())"
    using assms(3) by (auto simp: db_drop_def split: prod.splits res.splits stop.splits)
  from compactor_thread_no_errors [OF assms(1) q(1) assms(2)] show ?thesis
  proof
    assume "\<exists>ess'. db_inv crc db' w' ess' ws \<and> live_eq ess' ess"
    then show ?thesis using live_eq_disk_view [of crc db' w' _ ws ess] q(2) by (cases "q = Fail Killed") auto
  qed (use q(2) in simp)
qed

text \<open>C17: dropping a store is safe as long as no system call returns an error; the process may be killed in any of them. The
  compactor thread works off its queue, merging tables. If it was not killed, the store is afterwards still one with
  the same contents, and in any case the next process opens the same contents.\<close>

theorem drop_keeps_contents:
  assumes "db_inv crc db w ess ws" and "no_errors w" and "db_drop db w = (r, db', w')"
  shows "(r = Ok () \<and> (\<exists>ess'. db_inv crc db' w' ess' ws \<and> live_eq ess' ess) \<or> r = Fail Killed) \<and>
    (\<exists>db2 w2. with_config crc cfg (calm w') = (Ok db2, w2) \<and> db_get db2 = db_get db)"
proof -
  note drop = drop_effect [OF assms]
  then have closed: "disk_view crc (dir w') (view ess ws) \<and> root w' = Directory"
    using live_eq_disk_view by blast
  have "db_get db = (\<lambda>k. Ok (view ess ws k))"
    using db_get_view [OF assms(1)] by (simp add: fun_eq_iff)
  then show ?thesis
    using reopen_disk_view [of crc w' "view ess ws" cfg] closed drop by (auto simp: fun_eq_iff)
qed

theorem drop_keeps_contents_witness:
  "\<exists>s1 w1 s2 w2 r db' w' db2 w3.
     set_write [([1], Some [7])] empty_set (empty_store []) = (Ok (), s1, w1) \<and>
     set_write [([1], None)] s1 w1 = (Ok (), s2, w2) \<and>
     db_drop (empty_db\<lparr>db_set := s2, db_rings := 2\<rparr>) (w2\<lparr>env := [Done, Kill 3]\<rparr>) = (r, db', w') \<and>
     with_config (\<lambda>bs. 0) default_config (calm w') = (Ok db2, w3) \<and> db_get db2 [1] = Ok None"
proof -
  have e0: "set_inv empty_set [] (dir (empty_store []))" "env (empty_store []) = []"
    using empty_store_inv [of "\<lambda>bs. 0" "[]"] by (simp_all add: db_inv_def empty_db_def empty_store_def)
  obtain s1 :: sstable_set and w1 :: world where op: "set_write [([1], Some [7])] empty_set (empty_store []) = (Ok (), s1, w1)"
    "set_inv s1 [[([1], Some [7])]] (dir w1)" "next_seq s1 = Suc 0" "env w1 = []" "bits_per_key s1 = 10"
    using set_write_ok [OF e0 small_demo(1)] small_demo(2) by auto
  obtain s2 :: sstable_set and w2 :: world where op2: "set_write [([1], None)] s1 w1 = (Ok (), s2, w2)"
    "set_inv s2 [[([1], Some [7])], [([1], None)]] (dir w2)"
    using set_write_ok [OF op(2,4) small_demo(3)] small_demo(4) op(3,5) by auto
  let ?db = "empty_db\<lparr>db_set := s2, db_rings := 2\<rparr>" and ?w = "w2\<lparr>env := [Done, Kill 3]\<rparr>"
  have others: "others_same (empty_store []) w2"
    using set_write_others [OF op(1)] set_write_others [OF op2(1)] others_same_trans by blast
  then have "map_of (dir w2) WAL_NAME = Some []" "root w2 = Directory"
    using others_same_WAL [OF others] others by (simp_all add: others_same_def empty_store_def)
  then have inv: "db_inv (\<lambda>bs. 0) ?db ?w [[([1], Some [7])], [([1], None)]] []"
    using op2(2) empty_store_inv [of "\<lambda>bs. 0" "[]"] by (simp add: db_inv_def)
  obtain r db' w' where d: "db_drop ?db ?w = (r, db', w')" by (metis prod_cases3)
  have "db_get ?db [1] = Ok None" using db_get_view [OF inv] by (simp add: view_def)
  moreover have "no_errors ?w" by (simp add: no_errors_def)
  ultimately show ?thesis
    using drop_keeps_contents [OF inv _ d, of default_config] op(1) op2(1) d by metis
qed

section \<open>A threshold below two\<close>

text \<open>With a threshold of at most one a single table is already a run, and the assertion of \<open>compact\<close> ends the
  thread: the store goes on, but nothing is compacted any more.\<close>

lemma threshold_one_panics:
  assumes "length (tables s) = 1" and "min_run \<le> 1"
  shows "compactor_loop min_run ratio s w = (Fail Panic, s, w)"
proof -
  have "run_end [n] ratio 0 1 = 1" for n by (subst run_end.simps) simp
  moreover obtain t where t: "tables s = [t]" using assms(1) by (cases "tables s") auto
  ultimately have "pick_run s min_run ratio = Some (0, 1)"
    using assms(2) by (simp add: pick_run_def pick_from.simps [of _ _ _ 0] Let_def)
  then show ?thesis
    by (simp add: compactor_loop.simps [of min_run] compact_def compact_prepare_def)
qed

end
