(* ===== verification/Prompt.thy ===== *)
theory Prompt
  imports Cli Shutdown Opening Server
begin

text \<open>
  The process that \<^verbatim>\<open>src/src/main.rs\<close> runs when it is not a server: it opens the store, reads lines until the
  end, and drops the store. Seen from outside it is a shell over a map, which the next process takes up.
\<close>

section \<open>The process\<close>

text \<open>
  \<open>fn repl\<close>: what \<open>DefaultEditor::new\<close> returns is an input like the lines are. However the loop ends, by its end, an error
  or a panic, the store is dropped.
\<close>

definition run_repl :: "(bytes \<Rightarrow> u32) \<Rightarrow> bytes option \<Rightarrow> readline list \<Rightarrow> world \<Rightarrow>
    (bytes option res \<times> printed list) \<times> world" where
  "run_repl crc editor rs w =
     (case db_open crc w of
        (Fail s, w1) \<Rightarrow> ((Fail s, []), w1)
      | (Ok db, w1) \<Rightarrow>
          (case (case editor of
                   Some e \<Rightarrow> ((Ok (Some e), []), db, w1)
                 | None \<Rightarrow> repl crc rs [] db w1) of
             ((r, out), db1, w2) \<Rightarrow>
               if r = Fail Killed then ((r, out), w2)
               else (case db_drop db1 w2 of
                       (Fail s, _, w3) \<Rightarrow> ((Fail s, out), w3)
                     | (Ok u, _, w3) \<Rightarrow> ((r, out), w3))))"

section \<open>The shell\<close>

text \<open>What the lines say, without a store: the replies, and the map after them. \<open>SCAN\<close> is not a command on the map.\<close>

fun shell_command :: "command \<Rightarrow> kv \<Rightarrow> bytes \<times> kv" where
  "shell_command (Get key) m = (case m key of Some v \<Rightarrow> from_utf8_lossy v | None \<Rightarrow> str ''(not found)'', m)"
| "shell_command (Put key val) m = (str ''OK'', m(key := Some val))"
| "shell_command (Del key) m = (str ''OK'', m(key := None))"
| "shell_command _ m = ([], m)"

fun shell :: "readline list \<Rightarrow> kv \<Rightarrow> printed list \<times> kv" where
  "shell [] m = ([], m)"
| "shell (Interrupted # rs) m = ([], m)"
| "shell (Eof # rs) m = ([], m)"
| "shell (Readline_error e # rs) m = ([Err_out (str ''readline error: '' @ e)], m)"
| "shell (Line raw history # rs) m =
     (if trim raw = [] then shell rs m
      else if history \<noteq> None then ([], m)
      else case parse (trim raw) of
          Inl e \<Rightarrow> (case shell rs m of (out, m') \<Rightarrow> (Err_out (str ''error: '' @ display_error e) # out, m'))
        | Inr Exit \<Rightarrow> ([], m)
        | Inr cmd \<Rightarrow>
            (case shell_command cmd m of (text, m1) \<Rightarrow>
               case shell rs m1 of (out, m') \<Rightarrow> (Out text # out, m')))"

text \<open>Lines whose keys and values fit into a record.\<close>

fun line_fits :: "readline \<Rightarrow> bool" where
  "line_fits (Line raw history) =
     (case parse (trim raw) of
        Inr (Put key val) \<Rightarrow> write_fits (key, Some val)
      | Inr (Del key) \<Rightarrow> write_fits (key, None)
      | Inr Scan \<Rightarrow> False
      | _ \<Rightarrow> True)"
| "line_fits _ = True"

definition io_error_printed :: "printed list \<Rightarrow> bool" where
  "io_error_printed out \<longleftrightarrow> (\<exists>e. Err_out (str ''error: '' @ display_error (Io_error e)) \<in> set out)"

section \<open>The loop is the shell\<close>

text \<open>The output is only added to.\<close>

lemma repl_adds: "repl crc rs out db w = ((r, out'), db', w') \<Longrightarrow> \<exists>more. out' = out @ more"
proof (induction crc rs out db w rule: repl.induct)
  case (5 crc raw history rs out db w)
  then show ?case
    by (fastforce simp: Let_def split: if_splits option.splits sum.splits command.splits prod.splits res.splits)
qed auto

lemma repl_writes:
  assumes inv: "db_inv crc db w ess ws" and room: "room_for (Suc n) db" and fits: "write_fits (k, v)"
    and op: "write_op crc (k, v) db w = (r, db1, w1)"
    and run: "(case (or_io r (\<lambda>u. Some (str ''OK'')), db1, w1) of
         (Ok (Inr (Some text)), db1, w1) \<Rightarrow> repl crc rs (out @ [Out text]) db1 w1
       | (Ok (Inr None), db1, w1) \<Rightarrow> repl crc rs out db1 w1
       | (Ok (Inl e), db1, w1) \<Rightarrow> repl crc rs (out @ [Err_out (str ''error: '' @ display_error e)]) db1 w1
       | (Fail s, db1, w1) \<Rightarrow> ((Fail s, out), db1, w1)) = ((Ok u, out'), db', w')"
    and quiet: "\<not> io_error_printed out'"
  obtains ess1 ws1 where "repl crc rs (out @ [Out (str ''OK'')]) db1 w1 = ((Ok u, out'), db', w')"
    "db_inv crc db1 w1 ess1 ws1" "view ess1 ws1 = (view ess ws)(k := v)" "room_for n db1"
proof (cases r)
  case (Ok u)
  then show thesis
    using write_op_serving [OF inv room fits] op run that by (force simp: or_io_def)
next
  case (Fail s)
  then show thesis
  proof (cases s)
    case (Io e)
    then have "repl crc rs (out @ [Err_out (str ''error: '' @ display_error (Io_error e))]) db1 w1 = ((Ok u, out'), db', w')"
      using run Fail by (simp add: or_io_def del: display_error.simps)
    from repl_adds [OF this] have "io_error_printed out'"
      unfolding io_error_printed_def by (auto simp del: display_error.simps)
    then show thesis using quiet by simp
  qed (use run Fail in \<open>simp_all add: or_io_def\<close>)
qed

lemma repl_shell:
  assumes "repl crc rs out db w = ((Ok u, out'), db', w')" and "db_inv crc db w ess ws" and "room_for (length rs) db"
    and "\<forall>r \<in> set rs. line_fits r" and "\<not> io_error_printed out'"
  shows "\<exists>ess' ws'. db_inv crc db' w' ess' ws' \<and> out' = out @ fst (shell rs (view ess ws)) \<and>
    view ess' ws' = snd (shell rs (view ess ws))"
  using assms
proof (induction rs arbitrary: out db w ess ws)
  case Nil
  then show ?case by auto
next
  case (Cons r rs)
  let ?m = "view ess ws"
  have rm: "room_for (length rs) db" and fit: "\<forall>r \<in> set rs. line_fits r"
    using Cons.prems(3,4) by (simp_all add: room_for_def)
  show ?case
  proof (cases r)
    case (Line raw history)
    note run = Cons.prems(1) [unfolded Line repl.simps Let_def]
    show ?thesis
    proof (cases "trim raw = []")
      case True
      then show ?thesis using Cons.IH [OF _ Cons.prems(2) rm fit Cons.prems(5), of out] run Line by simp
    next
      case ne: False
      show ?thesis
      proof (cases history)
        case (Some e)
        then show ?thesis using run ne Line Cons.prems(2) by auto
      next
        case None
        note run' = run [unfolded None if_not_P [OF ne] option.case]
        show ?thesis
        proof (cases "parse (trim raw)")
          case (Inl e)
          then show ?thesis
            using Cons.IH [OF _ Cons.prems(2) rm fit Cons.prems(5)] run' ne Line None
            by (fastforce simp: split_beta simp del: display_error.simps)
        next
          case (Inr cmd)
          have written: ?thesis if op: "write_op crc (k, v) db w = (q, db1, w1)" and fits: "write_fits (k, v)"
            and continues: "(case (or_io q (\<lambda>u. Some (str ''OK'')), db1, w1) of
                 (Ok (Inr (Some text)), db1, w1) \<Rightarrow> repl crc rs (out @ [Out text]) db1 w1
               | (Ok (Inr None), db1, w1) \<Rightarrow> repl crc rs out db1 w1
               | (Ok (Inl e), db1, w1) \<Rightarrow> repl crc rs (out @ [Err_out (str ''error: '' @ display_error e)]) db1 w1
               | (Fail s, db1, w1) \<Rightarrow> ((Fail s, out), db1, w1)) = ((Ok u, out'), db', w')"
            and sh: "shell (r # rs) ?m = (Out (str ''OK'') # fst (shell rs (?m(k := v))), snd (shell rs (?m(k := v))))" for k v q db1 w1
          proof -
            have room: "room_for (Suc (length rs)) db" using Cons.prems(3) by simp
            obtain ess1 ws1 where one: "repl crc rs (out @ [Out (str ''OK'')]) db1 w1 = ((Ok u, out'), db', w')"
              "db_inv crc db1 w1 ess1 ws1" "view ess1 ws1 = ?m(k := v)" "room_for (length rs) db1"
              by (rule repl_writes [OF Cons.prems(2) room fits op continues Cons.prems(5)])
            from Cons.IH [OF one(1,2,4) fit Cons.prems(5)] show ?thesis unfolding sh one(3) by (simp add: fun_upd_def)
          qed
          show ?thesis
          proof (cases cmd)
            case (Get key)
            have "db_get db key = Ok (?m key)" by (rule db_get_view [OF Cons.prems(2)])
            then show ?thesis
              using Cons.IH [OF _ Cons.prems(2) rm fit Cons.prems(5)] run' ne Line None Inr Get
              by (cases "?m key") (fastforce simp: execute_def or_io_def split_beta)+
          next
            case (Put key val)
            obtain q db1 w1 where op: "put crc key val db w = (q, db1, w1)" by (metis prod_cases3)
            show ?thesis
            proof (rule written)
              show "write_op crc (key, Some val) db w = (q, db1, w1)" using op by (simp add: write_op_def)
              show "write_fits (key, Some val)" using Cons.prems(4) Line Inr Put by simp
              show "shell (r # rs) ?m = (Out (str ''OK'') # fst (shell rs (?m(key := Some val))), snd (shell rs (?m(key := Some val))))"
                using ne Line None Inr Put by (simp add: split_beta)
            qed (use run' ne Line None Inr Put op in \<open>simp_all add: execute_def\<close>)
          next
            case (Del key)
            obtain q db1 w1 where op: "delete crc key db w = (q, db1, w1)" by (metis prod_cases3)
            show ?thesis
            proof (rule written)
              show "write_op crc (key, None) db w = (q, db1, w1)" using op by (simp add: write_op_def)
              show "write_fits (key, None)" using Cons.prems(4) Line Inr Del by simp
              show "shell (r # rs) ?m = (Out (str ''OK'') # fst (shell rs (?m(key := None))), snd (shell rs (?m(key := None))))"
                using ne Line None Inr Del by (simp add: split_beta)
            qed (use run' ne Line None Inr Del op in \<open>simp_all add: execute_def\<close>)
          next
            case Scan
            then show ?thesis using Cons.prems(4) Line Inr by simp
          next
            case Exit
            then show ?thesis using run' ne Line None Inr Cons.prems(2) by auto
          qed
        qed
      qed
    qed
  qed (use Cons.prems in auto)
qed

section \<open>Calls that return no errors\<close>

text \<open>An operation takes a world in which no call returns an error to one in which none does.\<close>

definition errorless :: "'a io \<Rightarrow> bool" where
  "errorless m \<longleftrightarrow> (\<forall>w r w'. m w = (r, w') \<longrightarrow> no_errors w \<longrightarrow> no_errors w')"

named_theorems errorless_intros

lemma errorlessD: "errorless m \<Longrightarrow> m w = (r, w') \<Longrightarrow> no_errors w \<Longrightarrow> no_errors w'"
  unfolding errorless_def by blast

lemma errorless_lift [errorless_intros]: "errorless (io_lift r)" "errorless (Pair r)"
  by (simp_all add: errorless_def)

lemma errorless_bind [errorless_intros]:
  assumes "errorless m" and "\<And>x. errorless (f x)"
  shows "errorless (io_bind m f)"
  unfolding errorless_def
proof (intro allI impI)
  fix w r w' assume "io_bind m f w = (r, w')" and "no_errors w"
  then show "no_errors w'"
    using errorlessD [OF assms(1), of w] errorlessD [OF assms(2)] by (auto simp: io_bind_eq)
qed

lemma errorless_if [errorless_intros]: "errorless m \<Longrightarrow> errorless n \<Longrightarrow> errorless (if b then m else n)"
  by simp

lemma errorless_syscall: "errorless (syscall a b c d)"
  using syscall_no_errors(1) unfolding errorless_def by blast

lemma errorless_calls [errorless_intros]:
  "errorless (sys_open_create n)" "errorless (sys_create n)" "errorless (sys_truncate n)" "errorless (sys_sync n)"
  "errorless sys_sync_dir" "errorless (sys_append n data)" "errorless (sys_rename n m)" "errorless (sys_remove n)"
  using errorless_syscall sys_append_no_errors
  unfolding sys_open_create_def sys_create_def sys_truncate_def sys_sync_def sys_sync_dir_def sys_rename_def
    sys_remove_def syscall_atomic_def on_existing_def errorless_def by auto

lemma errorless_read [errorless_intros]: "errorless (open_file data_dir n span)" "errorless (wal_read crc l)"
  by (auto simp: errorless_def open_file_def wal_read_def split: option.splits)

lemma errorless_scan [errorless_intros]: "errorless (scan_dir data_dir names acc)"
  by (induction data_dir names acc rule: scan_dir.induct)
    (auto intro!: errorless_intros split: option.split simp del: io_lift_eq)

lemma errorless_tables [errorless_intros]: "errorless (open_tables data_dir spans rest acc)"
  by (induction data_dir spans rest acc rule: open_tables.induct) (auto intro!: errorless_intros)

lemma errorless_set_open [errorless_intros]: "errorless (set_open data_dir bpk)"
proof -
  have "errorless (io_bind (scan_dir data_dir names []) (\<lambda>found. let spans = sort found
      in io_bind (io_lift (next_seq_of spans)) (\<lambda>next. io_bind (open_tables data_dir spans (enumerate 0 spans) [])
        (\<lambda>sstables. io_lift (Ok \<lparr>tables = sstables, set_dir = data_dir, bits_per_key = bpk, next_seq = next\<rparr>)))))" for names
    by (simp only: Let_def) (intro errorless_intros)
  then show ?thesis unfolding errorless_def set_open_def by simp
qed

lemma errorless_open:
  assumes "with_config crc cfg w = (r, w')" and "root w = Directory" and "no_errors w"
  shows "no_errors w'"
proof -
  let ?m = "io_bind (wal_open WAL_NAME (cfg_sync cfg)) (\<lambda>l. io_bind (wal_read crc l) (\<lambda>rs.
    io_bind (set_open (cfg_path cfg) (cfg_bits_per_key cfg)) (\<lambda>s. io_lift (Ok \<lparr>db_map = replay rs, db_wal = l,
      db_size = 0, db_config = cfg, db_set = s, db_rings = 0\<rparr>))))"
  have "errorless ?m" unfolding wal_open_def by (intro errorless_intros)
  moreover have "?m w = (r, w')"
    using assms(1,2) by (simp add: with_config_def create_dir_all_def io_bind_def)
  ultimately show ?thesis using assms(3) by (rule errorlessD)
qed

lemma errorless_wal [errorless_intros]: "errorless (wal_append crc l key val operation)" "errorless (wal_truncate l)"
  unfolding wal_append_def wal_truncate_def by (intro errorless_intros)+

lemma errorless_flush:
  assumes "flush db w = (r, db', w')" and "no_errors w"
  shows "no_errors w'"
proof -
  obtain q s w1 where sw: "set_write (db_map db) (db_set db) w = (q, s, w1)" by (metis prod_cases3)
  have n1: "no_errors w1"
    using sw assms(2) write_table_no_errors(1) by (auto simp: set_write_def Let_def split: prod.splits res.splits if_splits)
  obtain p w2 where wt: "wal_truncate (db_wal db) w1 = (p, w2)" by force
  have "no_errors w2" using errorlessD [OF errorless_wal(2) wt n1] .
  then show ?thesis using assms(1) sw wt n1
    by (auto simp: flush_def Let_def split: res.splits if_splits)
qed

lemma errorless_write_op:
  assumes "write_op crc e db w = (r, db', w')" and "no_errors w"
  shows "no_errors w'"
proof -
  obtain q w1 where wa: "wal_append crc (db_wal db) (wkey (wrec e)) (wvalue (wrec e)) (woperation (wrec e)) w = (q, w1)"
    by force
  have n1: "no_errors w1" using errorlessD [OF errorless_wal(1) wa assms(2)] .
  then show ?thesis using assms(1) wa errorless_flush [of "logged e db" w1]
    by (auto simp: write_op_logged split: res.splits prod.splits if_splits)
qed

lemma execute_no_errors:
  assumes "execute crc cmd db w = (r, db', w')" and "no_errors w"
  shows "no_errors w'"
  using assms errorless_write_op [of crc "(key, Some val)" for key val] errorless_write_op [of crc "(key, None)" for key]
  by (cases cmd) (auto simp: execute_def write_op_def split: prod.splits)

lemma repl_no_errors:
  assumes "repl crc rs out db w = ((r, out'), db', w')" and "no_errors w"
  shows "no_errors w'"
  using assms
proof (induction rs arbitrary: out db w)
  case (Cons r rs)
  show ?case
  proof (cases r)
    case (Line raw history)
    note run = Cons.prems(1) [unfolded Line repl.simps Let_def]
    show ?thesis
      using run Cons.IH Cons.prems(2) execute_no_errors [of crc _ db w]
      by (fastforce split: if_splits option.splits sum.splits command.splits prod.splits res.splits)
  qed (use Cons.prems in auto)
qed simp

section \<open>From process to process\<close>

text \<open>A directory that a store has left in order: tables, and a log of whole records.\<close>

definition rested :: "(bytes \<Rightarrow> u32) \<Rightarrow> directory \<Rightarrow> kv \<Rightarrow> bool" where
  "rested crc d V \<longleftrightarrow>
     (\<exists>ess ws. disk_state d ess \<and> (\<forall>e \<in> set ws. write_fits e) \<and>
        contents d WAL_NAME = frames crc (map wrec ws) \<and> V = view ess ws)"

lemma rested_db_inv: "db_inv crc db w ess ws \<Longrightarrow> rested crc (dir w) (view ess ws)"
  unfolding rested_def db_inv_def contents_def by (auto intro: set_inv_disk_state)

lemma rested_view: "rested crc d V \<Longrightarrow> disk_view crc d V"
  unfolding rested_def by (auto intro: disk_viewI [where tail = "[]"])

lemma rested_open:
  assumes "rested crc (dir w) V" and "root w = Directory" and "with_config crc cfg w = (Ok db, w')"
  obtains ess ws where "db_inv crc db w' ess ws" "view ess ws = V"
proof -
  from assms(1) obtain ess ws where d: "disk_state (dir w) ess" "\<forall>e \<in> set ws. write_fits e"
    "contents (dir w) WAL_NAME = frames crc (map wrec ws)" "V = view ess ws" by (auto simp: rested_def)
  have "\<exists>db w'. with_config crc cfg (calm w) = (Ok db, w') \<and> set_inv (db_set db) ess (dir w') \<and>
      db_map db = apply_writes ws \<and> db_size db = 0 \<and> db_config db = cfg \<and>
      db_wal db = \<lparr>wfile = WAL_NAME, wsync = cfg_sync cfg\<rparr> \<and> bits_per_key (db_set db) = cfg_bits_per_key cfg \<and>
      map_of (dir w') WAL_NAME = Some (frames crc (map wrec ws) @ []) \<and> root w' = Directory \<and> env w' = []"
    by (rule with_config_calm) (use assms(2) d in simp_all)
  then have "db_inv crc db (calm w') ess ws"
    using with_config_ok [OF assms(3,2)] d(2) by (auto simp: db_inv_def)
  then have "db_inv crc db w' ess ws" by (simp add: db_inv_def)
  then show thesis using that d(4) by blast
qed

text \<open>C19: the prompt is a shell over a map that outlives it. The lines are any but \<open>SCAN\<close> (which reads only the memtable),
  lines that do not parse, empty lines, an interrupt and the end of the input included; keys and values are below the
  limit of a log record, and sequence numbers do not run out. If no system call returns an error, the process ends
  by itself and has printed no I/O error (of a file that reached the largest size), then it has printed for each line what
  the map says, and leaves a directory from which the next process goes on with the map as the lines have left it.\<close>

theorem repl_is_shell:
  assumes "rested crc (dir w) V" and "root w = Directory" and "no_errors w"
    and "run_repl crc None rs w = ((Ok u, out), w')" and "\<not> io_error_printed out"
    and "\<forall>r \<in> set rs. line_fits r" and "\<forall>db v. db_open crc w = (Ok db, v) \<longrightarrow> room_for (length rs) db"
  shows "out = fst (shell rs V) \<and> rested crc (dir w') (snd (shell rs V)) \<and> root w' = Directory"
proof -
  obtain db w1 where o: "db_open crc w = (Ok db, w1)"
    using assms(4) by (auto simp: run_repl_def split: res.splits prod.splits)
  obtain r out1 db1 w2 where p: "repl crc rs [] db w1 = ((r, out1), db1, w2)" by (metis prod.collapse)
  obtain q db2 w3 where d: "db_drop db1 w2 = (q, db2, w3)" by (metis prod_cases3)
  have all: "r = Ok u" "out1 = out" "q = Ok ()" "w3 = w'"
    using assms(4) o p d by (auto simp: run_repl_def split: res.splits if_splits)
  obtain ess ws where inv: "db_inv crc db w1 ess ws" "view ess ws = V"
    using rested_open [OF assms(1,2) o [unfolded db_open_def]] .
  have n2: "no_errors w2"
    using repl_no_errors [OF p errorless_open [OF o [unfolded db_open_def] assms(2,3)]] .
  have room: "room_for (length rs) db" using assms(7) o by blast
  from repl_shell [OF p [unfolded all(1,2)] inv(1) room assms(6,5)] obtain ess1 ws1 where
    one: "db_inv crc db1 w2 ess1 ws1" "out = fst (shell rs V)" "view ess1 ws1 = snd (shell rs V)"
    using inv(2) by auto
  from drop_effect [OF one(1) n2 d] all(3) obtain ess2 where
    two: "db_inv crc db2 w3 ess2 ws1" "live_eq ess2 ess1" by auto
  have "rested crc (dir w') (snd (shell rs V))"
    using rested_db_inv [OF two(1)] live_eq_view [OF two(2), of ws1] one(3) all(4) by simp
  then show ?thesis using one(2) two(1) all(4) by (simp add: db_inv_def)
qed

text \<open>A value that is typed, and the next process.\<close>

lemma open_empty_store:
  "\<exists>w1. db_open crc (empty_store []) = (Ok empty_db, w1) \<and> dir w1 = [(WAL_NAME, [])] \<and> env w1 = [] \<and> root w1 = Directory"
proof -
  let ?w = "empty_store []"
  let ?w1 = "?w\<lparr>disk := sh_link WAL_NAME (disk ?w)\<rparr>"
  have "wal_open WAL_NAME (cfg_sync default_config) ?w = (Ok \<lparr>wfile = WAL_NAME, wsync = True\<rparr>, ?w1)"
    by (simp add: wal_open_def sys_open_create_def syscall_atomic_def syscall_def io_bind_def empty_store_def default_config_def)
  moreover have "wal_read crc \<lparr>wfile = WAL_NAME, wsync = True\<rparr> ?w1 = (Ok [], ?w1)"
    using read_loop_torn_tail [of "[]" crc "[]"] by (simp add: wal_read_def empty_store_def contents_def)
  moreover have "set_open (cfg_path default_config) (cfg_bits_per_key default_config) ?w1 = (Ok empty_set, ?w1)"
    using extension_WAL by (simp add: set_open_def io_bind_def next_seq_of_def empty_store_def empty_set_def default_config_def)
  ultimately have "db_open crc ?w = (Ok empty_db, ?w1)"
    by (simp add: db_open_def with_config_def create_dir_all_def io_bind_def empty_db_def replay_def)
      (simp add: empty_store_def)
  then show ?thesis by (simp add: empty_store_def)
qed

theorem repl_is_shell_witness:
  "\<exists>w' db w2. run_repl (\<lambda>bs. 0) None
       [Line (line_of (Put [107] [118])) None, Line (line_of (Get [107])) None, Line (line_of Exit) None] (empty_store []) =
       ((Ok None, [Out (str ''OK''), Out [118]]), w') \<and>
     with_config (\<lambda>bs. 0) default_config (calm w') = (Ok db, w2) \<and> db_get db [107] = Ok (Some [118])"
proof -
  let ?crc = "\<lambda>bs. 0 :: u32"
  let ?rs = "[Line (line_of (Put [107] [118])) None, Line (line_of (Get [107])) None, Line (line_of Exit) None]"
  have words: "is_word [107]" "is_word [118]" by (rule is_word_ascii; simp add: is_whitespace_def)+
  obtain w1 where w1: "db_open ?crc (empty_store []) = (Ok empty_db, w1)" "dir w1 = [(WAL_NAME, [])]" "env w1 = []"
    "root w1 = Directory" using open_empty_store by blast
  have inv: "db_inv ?crc empty_db w1 [] []"
    using empty_store_inv [of ?crc "[]"] w1(2,4) by (simp add: db_inv_def empty_store_def)
  let ?e = "([107], Some [118]) :: entry" and ?x = "wrec ([107], Some [118])"
  have fits: "write_fits ?e" by (simp add: write_fits_def)
  have "length (contents (dir w1) (wfile (db_wal empty_db))) + length (frame ?crc ?x) \<le> MAX_FILE_SIZE"
    using w1(2) by (simp add: contents_def wrec_def MAX_FILE_SIZE_def empty_db_def)
  from wal_append_calm [OF w1(3) record_fits_wrec [OF fits] this] obtain w2 where
    "wal_append ?crc (db_wal empty_db) (wkey ?x) (wvalue ?x) (woperation ?x) w1 = (Ok (), w2)" by blast
  then have "write_op ?crc ?e empty_db w1 = (Ok (), logged ?e empty_db, w2)"
    by (simp add: write_op_logged logged_def empty_db_def default_config_def)
  then have "put ?crc [107] [118] empty_db w1 = (Ok (), logged ?e empty_db, w2)" by (simp add: write_op_def)
  from repl_put_get [OF this _ words] have run:
    "repl ?crc ?rs [] empty_db w1 = ((Ok None, [Out (str ''OK''), Out [118]]), logged ?e empty_db, w2)"
    by (simp add: logged_def empty_db_def db_get_def bt_get_def)
  have "db_rings (logged ?e empty_db) = 0" by (simp add: logged_def empty_db_def)
  then have "compactor_thread (logged ?e empty_db) w2 = (Ok (), logged ?e empty_db, w2)"
    by (subst compactor_thread.simps) simp
  then have "db_drop (logged ?e empty_db) w2 = (Ok (), logged ?e empty_db, w2)" by (simp add: db_drop_def)
  then have proc: "run_repl ?crc None ?rs (empty_store []) = ((Ok None, [Out (str ''OK''), Out [118]]), w2)"
    using w1(1) run by (simp add: run_repl_def)
  have rest: "rested ?crc (dir (empty_store [])) (view [] [])"
    using rested_db_inv [OF empty_store_inv [of ?crc "[]"]] .
  have root: "root (empty_store []) = Directory" "no_errors (empty_store [])" by (simp_all add: empty_store_def no_errors_def)
  have lines: "\<forall>r \<in> set ?rs. line_fits r"
    using parse_line_of [of "Put [107] [118]"] parse_line_of [of "Get [107]"] parse_line_of [of Exit] words fits
    by (simp del: line_of.simps)
  have quiet: "\<not> io_error_printed [Out (str ''OK''), Out [118]]" by (simp add: io_error_printed_def)
  have room: "\<forall>db v. db_open ?crc (empty_store []) = (Ok db, v) \<longrightarrow> room_for (length ?rs) db"
    using w1(1) by (auto simp: room_for_def empty_db_def empty_set_def)
  from repl_is_shell [OF rest root proc quiet lines room] have
    r: "rested ?crc (dir w2) (snd (shell ?rs (view [] [])))" "root w2 = Directory"
    "[Out (str ''OK''), Out [118]] = fst (shell ?rs (view [] []))" by blast+
  have "snd (shell ?rs (view [] [])) [107] = Some [118]"
    using parse_line_of [of "Put [107] [118]"] parse_line_of [of "Get [107]"] parse_line_of [of Exit] words
    by (simp add: split_beta del: line_of.simps)
  then show ?thesis
    using reopen_disk_view [OF rested_view [OF r(1)] r(2), of default_config] proc by fastforce
qed

end
