(* ===== verification/Listener.thy ===== *)
theory Listener
  imports Clients Prompt
begin

text \<open>
  The life of a server (\<open>Server\<close> and \<open>ShutdownHandle\<close> in \<^verbatim>\<open>src/src/server.rs\<close>, \<open>fn serve\<close> in \<^verbatim>\<open>src/src/main.rs\<close>): it is
  bound to an address, its loop accepts connections, and a handle stops it from another thread. Sockets are of
  the operating system: whether an address can be bound, and what \<open>accept\<close> returns, are inputs of the model.
\<close>

section \<open>Starting\<close>

record listener =
  bound_addr :: "bytes res"

record server =
  server_listener :: listener
  server_db :: locked
  server_shutdown :: bool

definition server_bind :: "(bytes \<Rightarrow> listener res) \<Rightarrow> bytes \<Rightarrow> db \<Rightarrow> server res" where
  "server_bind listen addr db =
     bind_res (listen addr) (\<lambda>x.
       Ok \<lparr>server_listener = x, server_db = \<lparr>guarded = db, poisoned = False\<rparr>, server_shutdown = False\<rparr>)"

definition local_addr :: "server \<Rightarrow> bytes res" where
  "local_addr s = bound_addr (server_listener s)"

text \<open>A handle has the address to connect to; it shares the flag with the server.\<close>

record shutdown_handle =
  handle_addr :: bytes

definition shutdown_handle_of :: "server \<Rightarrow> shutdown_handle res" where
  "shutdown_handle_of s = bind_res (local_addr s) (\<lambda>a. Ok \<lparr>handle_addr = a\<rparr>)"

text \<open>\<open>fn serve\<close> up to the loop: the server, and what has been printed. If it returns early, the store is dropped.\<close>

definition leave :: "stop \<Rightarrow> db \<Rightarrow> world \<Rightarrow> server res \<times> world" where
  "leave s db w =
     (case db_drop db w of
        (Ok u, db1, w1) \<Rightarrow> (Fail s, w1)
      | (Fail s1, db1, w1) \<Rightarrow> (Fail s1, w1))"

definition main_serve :: "(bytes \<Rightarrow> u32) \<Rightarrow> (bytes \<Rightarrow> listener res) \<Rightarrow> bytes \<Rightarrow> bool \<Rightarrow> world \<Rightarrow>
    (server res \<times> world) \<times> bytes list" where
  "main_serve crc listen addr sync w =
     (case with_config crc (serve_config sync) w of
        (Fail s, w1) \<Rightarrow> ((Fail s, w1), [])
      | (Ok db, w1) \<Rightarrow>
          (case server_bind listen addr db of
             Fail s \<Rightarrow> (leave s db w1, [])
           | Ok s \<Rightarrow>
               let warning = (if sync then [] else [str ''lsmrs: WAL fsync disabled -- writes are not crash-durable''])
               in case local_addr s of
                    Fail e \<Rightarrow> (leave e (guarded (server_db s)) w1, warning)
                  | Ok a \<Rightarrow> ((Ok s, w1), warning @ [str ''lsmrs listening on '' @ a])))"

lemma leave_fails: "fst (leave s db w) \<noteq> Ok x"
  by (auto simp: leave_def split: prod.split res.split)

section \<open>The loop and its handles\<close>

text \<open>
  The connections that wait to be accepted, the flag, the handles between their store to the flag and their
  connection to the own port, whether such a connection has been refused, and the rounds of the loop so far,
  each with the flag as the loop has found it.
\<close>

record listening =
  backlog :: "accepted list"
  shutdown_flag :: bool
  waking :: nat
  refused :: bool
  rounds :: "(bool \<times> accepted) list"

definition running :: "listening \<Rightarrow> bool" where
  "running x \<longleftrightarrow> (\<forall>r \<in> set (rounds x). \<not> fst r)"

text \<open>A round of \<open>Server::run\<close>; without a connection the loop is blocked in \<open>accept\<close>.\<close>

definition accept_round :: "listening \<Rightarrow> listening option" where
  "accept_round x =
     (case backlog x of
        [] \<Rightarrow> None
      | a # rest \<Rightarrow> if running x then Some (x\<lparr>backlog := rest, rounds := rounds x @ [(shutdown_flag x, a)]\<rparr>) else None)"

text \<open>\<open>ShutdownHandle::shutdown\<close>: first the flag, then a connection, of which the result is ignored.\<close>

definition handle_store :: "listening \<Rightarrow> listening" where
  "handle_store x = x\<lparr>shutdown_flag := True, waking := waking x + 1\<rparr>"

definition handle_connect :: "conn option \<Rightarrow> listening \<Rightarrow> listening" where
  "handle_connect result x =
     (case result of
        Some c \<Rightarrow> x\<lparr>waking := waking x - 1, backlog := backlog x @ [Connected c]\<rparr>
      | None \<Rightarrow> x\<lparr>waking := waking x - 1, refused := True\<rparr>)"

inductive listener_step :: "listening \<Rightarrow> listening \<Rightarrow> bool" where
  arrives: "listener_step x (x\<lparr>backlog := backlog x @ [a]\<rparr>)"
| accepts: "accept_round x = Some y \<Longrightarrow> listener_step x y"
| stores: "listener_step x (handle_store x)"
| connects: "0 < waking x \<Longrightarrow> listener_step x (handle_connect result x)"

inductive listener_steps :: "listening \<Rightarrow> listening \<Rightarrow> bool" where
  none: "listener_steps x x"
| more: "listener_steps x y \<Longrightarrow> listener_step y z \<Longrightarrow> listener_steps x z"

inductive_cases listener_stepE: "listener_step x y"

definition bound :: listening where
  "bound = \<lparr>backlog = [], shutdown_flag = False, waking = 0, refused = False, rounds = []\<rparr>"

text \<open>The connections that have got a thread.\<close>

definition served :: "listening \<Rightarrow> conn list" where
  "served x = fst (accept_loop (rounds x))"

section \<open>A shutdown stops the loop\<close>

text \<open>
  Once the flag is set, the loop has returned or something is going to wake it, unless the connection of the
  handle was refused; and the loop has no round after one that saw the flag.
\<close>

definition listener_inv :: "listening \<Rightarrow> bool" where
  "listener_inv x \<longleftrightarrow>
     (shutdown_flag x \<longrightarrow> running x \<longrightarrow> backlog x \<noteq> [] \<or> 0 < waking x \<or> refused x) \<and>
     (0 < waking x \<longrightarrow> shutdown_flag x) \<and>
     (\<not> running x \<longrightarrow> shutdown_flag x \<and> (\<forall>r \<in> set (butlast (rounds x)). \<not> fst r) \<and> fst (last (rounds x)))"

lemma running_snoc: "running (x\<lparr>backlog := b, rounds := rounds x @ [(f, a)]\<rparr>) \<longleftrightarrow> running x \<and> \<not> f"
  by (auto simp: running_def)

lemma accept_round_Some:
  "accept_round x = Some y \<longleftrightarrow> running x \<and> (\<exists>a rest. backlog x = a # rest \<and>
     y = x\<lparr>backlog := rest, rounds := rounds x @ [(shutdown_flag x, a)]\<rparr>)"
  by (auto simp: accept_round_def split: list.split)

lemma listener_inv_step:
  assumes "listener_step x y" and "listener_inv x"
  shows "listener_inv y"
  using assms
proof (cases rule: listener_step.cases)
  case (arrives a)
  then show ?thesis using assms(2) by (auto simp: listener_inv_def running_def)
next
  case accepts
  then obtain a rest where "running x" "y = x\<lparr>backlog := rest, rounds := rounds x @ [(shutdown_flag x, a)]\<rparr>"
    by (auto simp: accept_round_Some)
  then show ?thesis
    using assms(2) running_snoc [where x = x and b = rest and f = "shutdown_flag x" and a = a] by (auto simp: listener_inv_def) (auto simp: running_def)
next
  case stores
  then show ?thesis using assms(2) by (auto simp: listener_inv_def running_def handle_store_def)
next
  case (connects result)
  then show ?thesis
    using assms(2) by (auto simp: listener_inv_def running_def handle_connect_def split: option.split)
qed

lemma listener_inv_steps: "listener_steps x y \<Longrightarrow> listener_inv x \<Longrightarrow> listener_inv y"
  by (induction rule: listener_steps.induct) (auto intro: listener_inv_step)

lemma listener_inv_bound: "listener_inv bound"
  by (simp add: listener_inv_def bound_def running_def)

text \<open>After the flag is set nobody is served any more, and one round is left at most.\<close>

lemma accept_loop_round:
  "fst (accept_loop (rs @ [(True, a)])) = fst (accept_loop rs)"
  unfolding accept_loop_serves by (induction rs) auto

lemma flagged_step:
  assumes "listener_step x y" and "shutdown_flag x" and "listener_inv x"
  shows "shutdown_flag y" and "served y = served x" and "length (rounds y) \<le> length (rounds x) + (if running x then 1 else 0)"
    and "running y \<Longrightarrow> rounds y = rounds x"
proof -
  have "shutdown_flag y \<and> served y = served x \<and> length (rounds y) \<le> length (rounds x) + (if running x then 1 else 0) \<and>
      (running y \<longrightarrow> rounds y = rounds x)"
    using assms(1)
  proof (cases rule: listener_step.cases)
    case accepts
    then obtain a rest where "running x" "y = x\<lparr>backlog := rest, rounds := rounds x @ [(True, a)]\<rparr>"
      using assms(2) by (auto simp: accept_round_Some)
    then show ?thesis
      using assms(2) accept_loop_round [of "rounds x" a] by (simp add: served_def) (simp add: running_def)
  qed (use assms(2) in \<open>auto simp: served_def handle_store_def handle_connect_def split: option.split\<close>)
  then show "shutdown_flag y" "served y = served x" "length (rounds y) \<le> length (rounds x) + (if running x then 1 else 0)"
    "running y \<Longrightarrow> rounds y = rounds x" by blast+
qed

lemma flagged_steps:
  assumes "listener_steps x y" and "shutdown_flag x" and "listener_inv x"
  shows "shutdown_flag y \<and> served y = served x \<and> (running y \<longrightarrow> rounds y = rounds x)"
  using assms
proof (induction rule: listener_steps.induct)
  case (more x y z)
  then have y: "shutdown_flag y" "served y = served x" "running y \<longrightarrow> rounds y = rounds x" by blast+
  have "listener_inv y" by (rule listener_inv_steps [OF more(1,5)])
  note fs = flagged_step [OF more(2) y(1) this]
  have "running y" if "running z"
    using fs(4) [OF that] that by (simp add: running_def)
  then show ?case using fs y by simp
qed simp

text \<open>C27: a shutdown stops the server. From the moment a handle has set the flag no further connection is served,
  however many arrive; and once its connection has reached the own port the loop cannot stay blocked: it has returned, or
  \<open>accept\<close> has something to return and the next round returns. If the connection is refused, which the handle ignores, the
  loop may wait on for a client.\<close>

theorem shutdown_stops_server:
  assumes "listener_steps bound x" and "shutdown_flag x" and "listener_steps x y"
  shows "served y = served x \<and>
    (waking y = 0 \<longrightarrow> \<not> refused y \<longrightarrow> running y \<longrightarrow>
       (\<exists>z. accept_round y = Some z \<and> \<not> running z \<and> served z = served x))"
proof -
  have inv: "listener_inv x" by (rule listener_inv_steps [OF assms(1) listener_inv_bound])
  have inv_y: "listener_inv y" by (rule listener_inv_steps [OF assms(3) inv])
  from flagged_steps [OF assms(3,2) inv] have y: "shutdown_flag y" "served y = served x" by blast+
  have "\<exists>z. accept_round y = Some z \<and> \<not> running z \<and> served z = served x"
    if w: "waking y = 0" "\<not> refused y" "running y"
  proof -
    have "backlog y \<noteq> []" using inv_y y(1) w by (simp add: listener_inv_def)
    then obtain a rest where b: "backlog y = a # rest" by (cases "backlog y") auto
    let ?z = "y\<lparr>backlog := rest, rounds := rounds y @ [(True, a)]\<rparr>"
    have "accept_round y = Some ?z" using b w(3) y(1) by (simp add: accept_round_def)
    moreover have "\<not> running ?z" by (simp add: running_def)
    moreover have "served ?z = served x" using accept_loop_round [of "rounds y" a] y(2) by (simp add: served_def)
    ultimately show ?thesis by blast
  qed
  then show ?thesis using y(2) by blast
qed

text \<open>A client is served; a handle stops the server, while another client arrives before the handle's own connection.\<close>

theorem shutdown_stops_server_witness:
  "\<exists>x y z. listener_steps bound x \<and> listener_steps x y \<and> length (served x) = 1 \<and> length (backlog y) = 2 \<and>
     accept_round y = Some z \<and> \<not> running z \<and> length (served z) = 1"
proof -
  let ?c = "\<lparr>incoming = \<lparr>pending = [], broken = None\<rparr>, sent = [], capacity = None\<rparr>"
  let ?wait = "bound\<lparr>backlog := [Connected ?c]\<rparr>"
  let ?got = "bound\<lparr>rounds := [(False, Connected ?c)]\<rparr>"
  let ?set = "handle_store ?got"
  let ?late = "?set\<lparr>backlog := [Connected ?c]\<rparr>"
  let ?woken = "handle_connect (Some ?c) ?late"
  have s1: "listener_step bound ?wait" using arrives [of bound "Connected ?c"] by (simp add: bound_def)
  have s2: "listener_step ?wait ?got"
    by (rule accepts) (simp add: accept_round_def running_def bound_def)
  have x: "listener_steps bound ?set"
    by (rule more [OF more [OF more [OF none s1] s2] stores])
  have s3: "listener_step ?set ?late" using arrives [of ?set "Connected ?c"] by (simp add: bound_def handle_store_def)
  have s4: "listener_step ?late ?woken" by (rule connects) (simp add: handle_store_def)
  have y: "listener_steps ?set ?woken" by (rule more [OF more [OF none s3] s4])
  have "shutdown_flag ?set" by (simp add: handle_store_def)
  from shutdown_stops_server [OF x this y] obtain z where z: "accept_round ?woken = Some z" "\<not> running z" "served z = served ?set"
    by (auto simp: handle_store_def handle_connect_def running_def bound_def)
  moreover have "length (served ?set) = 1" "length (backlog ?woken) = 2"
    by (simp_all add: served_def handle_store_def handle_connect_def bound_def)
  ultimately show ?thesis using x y by metis
qed

section \<open>From server to server\<close>

lemma main_serve_start:
  assumes "main_serve crc listen addr sync w = ((Ok s, w'), out)" and "rested crc (dir w) V" and "root w = Directory"
  shows "serving crc (server_db s) w' V"
proof -
  obtain db where db: "with_config crc (serve_config sync) w = (Ok db, w')" and bound: "server_bind listen addr db = Ok s"
    using assms(1) leave_fails [of _ _ _ s] unfolding main_serve_def
    by (auto simp: Let_def split: prod.splits res.splits) (metis fst_conv)+
  then have "guarded (server_db s) = db" "\<not> poisoned (server_db s)" by (auto simp: server_bind_def bind_res_eq_Ok)
  moreover obtain ess ws where "db_inv crc db w' ess ws" "view ess ws = V" using rested_open [OF assms(2,3) db] .
  ultimately show ?thesis by (auto simp: serving_def)
qed

lemma main_serve_ok:
  assumes "rested crc (dir w) V" and "root w = Directory" and "listen addr = Ok x" and "bound_addr x = Ok a"
  shows "\<exists>s out w'. main_serve crc listen addr sync (calm w) = ((Ok s, w'), out) \<and> serving crc (server_db s) w' V"
proof -
  obtain db w' where db: "with_config crc (serve_config sync) (calm w) = (Ok db, w')"
    using reopen_disk_view [OF rested_view [OF assms(1)] assms(2)] by blast
  then have "\<exists>s out. main_serve crc listen addr sync (calm w) = ((Ok s, w'), out)"
    using assms(3,4) by (simp add: main_serve_def server_bind_def local_addr_def)
  then obtain s out where "main_serve crc listen addr sync (calm w) = ((Ok s, w'), out)" by blast
  with main_serve_start [OF this] assms(1,2) show ?thesis by (metis calm_simps(2,3))
qed

text \<open>C26: a server goes on where the one before it was. A connection to a server on the directory of an earlier one is
  answered command by command as the map says that the earlier one has left, and the server that is started on the
  directory afterwards, without the first having been stopped in order, has the map as the connection has left it. It
  is otherwise only if a system call during the connection is not done, the first of these in a command that writes.\<close>

theorem restart_keeps_served:
  assumes "rested crc (dir w) V" and "root w = Directory" and "main_serve crc listen addr sync w = ((Ok s, w1), msgs)"
    and "ample_for cmds (server_db s) w1" and "\<forall>args \<in> set cmds. command_fits args"
    and "incoming c = \<lparr>pending = concat (map encode_command cmds), broken = None\<rparr>"
    and "capacity c = None" and "serve crc c (server_db s) w1 = (r, c', l', w')" and "listen2 addr2 = Ok x" and "bound_addr x = Ok a"
  shows "\<exists>out. sent c' = sent c @ out \<and>
    (r = Ok () \<and> out = fst (session cmds V) \<and>
       (\<exists>s2 msgs2 w2. main_serve crc listen2 addr2 sync2 (calm w') = ((Ok s2, w2), msgs2) \<and>
          serving crc (server_db s2) w2 (snd (session cmds V))) \<or>
     (\<exists>n f. first_fault f w1 \<and> failed_at n f cmds V r out))"
proof -
  have "serving crc (server_db s) w1 V" by (rule main_serve_start [OF assms(3,1,2)])
  from serve_session_effect [OF this assms(5,4,6-8)] obtain out where out: "sent c' = sent c @ out"
    "r = Ok () \<and> out = fst (session cmds V) \<and> serving crc l' w' (snd (session cmds V)) \<or>
      (\<exists>n f. first_fault f w1 \<and> failed_at n f cmds V r out)"
    unfolding session_ends_def by blast
  from out(2) show ?thesis
  proof (elim disjE conjE)
    assume ok: "r = Ok ()" "out = fst (session cmds V)" and "serving crc l' w' (snd (session cmds V))"
    then obtain ess ws where inv: "db_inv crc (guarded l') w' ess ws" "view ess ws = snd (session cmds V)"
      by (auto simp: serving_def)
    then have "root w' = Directory" by (simp add: db_inv_def)
    then have "\<exists>s2 msgs2 w2. main_serve crc listen2 addr2 sync2 (calm w') = ((Ok s2, w2), msgs2) \<and>
        serving crc (server_db s2) w2 (snd (session cmds V))"
      using main_serve_ok [of crc w' "snd (session cmds V)" listen2 addr2 x a sync2] rested_db_inv [OF inv(1)] inv(2) assms(9,10)
      by simp
    then show ?thesis using ok out(1) by blast
  qed (use out(1) in blast)
qed

theorem restart_keeps_served_witness:
  "\<exists>s msgs w1 c' l' w' s2 msgs2 w2.
     main_serve (\<lambda>bs. 0) (\<lambda>addr. Ok \<lparr>bound_addr = Ok addr\<rparr>) DEFAULT_ADDR True (empty_store []) = ((Ok s, w1), msgs) \<and>
     serve (\<lambda>bs. 0) \<lparr>incoming = \<lparr>pending = encode_command [str ''SET'', [1], [7]], broken = None\<rparr>, sent = [], capacity = None\<rparr>
       (server_db s) w1 = (Ok (), c', l', w') \<and>
     sent c' = write_to (Simple (str ''OK'')) \<and>
     main_serve (\<lambda>bs. 0) (\<lambda>addr. Ok \<lparr>bound_addr = Ok addr\<rparr>) DEFAULT_ADDR True (calm w') = ((Ok s2, w2), msgs2) \<and>
     db_get (guarded (server_db s2)) [1] = Ok (Some [7])"
proof -
  let ?crc = "\<lambda>bs. 0 :: u32" and ?listen = "\<lambda>addr. Ok \<lparr>bound_addr = Ok addr\<rparr> :: listener res" and ?cmds = "[[str ''SET'', [1], [7]]]"
  let ?c = "\<lparr>incoming = \<lparr>pending = concat (map encode_command ?cmds), broken = None\<rparr>, sent = [], capacity = None\<rparr>"
  have "serve_config True = default_config" by (simp add: serve_config_def default_config_def)
  then obtain w1 where w1: "with_config ?crc (serve_config True) (empty_store []) = (Ok empty_db, w1)"
    "dir w1 = [(WAL_NAME, [])]" "env w1 = []"
    using open_empty_store [of ?crc] by (auto simp: db_open_def)
  let ?s = "\<lparr>server_listener = \<lparr>bound_addr = Ok DEFAULT_ADDR\<rparr>, server_db = empty_locked, server_shutdown = False\<rparr>"
  obtain msgs where start: "main_serve ?crc ?listen DEFAULT_ADDR True (empty_store []) = ((Ok ?s, w1), msgs)"
    using w1(1) by (simp add: main_serve_def server_bind_def local_addr_def empty_locked_def)
  obtain r c' l' w' where op: "serve ?crc ?c (server_db ?s) w1 = (r, c', l', w')" by (metis prod_cases4)
  have rest: "rested ?crc (dir (empty_store [])) (view [] [])"
    using rested_db_inv [OF empty_store_inv [of ?crc "[]"]] .
  have fits: "\<forall>args \<in> set ?cmds. command_fits args"
    using demo_arg_fits by (simp add: command_fits_def MAX_ARGS_def)
  have root: "root (empty_store []) = Directory" by (simp add: empty_store_def)
  have amp: "ample_for ?cmds (server_db ?s) w1" using empty_ample w1(2) by simp
  have ses: "fst (session ?cmds (view [] [])) = write_to (Simple (str ''OK''))" "snd (session ?cmds (view [] [])) [1] = Some [7]"
    by (simp_all add: redis_def redis_data_def to_ascii_uppercase_def str_def del: write_to.simps)
  from restart_keeps_served [OF rest root start amp fits _ _ op, of ?listen DEFAULT_ADDR "\<lparr>bound_addr = Ok DEFAULT_ADDR\<rparr>" DEFAULT_ADDR True]
  have "r = Ok () \<and> sent c' = fst (session ?cmds (view [] [])) \<and>
      (\<exists>s2 msgs2 w2. main_serve ?crc ?listen DEFAULT_ADDR True (calm w') = ((Ok s2, w2), msgs2) \<and>
         serving ?crc (server_db s2) w2 (snd (session ?cmds (view [] []))))"
    using w1(3) by auto
  then obtain s2 msgs2 w2 where "r = Ok ()" "sent c' = write_to (Simple (str ''OK''))"
    "main_serve ?crc ?listen DEFAULT_ADDR True (calm w') = ((Ok s2, w2), msgs2)"
    "serving ?crc (server_db s2) w2 (snd (session ?cmds (view [] [])))" using ses(1) by metis
  moreover have "db_get (guarded (server_db s2)) [1] = Ok (Some [7])"
    using serving_get [OF calculation(4), of "[1]"] ses(2) calculation(4) unfolding locked_read_def serving_def by metis
  moreover have "concat (map encode_command ?cmds) = encode_command [str ''SET'', [1], [7]]" by simp
  ultimately show ?thesis using start op by metis
qed

end
