(* ===== verification/Load.thy ===== *)
theory Load
  imports Server Float64 Hash
begin

text \<open>
  The load generator, \<^verbatim>\<open>src/src/bin/ycsb.rs\<close>: its random numbers, the distributions of keys, the commands that
  the loader and the workers send (with the client of theory Client), the arguments and the percentiles of
  the report. \<open>powf\<close> of the standard library is not specified to the last bit; it is a parameter.
\<close>

section \<open>Random numbers\<close>

definition rng_next :: "u64 \<Rightarrow> u64" where
  "rng_next s =
     (let s1 = s XOR push_bit 13 s;
          s2 = s1 XOR drop_bit 7 s1
      in s2 XOR push_bit 17 s2)"

text \<open>\<open>(next >> 11) as f64 / (1 << 53) as f64\<close>: both conversions and the quotient are exact.\<close>

definition rng_f64 :: "u64 \<Rightarrow> f64" where
  "rng_f64 r = F64 (int (unat (drop_bit 11 r))) (-53)"

definition worker_seed :: "nat \<Rightarrow> u64" where
  "worker_seed t = 0x2545F4914F6CDD1D XOR ((of_nat t + 1) * 0x9E3779B9)"

lemma xorshift_left_kernel:
  fixes z :: u64
  assumes "z XOR push_bit k z = 0" and "0 < k"
  shows "z = 0"
proof (rule bit_word_eqI)
  fix n
  show "n < LENGTH(64) \<Longrightarrow> bit z n = bit (0 :: u64) n"
  proof (induction n rule: less_induct)
    case (less n)
    have "bit (z XOR push_bit k z) n = bit (0 :: u64) n" using assms(1) by simp
    then have "bit z n = (k \<le> n \<and> bit z (n - k))"
      using less.prems by (auto simp: bit_xor_iff bit_push_bit_iff)
    then show ?case using less assms(2) by auto
  qed
qed

lemma xorshift_right_kernel:
  fixes z :: u64
  assumes "z XOR drop_bit k z = 0" and "0 < k"
  shows "z = 0"
proof (rule bit_word_eqI)
  fix n
  show "n < LENGTH(64) \<Longrightarrow> bit z n = bit (0 :: u64) n"
  proof (induction "64 - n" arbitrary: n rule: less_induct)
    case less
    have "bit (z XOR drop_bit k z) n = bit (0 :: u64) n" using assms(1) by simp
    then have eq: "bit z n = bit z (k + n)" by (simp add: bit_xor_iff bit_drop_bit_eq)
    show ?case
    proof (cases "k + n < 64")
      case True
      then show ?thesis using less(1) [of "k + n"] eq assms(2) by simp
    next
      case False
      then have "\<not> bit z (k + n)" by (auto dest: bit_imp_le_length)
      then show ?thesis using eq by simp
    qed
  qed
qed

lemma xor_push_bit: "push_bit k x XOR push_bit k y = push_bit k (x XOR y)" for x y :: u64
  by (rule bit_word_eqI) (auto simp: bit_xor_iff bit_push_bit_iff)

lemma xor_drop_bit: "drop_bit k x XOR drop_bit k y = drop_bit k (x XOR y)" for x y :: u64
  by (rule bit_word_eqI) (auto simp: bit_xor_iff bit_drop_bit_eq)

lemma xor_eq_0_iff: "x XOR y = 0 \<longleftrightarrow> x = y" for x y :: u64
  by (auto simp: bit_eq_iff bit_xor_iff)

lemma xor_cancel: "c XOR x = c XOR y \<longleftrightarrow> x = y" for c x y :: u64
  by (auto simp: bit_eq_iff bit_xor_iff)

lemma xorshift_inject:
  fixes x y :: u64
  assumes "0 < k"
  shows "x XOR push_bit k x = y XOR push_bit k y \<longleftrightarrow> x = y"
    and "x XOR drop_bit k x = y XOR drop_bit k y \<longleftrightarrow> x = y"
proof -
  have "(x XOR push_bit k x) XOR (y XOR push_bit k y) = (x XOR y) XOR push_bit k (x XOR y)"
    by (simp add: xor.assoc xor.left_commute flip: xor_push_bit)
  then show "x XOR push_bit k x = y XOR push_bit k y \<longleftrightarrow> x = y"
    using xorshift_left_kernel [of "x XOR y" k] assms by (metis xor_eq_0_iff)
  have "(x XOR drop_bit k x) XOR (y XOR drop_bit k y) = (x XOR y) XOR drop_bit k (x XOR y)"
    by (simp add: xor.assoc xor.left_commute flip: xor_drop_bit)
  then show "x XOR drop_bit k x = y XOR drop_bit k y \<longleftrightarrow> x = y"
    using xorshift_right_kernel [of "x XOR y" k] assms by (metis xor_eq_0_iff)
qed

lemma rng_next_inject: "rng_next x = rng_next y \<longleftrightarrow> x = y"
  unfolding rng_next_def Let_def by (simp only: xorshift_inject zero_less_numeral)

lemma rng_next_0: "rng_next x = 0 \<longleftrightarrow> x = 0"
  using rng_next_inject [of x 0] by (simp add: rng_next_def)

lemma rng_iterate_inject: "(rng_next ^^ n) x = (rng_next ^^ n) y \<longleftrightarrow> x = y"
  by (induction n) (simp_all add: rng_next_inject)

lemma rng_iterate_0: "(rng_next ^^ n) x = 0 \<longleftrightarrow> x = 0"
  by (induction n) (simp_all add: rng_next_0)

lemma seed_factor: "(0x9E3779B9 :: u64) * 16744077200915741833 = 1"
  by simp

lemma worker_seed_inject:
  assumes "t < 2 ^ 64" and "u < 2 ^ 64" and "worker_seed t = worker_seed u"
  shows "t = u"
proof -
  have "(of_nat t + 1) * (0x9E3779B9 :: u64) = (of_nat u + 1) * 0x9E3779B9"
    using assms(3) unfolding worker_seed_def xor_cancel .
  then have "(of_nat t + 1 :: u64) = of_nat u + 1"
    using mul_inverse_cancel [OF seed_factor] by metis
  then have "(of_nat t :: u64) = of_nat u" by (simp only: add_right_cancel)
  then have "unat (of_nat t :: u64) = unat (of_nat u :: u64)" by (rule arg_cong)
  then show ?thesis using assms(1,2) by (simp only: unat_of_nat_u64)
qed

lemma worker_seed_nonzero:
  assumes "t < 10 ^ 19"
  shows "worker_seed t \<noteq> 0"
proof
  assume "worker_seed t = 0"
  then have "(of_nat t + 1) * (0x9E3779B9 :: u64) = 0x2545F4914F6CDD1D"
    unfolding worker_seed_def xor_eq_0_iff by (rule sym)
  then have "(of_nat t + 1 :: u64) = 0x2545F4914F6CDD1D * 16744077200915741833"
    using mul_inverse_cancel [OF seed_factor] by metis
  also have "(0x2545F4914F6CDD1D * 16744077200915741833 :: u64) = 10067411241816531077" by simp
  finally have "(of_nat (Suc t) :: u64) = 10067411241816531077" by (simp only: of_nat_Suc add.commute)
  then have "unat (of_nat (Suc t) :: u64) = unat (10067411241816531077 :: u64)" by (rule arg_cong)
  also have "unat (10067411241816531077 :: u64) = 10067411241816531077" by simp
  finally have "unat (of_nat (Suc t) :: u64) = 10067411241816531077" .
  moreover have "unat (of_nat (Suc t) :: u64) = Suc t" using assms by (intro unat_of_nat_u64) simp
  ultimately show False using assms by simp
qed

section \<open>More floating point\<close>

text \<open>Sums and differences are exact before they are rounded.\<close>

definition f64_sum :: "int \<Rightarrow> f64 \<Rightarrow> f64 \<Rightarrow> f64" where
  "f64_sum sign x y =
     (let e = min (expo x) (expo y)
      in f64_nearest (mant x * 2 ^ nat (expo x - e) + sign * (mant y * 2 ^ nat (expo y - e))) e)"

definition f64_add :: "f64 \<Rightarrow> f64 \<Rightarrow> f64" where "f64_add = f64_sum 1"

definition f64_sub :: "f64 \<Rightarrow> f64 \<Rightarrow> f64" where "f64_sub = f64_sum (- 1)"

text \<open>
  A quotient is computed to more than 60 bits, with one more bit below them that says whether there is a
  remainder, before it is rounded. \<open>None\<close> is a quotient by zero, infinite or not a number.
\<close>

definition f64_div :: "f64 \<Rightarrow> f64 \<Rightarrow> f64 option" where
  "f64_div x y =
     (if mant y = 0 then None
      else
        let d = nat \<bar>mant y\<bar>; k = 64 + bit_len d; n = nat \<bar>mant x\<bar> * 2 ^ k;
            q = 2 * (n div d) + (if n mod d = 0 then 0 else 1)
        in Some (f64_nearest (sgn (mant x) * sgn (mant y) * int q) (expo x - expo y - int k - 1)))"

text \<open>\<open>x as u64\<close> truncates and saturates; \<open>x.round() as usize\<close> rounds ties away from zero first.\<close>

definition f64_as_u64 :: "f64 \<Rightarrow> nat" where
  "f64_as_u64 x =
     (let n = nat (mant x)
      in min (2 ^ 64 - 1) (if 0 \<le> expo x then n * 2 ^ nat (expo x) else n div 2 ^ nat (- expo x)))"

definition f64_round_usize :: "f64 \<Rightarrow> nat" where
  "f64_round_usize x =
     (let n = nat (mant x)
      in min (2 ^ 64 - 1)
           (if 0 \<le> expo x then n * 2 ^ nat (expo x)
            else (2 * n + 2 ^ nat (- expo x)) div (2 * 2 ^ nat (- expo x))))"

abbreviation (input) "one \<equiv> F64 1 0"

definition THETA :: f64 where
  "THETA = F64 8917127262193582 (-53)"

section \<open>Which key is next\<close>

text \<open>
  \<open>eta\<close> is \<open>None\<close> if it is not a finite number, as for a key space of two; every number computed with it
  is then not a number, and cast to zero.
\<close>

record zipfian =
  z_n :: nat
  zetan :: f64
  eta :: "f64 option"
  alpha :: f64

datatype distribution = Uniform nat | Zipf zipfian

text \<open>The terms of the sum; \<open>powf\<close> of a positive number is positive, so that the quotient exists.\<close>

definition zeta_term :: "(f64 \<Rightarrow> f64 \<Rightarrow> f64) \<Rightarrow> nat \<Rightarrow> f64" where
  "zeta_term powf i = (case f64_div one (powf (f64_of_nat i) THETA) of None \<Rightarrow> F64 0 0 | Some x \<Rightarrow> x)"

definition zeta :: "(f64 \<Rightarrow> f64 \<Rightarrow> f64) \<Rightarrow> nat \<Rightarrow> f64" where
  "zeta powf n = foldl f64_add (F64 0 0) (map (zeta_term powf) [1..<Suc n])"

definition zipfian_new :: "(f64 \<Rightarrow> f64 \<Rightarrow> f64) \<Rightarrow> nat \<Rightarrow> zipfian" where
  "zipfian_new powf n =
     (let zn = zeta powf n; zeta2 = zeta powf 2;
          finite_eta = Option.bind (f64_div (F64 2 0) (f64_of_nat n)) (\<lambda>x.
            Option.bind (f64_div zeta2 zn) (\<lambda>y.
            f64_div (f64_sub one (powf x (f64_sub one THETA))) (f64_sub one y)))
      in \<lparr>z_n = n, zetan = zn, eta = finite_eta,
          alpha = (case f64_div one (f64_sub one THETA) of None \<Rightarrow> F64 0 0 | Some x \<Rightarrow> x)\<rparr>)"

definition zipfian_raw :: "(f64 \<Rightarrow> f64 \<Rightarrow> f64) \<Rightarrow> zipfian \<Rightarrow> f64 \<Rightarrow> nat" where
  "zipfian_raw powf z u =
     (let uz = f64_mult u (zetan z)
      in if f64_less uz one then 0
         else if f64_less uz (f64_add one (powf (F64 1 (-1)) THETA)) then 1
         else case eta z of
           None \<Rightarrow> 0
         | Some et \<Rightarrow>
             f64_as_u64 (f64_mult (f64_of_nat (z_n z))
               (powf (f64_add (f64_sub (f64_mult et u) et) one) (alpha z))))"

text \<open>The next key, and the state of the generator. A remainder by zero panics.\<close>

definition zipfian_next :: "(f64 \<Rightarrow> f64 \<Rightarrow> f64) \<Rightarrow> zipfian \<Rightarrow> u64 \<Rightarrow> nat res \<times> u64" where
  "zipfian_next powf z rng =
     (let r = rng_next rng; raw = zipfian_raw powf z (rng_f64 r)
      in (if z_n z = 0 then Fail Panic
          else Ok (unat (hash64 (u64_to_le (of_nat raw))) mod z_n z), r))"

fun next_key :: "(f64 \<Rightarrow> f64 \<Rightarrow> f64) \<Rightarrow> distribution \<Rightarrow> u64 \<Rightarrow> nat res \<times> u64" where
  "next_key powf (Uniform n) rng =
     (let r = rng_next rng in (if n = 0 then Fail Panic else Ok (unat r mod n), r))"
| "next_key powf (Zipf z) rng = zipfian_next powf z rng"

section \<open>Loader and workers\<close>

definition load_value :: bytes where
  "load_value = replicate 100 120"

definition load_commands :: "nat \<Rightarrow> bytes list list" where
  "load_commands records = map (\<lambda>i. [str ''SET'', ycsb_key i, load_value]) [0..<records]"

definition read_share :: "bytes \<Rightarrow> f64 res" where
  "read_share workload =
     (if workload = str ''a'' then Ok (F64 4503599627370496 (-53))
      else if workload = str ''b'' then Ok (F64 8556839292003942 (-53))
      else if workload = str ''c'' then Ok (F64 4503599627370496 (-52))
      else Fail Panic)"

definition key_distribution :: "(f64 \<Rightarrow> f64 \<Rightarrow> f64) \<Rightarrow> bytes \<Rightarrow> nat \<Rightarrow> distribution" where
  "key_distribution powf dist records =
     (if dist = str ''uniform'' then Uniform records else Zipf (zipfian_new powf records))"

text \<open>The loop of a worker, as the commands that it sends.\<close>

fun worker_commands :: "(f64 \<Rightarrow> f64 \<Rightarrow> f64) \<Rightarrow> distribution \<Rightarrow> f64 \<Rightarrow> nat \<Rightarrow> u64 \<Rightarrow> bytes list list res" where
  "worker_commands powf keys share 0 rng = Ok []"
| "worker_commands powf keys share (Suc n) rng =
     (case next_key powf keys rng of
        (Fail s, r) \<Rightarrow> Fail s
      | (Ok i, r) \<Rightarrow>
          let r1 = rng_next r; is_read = f64_less (rng_f64 r1) share;
              cmd = (if is_read then [str ''GET'', ycsb_key i] else [str ''SET'', ycsb_key i, load_value])
          in bind_res (worker_commands powf keys share n r1) (\<lambda>cmds. Ok (cmd # cmds)))"

definition worker :: "(f64 \<Rightarrow> f64 \<Rightarrow> f64) \<Rightarrow> bytes \<Rightarrow> nat \<Rightarrow> f64 \<Rightarrow> nat \<Rightarrow> nat \<Rightarrow> nat \<Rightarrow> bytes list list res" where
  "worker powf dist records share ops threads t =
     worker_commands powf (key_distribution powf dist records) share (ops div threads) (worker_seed t)"

section \<open>Arguments and percentiles\<close>

definition arg :: "bytes list \<Rightarrow> bytes \<Rightarrow> bytes \<Rightarrow> bytes" where
  "arg args name fallback =
     (case dropWhile (\<lambda>a. a \<noteq> name) args of _ # v # _ \<Rightarrow> v | _ \<Rightarrow> fallback)"

text \<open>What \<open>main\<close> reads from its arguments. An argument that does not parse, or a workload without a name, panics.\<close>

record load_options =
  opt_addr :: bytes
  opt_workload :: bytes
  opt_records :: nat
  opt_ops :: nat
  opt_threads :: nat
  opt_dist :: bytes
  opt_share :: f64

definition parsed :: "bytes \<Rightarrow> nat res" where
  "parsed bs = (case parse_u64 bs of None \<Rightarrow> Fail Panic | Some n \<Rightarrow> Ok n)"

definition load_main :: "bytes list \<Rightarrow> load_options res" where
  "load_main args =
     bind_res (parsed (arg args (str ''--records'') (str ''50000''))) (\<lambda>n.
     bind_res (parsed (arg args (str ''--ops'') (str ''50000''))) (\<lambda>k.
     bind_res (parsed (arg args (str ''--threads'') (str ''8''))) (\<lambda>t.
     bind_res (read_share (arg args (str ''--workload'') (str ''a''))) (\<lambda>s.
       Ok \<lparr>opt_addr = arg args (str ''--addr'') (str ''127.0.0.1:6379''),
           opt_workload = arg args (str ''--workload'') (str ''a''), opt_records = n, opt_ops = k, opt_threads = t,
           opt_dist = arg args (str ''--distribution'') (str ''zipfian''), opt_share = s\<rparr>))))"

definition percentile :: "nat list \<Rightarrow> f64 \<Rightarrow> nat res" where
  "percentile samples p =
     (if samples = [] then Ok 0
      else
        let index = f64_round_usize (f64_mult (f64_sub (f64_of_nat (length samples)) one) p)
        in if index < length samples then Ok (samples ! index) else Fail Panic)"

text \<open>The lines of the report: a name, the number of samples and their percentiles, in nanoseconds.\<close>

definition PERCENTILES :: "f64 list" where
  "PERCENTILES = [F64 4503599627370496 (-53), F64 8556839292003942 (-53),
     F64 8917127262193582 (-53), F64 8998192055486251 (-53)]"

fun collect_res :: "'a res list \<Rightarrow> 'a list res" where
  "collect_res [] = Ok []"
| "collect_res (r # rs) = bind_res r (\<lambda>x. bind_res (collect_res rs) (\<lambda>xs. Ok (x # xs)))"

definition report_line :: "bytes \<times> nat list \<Rightarrow> (bytes \<times> nat \<times> nat list) res" where
  "report_line = (\<lambda>(name, samples).
     bind_res (collect_res (map (percentile samples) PERCENTILES)) (\<lambda>ps. Ok (name, length samples, ps)))"

definition report :: "nat list \<Rightarrow> nat list \<Rightarrow> (bytes \<times> nat \<times> nat list) list res" where
  "report reads writes =
     collect_res (map report_line
       (filter (\<lambda>(name, samples). samples \<noteq> [])
         [(str ''read'', sort reads), (str ''update'', sort writes)]))"

section \<open>What the generator relies on\<close>

text \<open>The defaults, and two arguments that panic.\<close>

lemma load_main_defaults:
  "load_main [str ''ycsb''] =
     Ok \<lparr>opt_addr = str ''127.0.0.1:6379'', opt_workload = str ''a'', opt_records = 50000, opt_ops = 50000, opt_threads = 8,
       opt_dist = str ''zipfian'', opt_share = F64 4503599627370496 (-53)\<rparr>"
  "load_main [str ''ycsb'', str ''--workload'', str ''d''] = Fail Panic"
  "load_main [str ''ycsb'', str ''--ops'', str ''-1''] = Fail Panic"
  by (simp_all add: load_main_def arg_def parsed_def read_share_def parse_u64_def is_digit_def)

lemma next_key_range: "next_key powf d rng = (Ok i, r) \<Longrightarrow> i < (case d of Uniform n \<Rightarrow> n | Zipf z \<Rightarrow> z_n z)"
  by (cases d) (auto simp: zipfian_next_def Let_def split: if_splits)

lemma key_distribution_range:
  "(case key_distribution powf dist n of Uniform m \<Rightarrow> m | Zipf z \<Rightarrow> z_n z) = n"
  by (simp add: key_distribution_def zipfian_new_def Let_def)

lemma next_key_total:
  "0 < (case d of Uniform n \<Rightarrow> n | Zipf z \<Rightarrow> z_n z) \<Longrightarrow> \<exists>i r. next_key powf d rng = (Ok i, r)"
  by (cases d) (auto simp: zipfian_next_def Let_def)

text \<open>The commands of a worker: as many as asked, each a read or a write of a key of the loader.\<close>

definition touches :: "nat \<Rightarrow> bytes list \<Rightarrow> bool" where
  "touches n cmd \<longleftrightarrow> (\<exists>i < n. cmd = [str ''GET'', ycsb_key i] \<or> cmd = [str ''SET'', ycsb_key i, load_value])"

lemma worker_commands_touch:
  assumes "0 < (case d of Uniform n \<Rightarrow> n | Zipf z \<Rightarrow> z_n z)"
  shows "\<exists>cmds. worker_commands powf d share k rng = Ok cmds \<and> length cmds = k \<and>
    (\<forall>cmd \<in> set cmds. touches (case d of Uniform n \<Rightarrow> n | Zipf z \<Rightarrow> z_n z) cmd)"
proof (induction k arbitrary: rng)
  case 0
  then show ?case by simp
next
  case (Suc k)
  obtain i r where nk: "next_key powf d rng = (Ok i, r)" using next_key_total [OF assms] by blast
  obtain cmds where c: "worker_commands powf d share k (rng_next r) = Ok cmds" "length cmds = k"
    "\<forall>cmd \<in> set cmds. touches (case d of Uniform n \<Rightarrow> n | Zipf z \<Rightarrow> z_n z) cmd" using Suc by blast
  have "touches (case d of Uniform n \<Rightarrow> n | Zipf z \<Rightarrow> z_n z)
      (if f64_less (rng_f64 (rng_next r)) share then [str ''GET'', ycsb_key i] else [str ''SET'', ycsb_key i, load_value])"
    using next_key_range [OF nk] unfolding touches_def by auto
  then show ?case using nk c by (simp add: Let_def del: str_simps)
qed

text \<open>Reads and writes of loaded keys leave a map in which these have the loaded value.\<close>

definition loaded :: "nat \<Rightarrow> kv \<Rightarrow> bool" where
  "loaded n m \<longleftrightarrow> (\<forall>i < n. m (ycsb_key i) = Some load_value)"

lemma redis_set: "redis [str ''SET'', k, v] m = (Reply (Simple (str ''OK'')), m(k := Some v))"
  by (simp add: redis_def redis_data_def to_ascii_uppercase_def str_def)

lemma redis_get: "redis [str ''GET'', k] m = (Reply (value_reply (m k)), m)"
  by (simp add: redis_def redis_data_def to_ascii_uppercase_def str_def)

lemma session_set: "snd (session ([str ''SET'', k, v] # cmds) m) = snd (session cmds (m(k := Some v)))"
  by (simp add: redis_set del: write_to.simps str_simps split: prod.split)

lemma session_load:
  "snd (session (map (\<lambda>i. [str ''SET'', ycsb_key i, load_value]) is) m) =
     (\<lambda>k. if \<exists>i \<in> set is. k = ycsb_key i then Some load_value else m k)"
  by (induction "is" arbitrary: m)
    (auto simp: session_set fun_eq_iff simp del: session.simps(2) write_to.simps str_simps)

lemma loaded_after_load: "loaded n (snd (session (load_commands n) m))"
  unfolding loaded_def load_commands_def session_load by auto

fun expected_reply :: "bytes list \<Rightarrow> bytes" where
  "expected_reply cmd = (if length cmd = 2 then write_to (Bulk load_value) else write_to (Simple (str ''OK'')))"

declare expected_reply.simps [simp del]

lemma redis_touches:
  assumes "loaded n m" and "touches n cmd"
  shows "\<exists>rep m1. redis cmd m = (Reply rep, m1) \<and> write_to rep = expected_reply cmd \<and> loaded n m1"
proof -
  from assms(2) obtain i where i: "i < n"
    "cmd = [str ''GET'', ycsb_key i] \<or> cmd = [str ''SET'', ycsb_key i, load_value]" by (auto simp: touches_def)
  then show ?thesis
  proof (elim disjE)
    assume "cmd = [str ''GET'', ycsb_key i]"
    then show ?thesis
      using i(1) assms(1)
      by (intro exI [of _ "Bulk load_value"] exI [of _ m])
        (simp add: redis_get loaded_def expected_reply.simps del: write_to.simps str_simps)
  next
    assume "cmd = [str ''SET'', ycsb_key i, load_value]"
    then show ?thesis
      using assms(1)
      by (intro exI [of _ "Simple (str ''OK'')"] exI [of _ "m(ycsb_key i := Some load_value)"])
        (simp add: redis_set loaded_def expected_reply.simps del: write_to.simps str_simps)
  qed
qed

lemma session_touches:
  assumes "loaded n m" and "\<forall>cmd \<in> set cmds. touches n cmd"
  shows "fst (session cmds m) = concat (map expected_reply cmds)"
  using assms
proof (induction cmds arbitrary: m)
  case Nil
  then show ?case by simp
next
  case (Cons cmd cmds)
  from redis_touches [OF Cons.prems(1)] Cons.prems(2) obtain m1 rep where
    r: "redis cmd m = (Reply rep, m1)" "write_to rep = expected_reply cmd" "loaded n m1" by fastforce
  have "fst (session cmds m1) = concat (map expected_reply cmds)" using Cons.IH [OF r(3)] Cons.prems(2) by simp
  then show ?case using r(1,2) by (auto simp del: write_to.simps split: prod.split)
qed

text \<open>Rounding does not go beyond a bound that needs no rounding.\<close>

lemma round_even_le:
  assumes "n \<le> q * 2 ^ s"
  shows "round_even n s \<le> q"
proof -
  have "n div 2 ^ s \<le> q" using div_le_mono [OF assms, of "2 ^ s"] by simp
  moreover have "n mod 2 ^ s = 0" if "n div 2 ^ s = q"
  proof -
    have "q * 2 ^ s + n mod 2 ^ s = n" using that div_mult_mod_eq [of n "2 ^ s"] by simp
    then show ?thesis using assms by linarith
  qed
  ultimately show ?thesis by (cases "n div 2 ^ s = q") (auto simp: round_even_def Let_def)
qed

lemma percentile_index:
  assumes "M < 2 ^ 53" and "0 \<le> m" and "m \<le> 2 ^ 53"
  shows "f64_round_usize (f64_mult (F64 (int M) 0) (F64 m (-53))) \<le> M"
proof -
  let ?n = "M * nat m" let ?s = "bit_len ?n - 53"
  have "?n \<le> M * 2 ^ 53" using assms(2,3) by (simp add: nat_le_iff)
  also have "\<dots> < 2 ^ 53 * 2 ^ 53" by (rule mult_strict_right_mono [OF assms(1)]) simp
  also have "\<dots> = (2 :: nat) ^ 106" unfolding power_add [symmetric] by simp
  finally have "?n < 2 ^ 106" .
  then have s: "?s \<le> 53" using bit_len_less [of ?n 106] by simp
  define k where "k = 53 - ?s"
  have k: "?s + k = 53" using s by (simp add: k_def)
  have n: "?n \<le> M * 2 ^ 53" using assms(2,3) by (simp add: nat_le_iff)
  have split: "M * 2 ^ 53 = (M * 2 ^ k) * 2 ^ s" if "s + k = 53" for s
    unfolding that [symmetric] power_add by (simp only: ac_simps)
  have "?n \<le> (M * 2 ^ k) * 2 ^ ?s" using n unfolding split [OF k] .
  then have r: "round_even ?n ?s \<le> M * 2 ^ k" by (rule round_even_le)
  have m: "\<bar>int M * m\<bar> = int ?n" using assms(2) by simp
  have mult: "f64_mult (F64 (int M) 0) (F64 m (-53)) = F64 (sgn (int M * m) * int (round_even ?n ?s)) (- int k)"
    using k unfolding f64_mult_def f64_nearest_def f64.sel m nat_int Let_def by simp
  have sgn: "nat (sgn (int M * m) * int (round_even ?n ?s)) \<le> round_even ?n ?s"
    by (simp add: sgn_if)
  let ?r = "nat (sgn (int M * m) * int (round_even ?n ?s))"
  have le: "?r \<le> M * 2 ^ k" using sgn r by linarith
  show ?thesis
  proof (cases "k = 0")
    case True
    then show ?thesis using le by (simp add: mult f64_round_usize_def Let_def)
  next
    case False
    have "(2 * ?r + 2 ^ k) div (2 * 2 ^ k) \<le> (2 * (M * 2 ^ k) + 2 ^ k) div (2 * 2 ^ k)"
      using le by (intro div_le_mono) simp
    also have "\<dots> = M"
      by (simp add: div_mult_self3 [of "2 * 2 ^ k" "2 ^ k" M, simplified] mult.assoc mult.left_commute)
    finally show ?thesis using False by (simp add: mult f64_round_usize_def Let_def min_def)
  qed
qed

lemma length_dec_nat: "n < 10 ^ Suc k \<Longrightarrow> length (dec_nat n) \<le> Suc k"
proof (induction k arbitrary: n)
  case 0
  then show ?case by (simp add: dec_nat.simps)
next
  case (Suc k)
  have "length (dec_nat (n div 10)) \<le> Suc k" using Suc.prems by (intro Suc.IH) auto
  then show ?case by (subst dec_nat.simps) simp
qed

lemma touches_fits:
  assumes "touches n cmd" and "n \<le> 10 ^ 20"
  shows "command_fits cmd"
proof -
  from assms(1) obtain i where i: "i < n"
    "cmd = [str ''GET'', ycsb_key i] \<or> cmd = [str ''SET'', ycsb_key i, load_value]" unfolding touches_def by blast
  have "i < 10 ^ Suc 19" using i(1) assms(2) by simp
  then have "length (ycsb_key i) \<le> 36" using length_dec_nat [of i 19] by (simp add: ycsb_key_def)
  then have "arg_fits (ycsb_key i)" "arg_fits load_value"
    by (simp_all add: arg_fits_def MAX_BULK_LEN_def load_value_def)
  then show ?thesis
    using i(2) demo_arg_fits(3,4) by (auto simp: command_fits_def MAX_ARGS_def simp del: str_simps)
qed

lemma bit_len_power: "bit_len (2 ^ k) = Suc k"
  by (induction k) (simp_all add: bit_len.simps [of "Suc 0"] bit_len.simps [of "2 * _"])

lemma f64_count_minus_one:
  assumes "0 < n" and "n \<le> 2 ^ 53"
  shows "f64_sub (f64_of_nat n) one = F64 (int (n - 1)) 0"
proof (cases "n = 2 ^ 53")
  case True
  have l: "bit_len 9007199254740992 = 54" "bit_len 9007199254740991 \<le> 53"
    using bit_len_power [of 53] bit_len_less [of 9007199254740991 53] by simp_all
  have r: "round_even 9007199254740992 1 = 4503599627370496" by (simp add: round_even_def)
  have "f64_of_nat n = F64 4503599627370496 1"
    unfolding True f64_of_nat_def f64_nearest_def Let_def using l(1) r by simp
  moreover have "f64_sub (F64 4503599627370496 1) one = F64 9007199254740991 0"
    using l(2) by (simp add: f64_sub_def f64_sum_def f64_nearest_def Let_def)
  ultimately show ?thesis unfolding True by simp
next
  case False
  obtain M where M: "n = Suc M" using assms(1) by (cases n) auto
  have "bit_len M \<le> 53" using False assms(2) bit_len_less [of M 53] unfolding M by simp
  moreover have "f64_of_nat n = F64 (int n) 0" using False assms(2) by (intro f64_of_nat_exact) simp
  moreover have "int n - 1 = int M" "n - 1 = M" by (simp_all add: M)
  ultimately show ?thesis
    by (simp only: f64_sub_def f64_sum_def f64_nearest_def Let_def f64.sel) (simp add: sgn_if)
qed

section \<open>Properties\<close>

text \<open>The workers draw independently. The generator of a worker never gets stuck at zero, and two workers
  never have the same state after the same number of draws, so that none repeats the run of another.\<close>

lemma generators_never_meet:
  assumes "t < 10 ^ 19" and "u < 10 ^ 19" and "t \<noteq> u"
  shows "bij rng_next \<and> (rng_next ^^ n) (worker_seed t) \<noteq> 0 \<and>
    (rng_next ^^ n) (worker_seed t) \<noteq> (rng_next ^^ n) (worker_seed u)"
proof -
  have "inj rng_next" by (rule injI) (simp only: rng_next_inject)
  then have "bij rng_next" by (simp add: bij_def finite_UNIV_inj_surj)
  moreover have "worker_seed t \<noteq> worker_seed u" using worker_seed_inject [of t u] assms by auto
  ultimately show ?thesis
    using worker_seed_nonzero [OF assms(1)] by (simp only: rng_iterate_inject rng_iterate_0) simp
qed

text \<open>The workload reads what was loaded. Whatever the distribution, a worker sends as many commands as
  it should, all within the limits of the protocol. After the load, and in whatever order the commands of the
  workers come, a server that does what the commands mean (\<open>session\<close>) answers every read with the value of the
  loader and every write with \<open>OK\<close>.\<close>

lemma workload_hits_loaded_keys:
  assumes "0 < records" and "records < 2 ^ 64"
    and "\<forall>cmd \<in> set cmds. \<exists>t sent. worker powf dist records share ops threads t = Ok sent \<and> cmd \<in> set sent"
  shows "(\<exists>sent. worker powf dist records share ops threads t = Ok sent \<and> length sent = ops div threads) \<and>
    (\<forall>cmd \<in> set (load_commands records @ cmds). command_fits cmd) \<and>
    fst (session cmds (snd (session (load_commands records) m))) = concat (map expected_reply cmds)"
proof -
  have pos: "0 < (case key_distribution powf dist records of Uniform n \<Rightarrow> n | Zipf z \<Rightarrow> z_n z)"
    unfolding key_distribution_range by (rule assms(1))
  have w: "\<exists>sent. worker powf dist records share ops threads u = Ok sent \<and> length sent = ops div threads \<and>
      (\<forall>cmd \<in> set sent. touches records cmd)" for u
    using worker_commands_touch [OF pos] unfolding worker_def key_distribution_range .
  have t: "\<forall>cmd \<in> set cmds. touches records cmd"
  proof
    fix cmd
    assume "cmd \<in> set cmds"
    then obtain u sent where "worker powf dist records share ops threads u = Ok sent" "cmd \<in> set sent"
      using assms(3) by blast
    then show "touches records cmd" using w [of u] by auto
  qed
  have "touches records cmd" if "cmd \<in> set (load_commands records)" for cmd
    using that by (auto simp: load_commands_def touches_def simp del: str_simps)
  then have "\<forall>cmd \<in> set (load_commands records @ cmds). command_fits cmd"
    using t touches_fits [of records] assms(2) by fastforce
  then show ?thesis using w [of t] session_touches [OF loaded_after_load t] by blast
qed

lemma percentile_in_range:
  assumes "samples \<noteq> []" and "length samples \<le> 2 ^ 53" and "0 \<le> p" and "p \<le> 2 ^ 53"
  shows "\<exists>v \<in> set samples. percentile samples (F64 p (-53)) = Ok v"
proof -
  let ?n = "length samples"
  have "f64_sub (f64_of_nat ?n) one = F64 (int (?n - 1)) 0" using assms(1,2) by (intro f64_count_minus_one) auto
  moreover have "?n - 1 < 2 ^ 53" using assms(1,2) by (cases samples) auto
  ultimately have "f64_round_usize (f64_mult (f64_sub (f64_of_nat ?n) one) (F64 p (-53))) \<le> ?n - 1"
    using percentile_index [OF _ assms(3,4)] by simp
  then have "f64_round_usize (f64_mult (f64_sub (f64_of_nat ?n) one) (F64 p (-53))) < ?n"
    using assms(1) by (cases samples) auto
  then show ?thesis using assms(1) by (auto simp: percentile_def Let_def)
qed

lemma collect_res_map: "\<forall>x \<in> set xs. \<exists>y. f x = Ok y \<and> P x y \<Longrightarrow> \<exists>ys. collect_res (map f xs) = Ok ys \<and> list_all2 P xs ys"
  by (induction xs) fastforce+

lemma report_line_in_range:
  assumes "samples \<noteq> []" and "length samples \<le> 2 ^ 53"
  shows "\<exists>ps. report_line (name, samples) = Ok (name, length samples, ps) \<and> length ps = 4 \<and> set ps \<subseteq> set samples"
proof -
  have "\<forall>p \<in> set PERCENTILES. \<exists>m. p = F64 m (-53) \<and> 0 \<le> m \<and> m \<le> 2 ^ 53" by (simp add: PERCENTILES_def)
  then have "\<forall>p \<in> set PERCENTILES. \<exists>v. percentile samples p = Ok v \<and> v \<in> set samples"
    using percentile_in_range [OF assms] by fastforce
  from collect_res_map [OF this] obtain ps where ps: "collect_res (map (percentile samples) PERCENTILES) = Ok ps"
    "list_all2 (\<lambda>p v. v \<in> set samples) PERCENTILES ps" by blast
  have "length ps = 4" using list_all2_lengthD [OF ps(2)] by (simp add: PERCENTILES_def)
  moreover have "set ps \<subseteq> set samples" using ps(2) by (auto simp: list_all2_conv_all_nth in_set_conv_nth)
  ultimately show ?thesis using ps(1) by (simp add: report_line_def)
qed

text \<open>C35: the report reads inside its samples. A percentile picks an index computed with two roundings to 53
  bits; for every number of samples up to \<open>2 ^ 53\<close> it is in range, so that the report does not panic, and has
  one line for each kind of command with samples, with their number and four of them.\<close>

theorem report_reads_samples:
  assumes "length reads \<le> 2 ^ 53" and "length writes \<le> 2 ^ 53"
  shows "\<exists>rows. report reads writes = Ok rows \<and>
    list_all2 (\<lambda>(name, samples) (name', n, ps).
        name' = name \<and> n = length samples \<and> length ps = 4 \<and> set ps \<subseteq> set samples)
      (filter (\<lambda>(name, samples). samples \<noteq> []) [(str ''read'', reads), (str ''update'', writes)]) rows"
proof -
  have "reads \<noteq> [] \<Longrightarrow> sort reads \<noteq> []" "writes \<noteq> [] \<Longrightarrow> sort writes \<noteq> []"
    by (metis length_0_conv length_sort)+
  then show ?thesis
    using report_line_in_range [of "sort reads" "str ''read''"] report_line_in_range [of "sort writes" "str ''update''"]
      assms
    by (cases "reads = []"; cases "writes = []") (auto simp: report_def simp del: str_simps)
qed

theorem report_reads_samples_witness: "\<exists>n ps. report [] [5, 3, 8] = Ok [(str ''update'', n, ps)]"
proof -
  have "length ([] :: nat list) \<le> 2 ^ 53" "length [5 :: nat, 3, 8] \<le> 2 ^ 53" by simp_all
  from report_reads_samples [OF this] show ?thesis by (auto simp: list_all2_Cons1 simp del: str_simps)
qed

end
