(* ===== verification/Bench.thy ===== *)
theory Bench
  imports Load Clients
begin

text \<open>
  The run of the load generator (\<open>main\<close> of \<^verbatim>\<open>src/src/bin/ycsb.rs\<close>): it loads the records over one connection, starts
  the workers, each with a connection of its own, joins them in order and reports. A connection is what the
  server sends over it, as in theory Server, here seen from the other end; a worker waits for each
  reply, and its commands do not depend on what is in them. The clock is an input.
\<close>

section \<open>Calls\<close>

text \<open>\<open>Result::unwrap\<close>\<close>

fun unwrap :: "'a res \<Rightarrow> 'a res" where
  "unwrap (Fail (Io e)) = Fail Panic"
| "unwrap r = r"

text \<open>\<open>Client::connect\<close>: the connection, and whether the two calls on it succeed.\<close>

record dial =
  dialed :: "conn res"
  nodelay :: "unit res"
  cloned :: "unit res"

definition client_connect :: "dial \<Rightarrow> conn res" where
  "client_connect d = bind_res (dialed d) (\<lambda>c. bind_res (nodelay d) (\<lambda>_. bind_res (cloned d) (\<lambda>_. Ok c)))"

definition bench_call :: "bytes list \<Rightarrow> conn \<Rightarrow> unit res \<times> conn" where
  "bench_call parts c =
     (case client_call parts (incoming c) of
        (request, reply) \<Rightarrow>
          (case send request c of
             (Fail s, c1) \<Rightarrow> (Fail s, c1)
           | (Ok u, c1) \<Rightarrow>
               (case reply of
                  Ok r \<Rightarrow> (Ok (), c1\<lparr>incoming := r\<rparr>)
                | Fail s \<Rightarrow> (Fail s, c1))))"

text \<open>The loop of the loader.\<close>

fun call_all :: "bytes list list \<Rightarrow> conn \<Rightarrow> unit res \<times> conn" where
  "call_all [] c = (Ok (), c)"
| "call_all (parts # later) c =
     (case bench_call parts c of
        (Ok u, c1) \<Rightarrow> call_all later c1
      | (Fail s, c1) \<Rightarrow> (Fail s, c1))"

section \<open>Workers\<close>

text \<open>
  The loop of a worker: \<open>nanos\<close> gives the time of each call, with the number of those still to come. A call that
  fails ends the thread.
\<close>

fun worker_loop :: "(f64 \<Rightarrow> f64 \<Rightarrow> f64) \<Rightarrow> distribution \<Rightarrow> f64 \<Rightarrow> (nat \<Rightarrow> nat) \<Rightarrow> nat \<Rightarrow> u64 \<Rightarrow> nat list \<Rightarrow> nat list \<Rightarrow>
    conn \<Rightarrow> (nat list \<times> nat list) res \<times> conn" where
  "worker_loop powf keys share nanos 0 rng reads writes c = (Ok (reads, writes), c)"
| "worker_loop powf keys share nanos (Suc n) rng reads writes c =
     (case next_key powf keys rng of
        (Fail s, r) \<Rightarrow> (Fail s, c)
      | (Ok i, r) \<Rightarrow>
          let k = ycsb_key i; r1 = rng_next r; is_read = f64_less (rng_f64 r1) share
          in case bench_call (if is_read then [str ''GET'', k] else [str ''SET'', k, load_value]) c of
               (q, c1) \<Rightarrow>
                 (case unwrap q of
                    Fail s \<Rightarrow> (Fail s, c1)
                  | Ok u \<Rightarrow>
                      let elapsed = nanos n mod 2 ^ 64
                      in if is_read then worker_loop powf keys share nanos n r1 (reads @ [elapsed]) writes c1
                         else worker_loop powf keys share nanos n r1 reads (writes @ [elapsed]) c1))"

text \<open>\<open>Vec::with_capacity\<close> panics if the elements, of eight bytes each, cannot be in one allocation.\<close>

definition worker_thread :: "(f64 \<Rightarrow> f64 \<Rightarrow> f64) \<Rightarrow> load_options \<Rightarrow> (nat \<Rightarrow> nat) \<Rightarrow> nat \<Rightarrow> conn \<Rightarrow>
    (nat list \<times> nat list) res \<times> conn" where
  "worker_thread powf opts nanos t c =
     (let per_thread = opt_ops opts div opt_threads opts
      in if 2 ^ 63 \<le> 8 * per_thread then (Fail Panic, c)
         else worker_loop powf (key_distribution powf (opt_dist opts) (opt_records opts)) (opt_share opts)
           nanos per_thread (worker_seed t) [] [] c)"

section \<open>The whole run\<close>

definition bench_label :: "load_options \<Rightarrow> bytes" where
  "bench_label opts =
     str ''workload '' @ opt_workload opts @ str '' / '' @ opt_dist opts @ str '' / '' @ dec_nat (opt_threads opts) @
     str '' threads -> '' @ opt_addr opts"

text \<open>
  \<open>net\<close> gives the connections: number 0 is that of the loader, number \<open>t + 1\<close> that of worker \<open>t\<close>. The result is what
  the report prints, the label and the lines.
\<close>

definition bench_main :: "(f64 \<Rightarrow> f64 \<Rightarrow> f64) \<Rightarrow> bytes list \<Rightarrow> (nat \<Rightarrow> dial) \<Rightarrow> (nat \<Rightarrow> nat \<Rightarrow> nat) \<Rightarrow>
    (bytes \<times> (bytes \<times> nat \<times> nat list) list) res" where
  "bench_main powf args net nanos =
     bind_res (load_main args) (\<lambda>opts.
     bind_res (client_connect (net 0)) (\<lambda>loader.
     bind_res (fst (call_all (load_commands (opt_records opts)) loader)) (\<lambda>_.
     bind_res (collect_res (map (\<lambda>t.
         bind_res (unwrap (client_connect (net (t + 1)))) (\<lambda>c. fst (worker_thread powf opts (nanos t) t c)))
       [0..<opt_threads opts])) (\<lambda>joined.
     bind_res (report (concat (map fst joined)) (concat (map snd joined))) (\<lambda>rows.
       Ok (bench_label opts, rows))))))"

section \<open>Replies on the wire\<close>

lemma expected_reply_fits: "\<exists>r. expected_reply cmd = write_to r \<and> reply_fits r"
proof (cases "length cmd = 2")
  case True
  then show ?thesis by (intro exI [of _ "Bulk load_value"]) (simp add: expected_reply.simps load_value_def)
next
  case False
  then show ?thesis by (intro exI [of _ "Simple (str ''OK'')"]) (simp add: expected_reply.simps)
qed

lemma bench_call_reply:
  assumes "incoming c = \<lparr>pending = expected_reply cmd @ rest, broken = b\<rparr>" and "capacity c = None"
  shows "bench_call cmd c =
    (Ok (), c\<lparr>incoming := \<lparr>pending = rest, broken = b\<rparr>, sent := sent c @ encode_command cmd\<rparr>)"
proof -
  obtain r where "expected_reply cmd = write_to r" "reply_fits r" using expected_reply_fits by blast
  then have "consume_reply (incoming c) = Ok \<lparr>pending = rest, broken = b\<rparr>"
    using consume_write_to [of r 0 rest b] assms(1) by (simp add: consume_reply_def consume_replies.simps)
  then show ?thesis using assms(2) by (cases c) (simp add: bench_call_def client_call_def send_all)
qed

lemma call_all_replies:
  assumes "incoming c = \<lparr>pending = concat (map expected_reply cmds), broken = b\<rparr>" and "capacity c = None"
  shows "fst (call_all cmds c) = Ok ()"
  using assms by (induction cmds arbitrary: c) (simp_all add: bench_call_reply)

lemma worker_loop_replies:
  assumes "worker_commands powf keys share n rng = Ok cmds" and "capacity c = None"
    and "incoming c = \<lparr>pending = concat (map expected_reply cmds), broken = b\<rparr>"
  shows "\<exists>rs us c'. worker_loop powf keys share nanos n rng reads writes c = (Ok (reads @ rs, writes @ us), c') \<and>
    length rs + length us = n \<and> sent c' = sent c @ concat (map encode_command cmds)"
  using assms
proof (induction n arbitrary: rng cmds c reads writes)
  case 0
  then show ?case by simp
next
  case (Suc n)
  obtain i r where nk: "next_key powf keys rng = (Ok i, r)"
    using Suc.prems(1) by (cases "next_key powf keys rng"; cases "fst (next_key powf keys rng)") auto
  let ?r = "rng_next r"
  let ?cmd = "if f64_less (rng_f64 ?r) share then [str ''GET'', ycsb_key i] else [str ''SET'', ycsb_key i, load_value]"
  obtain later where later: "worker_commands powf keys share n ?r = Ok later" "cmds = ?cmd # later"
    using Suc.prems(1) nk by (auto simp: Let_def bind_res_eq_Ok simp del: str_simps)
  let ?c = "c\<lparr>incoming := \<lparr>pending = concat (map expected_reply later), broken = b\<rparr>, sent := sent c @ encode_command ?cmd\<rparr>"
  have call: "bench_call ?cmd c = (Ok (), ?c)"
    by (rule bench_call_reply) (use Suc.prems(2,3) later(2) in simp_all)
  have c: "capacity ?c = None" "incoming ?c = \<lparr>pending = concat (map expected_reply later), broken = b\<rparr>"
    "sent ?c = sent c @ encode_command ?cmd" using Suc.prems(2) by simp_all
  note ih = Suc.IH [OF later(1) c(1,2)]
  have loop: "worker_loop powf keys share nanos (Suc n) rng reads writes c =
      (if f64_less (rng_f64 ?r) share then worker_loop powf keys share nanos n ?r (reads @ [nanos n mod 2 ^ 64]) writes ?c
       else worker_loop powf keys share nanos n ?r reads (writes @ [nanos n mod 2 ^ 64]) ?c)"
    using nk call by (simp add: Let_def del: str_simps)
  have "\<exists>rs us c'. worker_loop powf keys share nanos (Suc n) rng reads writes c = (Ok (reads @ rs, writes @ us), c') \<and>
      length rs + length us = Suc n \<and> sent c' = sent ?c @ concat (map encode_command later)"
  proof (cases "f64_less (rng_f64 ?r) share")
    case True
    from ih [of "reads @ [nanos n mod 2 ^ 64]" writes] obtain rs us c' where
      "worker_loop powf keys share nanos n ?r (reads @ [nanos n mod 2 ^ 64]) writes ?c =
         (Ok (reads @ (nanos n mod 2 ^ 64) # rs, writes @ us), c')"
      "length rs + length us = n" "sent c' = sent ?c @ concat (map encode_command later)" by auto
    with loop True show ?thesis by (intro exI [of _ "(nanos n mod 2 ^ 64) # rs"] exI [of _ us] exI [of _ c']) simp
  next
    case False
    from ih [of reads "writes @ [nanos n mod 2 ^ 64]"] obtain rs us c' where
      "worker_loop powf keys share nanos n ?r reads (writes @ [nanos n mod 2 ^ 64]) ?c =
         (Ok (reads @ rs, writes @ (nanos n mod 2 ^ 64) # us), c')"
      "length rs + length us = n" "sent c' = sent ?c @ concat (map encode_command later)" by auto
    with loop False show ?thesis by (intro exI [of _ rs] exI [of _ "(nanos n mod 2 ^ 64) # us"] exI [of _ c']) simp
  qed
  then show ?case using later(2) c(3) by simp
qed

text \<open>The loader writes without reading, so that it is answered \<open>OK\<close> whatever the store held before.\<close>

lemma session_load_replies:
  "fst (session (load_commands n) m) = concat (map expected_reply (load_commands n))"
proof -
  have "fst (session (map (\<lambda>i. [str ''SET'', ycsb_key i, load_value]) is) m) =
      concat (map expected_reply (map (\<lambda>i. [str ''SET'', ycsb_key i, load_value]) is))" for "is"
    by (induction "is" arbitrary: m)
      (simp_all add: redis_set expected_reply.simps split_beta del: write_to.simps str_simps)
  then show ?thesis by (simp add: load_commands_def del: str_simps)
qed

section \<open>Workers at the same time\<close>

text \<open>Whoever's turn it is, a worker has been answered what it expects for what it has sent.\<close>

definition answered :: "client \<Rightarrow> client \<Rightarrow> bool" where
  "answered p q \<longleftrightarrow> (\<exists>cmds. fst p = cmds @ fst q \<and> snd q = snd p @ concat (map expected_reply cmds))"

lemma answered_refl: "answered p p" by (simp add: answered_def)

lemma answered_trans: "answered p q \<Longrightarrow> answered q r \<Longrightarrow> answered p r"
  unfolding answered_def by (metis append.assoc concat_append map_append)

lemma client_turn_answered:
  assumes "loaded n m" and "\<forall>p \<in> set ps. \<forall>cmd \<in> set (fst p). touches n cmd" and "client_turn i ps m = (ps', m')"
  shows "loaded n m' \<and> list_all2 answered ps ps'"
proof (cases "i < length ps \<and> fst (ps ! i) \<noteq> []")
  case False
  then have "ps' = ps" "m' = m" using assms(3) by (cases "ps ! i"; auto simp: client_turn_def split: if_splits)+
  then show ?thesis using assms(1) by (simp add: list.rel_refl answered_refl)
next
  case True
  then obtain cmd cmds out where p: "i < length ps" "ps ! i = (cmd # cmds, out)"
    by (cases "ps ! i"; cases "fst (ps ! i)") auto
  have "touches n cmd" using assms(2) p nth_mem [OF p(1)] by force
  from redis_touches [OF assms(1) this] obtain rep m1 where
    r: "redis cmd m = (Reply rep, m1)" "write_to rep = expected_reply cmd" "loaded n m1" by blast
  then have "ps' = ps[i := (cmds, out @ expected_reply cmd)]" "m' = m1"
    using assms(3) p by (simp_all add: client_turn_def answer.simps del: write_to.simps)
  moreover have "answered (ps ! i) (cmds, out @ expected_reply cmd)"
    unfolding answered_def p(2) by (intro exI [of _ "[cmd]"]) simp
  ultimately show ?thesis using r(3) p(1) by (auto simp: list_all2_conv_all_nth nth_list_update answered_refl)
qed

lemma answered_touches:
  assumes "list_all2 answered ps qs" and "\<forall>p \<in> set ps. \<forall>cmd \<in> set (fst p). touches n cmd"
  shows "\<forall>q \<in> set qs. \<forall>cmd \<in> set (fst q). touches n cmd"
proof
  fix q
  assume "q \<in> set qs"
  then obtain p where "p \<in> set ps" "answered p q"
    using assms(1) unfolding list_all2_conv_all_nth in_set_conv_nth by metis
  then show "\<forall>cmd \<in> set (fst q). touches n cmd" using assms(2) by (auto simp: answered_def)
qed

lemma serial_answered:
  assumes "loaded n m" and "\<forall>p \<in> set ps. \<forall>cmd \<in> set (fst p). touches n cmd" and "serial sched ps m = (qs, m')"
  shows "list_all2 answered ps qs"
  using assms
proof (induction sched arbitrary: ps m)
  case Nil
  then show ?case by (simp add: list.rel_refl answered_refl)
next
  case (Cons i sched)
  obtain ps1 m1 where t: "client_turn i ps m = (ps1, m1)" by force
  from client_turn_answered [OF Cons.prems(1,2) t] have one: "loaded n m1" "list_all2 answered ps ps1" by blast+
  have "list_all2 answered ps1 qs"
    using Cons.IH [OF one(1) answered_touches [OF one(2) Cons.prems(2)]] Cons.prems(3) t by simp
  then show ?case using list_all2_trans [of answered answered answered ps ps1 qs] answered_trans one(2) by blast
qed

section \<open>A run against the server\<close>

lemma worker_touches:
  assumes "0 < records"
  shows "\<exists>cmds. worker powf dist records share ops threads t = Ok cmds \<and> length cmds = ops div threads \<and>
    (\<forall>cmd \<in> set cmds. touches records cmd)"
  using worker_commands_touch [of "key_distribution powf dist records"] assms
  unfolding worker_def key_distribution_range by blast

lemma worker_thread_replies:
  assumes "worker powf (opt_dist opts) (opt_records opts) (opt_share opts) (opt_ops opts) (opt_threads opts) t = Ok cmds"
    and "capacity c = None" and "incoming c = \<lparr>pending = concat (map expected_reply cmds), broken = b\<rparr>"
    and "opt_ops opts div opt_threads opts \<le> 2 ^ 53"
  shows "\<exists>rs us c'. worker_thread powf opts nanos t c = (Ok (rs, us), c') \<and>
    length rs + length us = opt_ops opts div opt_threads opts \<and> sent c' = sent c @ concat (map encode_command cmds)"
  using worker_loop_replies [OF assms(1) [unfolded worker_def] assms(2,3), of nanos "[]" "[]"] assms(4)
  by (simp add: worker_thread_def)

lemma report_counts:
  assumes "length reads + length writes \<le> 2 ^ 53"
  shows "\<exists>rows. report reads writes = Ok rows \<and>
    sum_list (map (\<lambda>(name, n, percentiles). n) rows) = length reads + length writes"
proof -
  have sorted_empty: "sort xs = [] \<longleftrightarrow> xs = []" for xs :: "nat list" by (metis length_0_conv length_sort)
  have line: "\<exists>ps. report_line (name, sort xs) = Ok (name, length xs, ps)" if "xs \<noteq> []" "length xs \<le> 2 ^ 53"
    for name and xs :: "nat list"
    using report_line_in_range [of "sort xs" name] that sorted_empty [of xs] by auto
  have "length reads \<le> 2 ^ 53" "length writes \<le> 2 ^ 53" using assms by linarith+
  then show ?thesis
    using line [of reads "str ''read''"] line [of writes "str ''update''"]
    by (cases "reads = []"; cases "writes = []") (auto simp: report_def sorted_empty simp del: str_simps)
qed

lemma sum_lengths: "\<forall>p \<in> set ps. length (fst p) + length (snd p) = k \<Longrightarrow>
    length (concat (map fst ps)) + length (concat (map snd ps)) = length ps * k"
  by (induction ps) auto

text \<open>The connection of a client, as it is before its first call: what the server will send over it.\<close>

definition client_conn :: "bytes \<Rightarrow> conn" where
  "client_conn replies = \<lparr>incoming = \<lparr>pending = replies, broken = None\<rparr>, sent = [], capacity = None\<rparr>"

text \<open>C34: a benchmark of this server runs to its report. Suppose the loader is answered as its commands prescribe and
  afterwards the workers, in whatever order the server takes their commands, as one server prescribes that handles one
  command at a time. Then every worker sends exactly its commands, and the run ends with a report that counts each
  call once.\<close>

theorem bench_reports:
  assumes "load_main args = Ok opts" and "0 < opt_records opts"
    and "opt_threads opts * (opt_ops opts div opt_threads opts) \<le> 2 ^ 53"
    and "length css = opt_threads opts"
    and "\<forall>t < opt_threads opts. worker powf (opt_dist opts) (opt_records opts) (opt_share opts) (opt_ops opts)
        (opt_threads opts) t = Ok (css ! t)"
    and "client_connect (net 0) = Ok (client_conn (fst (session (load_commands (opt_records opts)) m)))"
    and "serial sched (map (\<lambda>cmds. (cmds, [])) css) (snd (session (load_commands (opt_records opts)) m)) = (ps, m')"
    and "\<forall>p \<in> set ps. fst p = []"
    and "\<forall>t < opt_threads opts. client_connect (net (t + 1)) = Ok (client_conn (snd (ps ! t)))"
  shows "(\<exists>rows. bench_main powf args net nanos = Ok (bench_label opts, rows) \<and>
      sum_list (map (\<lambda>(name, n, percentiles). n) rows) = opt_threads opts * (opt_ops opts div opt_threads opts)) \<and>
    (\<forall>t < opt_threads opts. \<exists>samples c. worker_thread powf opts (nanos t) t (client_conn (snd (ps ! t))) = (Ok samples, c) \<and>
      sent c = concat (map encode_command (css ! t)))"
proof -
  let ?n = "opt_threads opts" and ?k = "opt_ops opts div opt_threads opts"
  let ?run = "\<lambda>t. worker_thread powf opts (nanos t) t (client_conn (snd (ps ! t)))"
  have css: "\<forall>cmd \<in> set (css ! t). touches (opt_records opts) cmd" if t: "t < ?n" for t
  proof -
    obtain cmds where c: "worker powf (opt_dist opts) (opt_records opts) (opt_share opts) (opt_ops opts) ?n t = Ok cmds"
      "\<forall>cmd \<in> set cmds. touches (opt_records opts) cmd" using worker_touches [OF assms(2)] by blast
    have "cmds = css ! t" using c(1) assms(5) t by simp
    then show ?thesis using c(2) by simp
  qed
  have touch: "\<forall>p \<in> set (map (\<lambda>cmds. (cmds, [])) css). \<forall>cmd \<in> set (fst p). touches (opt_records opts) cmd"
    using css assms(4) unfolding set_map ball_simps fst_conv by (metis in_set_conv_nth)
  have answers: "snd (ps ! t) = concat (map expected_reply (css ! t))" if "t < ?n" for t
  proof -
    have l: "list_all2 answered (map (\<lambda>cmds. (cmds, [])) css) ps"
      by (rule serial_answered [OF loaded_after_load touch assms(7)])
    then have "length ps = ?n" using assms(4) by (simp add: list_all2_lengthD [symmetric])
    then show ?thesis
      using list_all2_nthD [OF l, of t] assms(4,8) that by (auto simp: answered_def)
  qed
  have small: "?k \<le> 2 ^ 53" if "0 < ?n" using assms(3) that by (cases ?n) auto
  have runs: "\<exists>rs us c. ?run t = (Ok (rs, us), c) \<and> length rs + length us = ?k \<and>
      sent c = concat (map encode_command (css ! t))" if "t < ?n" for t
    using worker_thread_replies [OF assms(5) [rule_format, OF that], of "client_conn (snd (ps ! t))" None] answers [OF that]
      small that
    by (auto simp: client_conn_def)
  have "\<forall>t \<in> set [0..<?n]. \<exists>p. bind_res (unwrap (client_connect (net (t + 1)))) (\<lambda>c. fst (worker_thread powf opts (nanos t) t c)) = Ok p \<and>
      length (fst p) + length (snd p) = ?k"
    using runs assms(9) by fastforce
  from collect_res_map [OF this] obtain joined where joined:
    "collect_res (map (\<lambda>t. bind_res (unwrap (client_connect (net (t + 1)))) (\<lambda>c. fst (worker_thread powf opts (nanos t) t c))) [0..<?n]) = Ok joined"
    "list_all2 (\<lambda>t p. length (fst p) + length (snd p) = ?k) [0..<?n] joined" by blast
  have "length joined = ?n" using list_all2_lengthD [OF joined(2)] by simp
  moreover have "\<forall>p \<in> set joined. length (fst p) + length (snd p) = ?k"
    using list_all2_nthD2 [OF joined(2)] by (metis in_set_conv_nth)
  ultimately have counts: "length joined = ?n" "\<forall>p \<in> set joined. length (fst p) + length (snd p) = ?k" by blast+
  with sum_lengths [of joined ?k] have total:
    "length (concat (map fst joined)) + length (concat (map snd joined)) = ?n * ?k" by simp
  obtain rows where rows: "report (concat (map fst joined)) (concat (map snd joined)) = Ok rows"
    "sum_list (map (\<lambda>(name, n, percentiles). n) rows) = ?n * ?k"
    using report_counts [of "concat (map fst joined)" "concat (map snd joined)"] total assms(3) by auto
  have "fst (call_all (load_commands (opt_records opts)) (client_conn (fst (session (load_commands (opt_records opts)) m)))) = Ok ()"
    by (rule call_all_replies [where b = None]) (simp_all add: client_conn_def session_load_replies)
  then have "bench_main powf args net nanos = Ok (bench_label opts, rows)"
    using assms(1,6) joined(1) rows(1) by (simp add: bench_main_def)
  then show ?thesis using rows(2) runs by blast
qed

text \<open>Two workers with a command each, the second of them served first.\<close>

abbreviation demo_args :: "bytes list" where
  "demo_args \<equiv> [str ''ycsb'', str ''--records'', str ''3'', str ''--ops'', str ''2'', str ''--threads'', str ''2'']"

theorem bench_reports_witness:
  "\<exists>net label rows. bench_main (\<lambda>x y. x) demo_args net (\<lambda>t n. 7) = Ok (label, rows) \<and>
     sum_list (map (\<lambda>(name, n, percentiles). n) rows) = 2"
proof -
  let ?powf = "\<lambda>x y :: f64. x" and ?m = "\<lambda>k. None :: bytes option"
  obtain opts where opts: "load_main demo_args = Ok opts" "opt_records opts = 3" "opt_ops opts = 2" "opt_threads opts = 2"
    by (simp add: load_main_def arg_def parsed_def read_share_def parse_u64_def is_digit_def)
  let ?worker = "worker ?powf (opt_dist opts) 3 (opt_share opts) 2 2"
  have one: "\<exists>cmd. ?worker t = Ok [cmd] \<and> touches 3 cmd" for t
    using worker_touches [of 3 ?powf "opt_dist opts" "opt_share opts" 2 2 t] by (auto simp: length_Suc_conv)
  obtain a b where cmds: "?worker 0 = Ok [a]" "touches 3 a" "?worker 1 = Ok [b]" "touches 3 b" using one by metis
  let ?l = "session (load_commands 3) ?m"
  obtain m1 m2 ra rb where turns: "redis b (snd ?l) = (Reply rb, m1)" "redis a m1 = (Reply ra, m2)"
    using redis_touches [OF loaded_after_load cmds(4)] redis_touches [OF _ cmds(2)] by metis
  have ser: "serial [1, 0] (map (\<lambda>cmds. (cmds, [])) [[a], [b]]) (snd ?l) = ([([], write_to ra), ([], write_to rb)], m2)"
    using turns by (simp add: client_turn_def answer.simps del: write_to.simps)
  let ?net = "\<lambda>i. \<lparr>dialed = Ok (client_conn ([fst ?l, write_to ra, write_to rb] ! i)), nodelay = Ok (), cloned = Ok ()\<rparr>"
  have "\<exists>rows. bench_main ?powf demo_args ?net (\<lambda>t n. 7) = Ok (bench_label opts, rows) \<and>
      sum_list (map (\<lambda>(name, n, percentiles). n) rows) = opt_threads opts * (opt_ops opts div opt_threads opts)"
    by (rule bench_reports [OF opts(1) _ _ _ _ _ ser [folded opts(2)], THEN conjunct1])
      (use opts(2-4) cmds in \<open>auto simp: less_2_cases_iff client_connect_def simp del: str_simps write_to.simps session.simps\<close>)
  then show ?thesis using opts(3,4) by auto
qed

end
