(* ===== verification/Spec2Isabelle.thy ===== *)
theory Spec2Isabelle
  imports First_Write Unlink_Failure Reply_Types Listener Bench
begin

text \<open>
  lsmrs: a key-value store as a log-structured merge tree.

  The program. A store is a directory. A write (\<open>src/src/db.rs\<close>) is first appended to the write-ahead log
  \<open>wal.log\<close> (\<open>src/src/wal.rs\<close>) and then put into an ordered map in memory, the memtable. When the keys
  and values written since the last flush exceed a threshold, the memtable is written to a sorted
  table file (\<open>src/src/sstable.rs\<close>), the log is cut to length zero and the compactor thread is rung. The
  compactor merges runs of neighbouring tables of comparable size into one. A lookup asks the memtable and
  then the tables from the newest to the oldest; a bloom filter (\<open>src/src/bloom.rs\<close>, over the hash of
  \<open>src/src/hash.rs\<close>) keeps most tables out of it. A restart replays the log and opens the directory, which
  also clears away what an interrupted flush or compaction has left.

  Which theory models what.

  Prelude: bytes, errors and results. A result is \<open>Ok\<close> of a value or \<open>Fail\<close> of a reason: \<open>Io\<close> (the
  \<open>Err\<close> of the code), \<open>Panic\<close>, or \<open>Killed\<close> (the process dies in this call). \<open>bind_res\<close> is the question
  mark operator. Sums on machine integers that the debug build checks are \<open>Panic\<close> when they overflow.

  World: the directory and the system calls. A world has the kind of the data path, the files of the
  directory by name, and the list \<open>env\<close> of what the coming calls that change the disk are going to do:
  each succeeds, fails with an error after part of its effect, or kills the process after part of its
  effect; when the list is used up, calls succeed. Theorems that do not restrict \<open>env\<close> hold for every
  pattern of faults. \<open>calm\<close> is the world of the next process, with no faults of its own. Beside the directory that
  the processes see, a world has \<open>disk\<close>, what a loss of power may leave of it: for each file the contents that may be
  found, since it was last synced, and the names as they were and as they became since the directory was last synced.
  \<open>may_remain w d\<close> says that \<open>d\<close> may be the directory after a loss of power in the world \<open>w\<close>.

  Codec, Text: little-endian integers, length-prefixed bytes, decimal numbers, file names and
  the span of sequence numbers in the name of a table.

  Wal: \<open>src/src/wal.rs\<close>, the frames of the log, append, truncation, and the replay loop.

  Hash, Float64, Bloom: \<open>src/src/hash.rs\<close> and \<open>src/src/bloom.rs\<close> at their machine widths; Float64 has the
  few operations on \<open>f64\<close> that the store uses (conversion from an integer, product, comparison, rounding) with
  rounding to 53 bits, ties to even; theory Load adds sums, quotients and truncation.

  SSTable, Table_Read, Merge, Merge_Newest, SSTable_Set: \<open>src/src/sstable.rs\<close>. \<open>build_table\<close> is the loop of
  \<open>write_table\<close>, byte for byte; \<open>sst_open\<close> reads such a file; \<open>sst_get\<close> and \<open>next_record\<close> are the lookup and the
  iterator; \<open>merge\<close> is the k-way merge over peekable iterators; \<open>sstable_set\<close> is the set of tables with
  its operations open, write, compact, \<open>pick_run\<close> and get.

  Set_Open, Set_Refine, Compaction, Pick_Run: the invariant of a set and its directory (\<open>set_inv\<close>),
  what a directory stands for after a crash (\<open>disk_state\<close>), and that every operation keeps the first and
  never leaves the second.

  Faults: where the errors of a write come from. \<open>undisturbed w w'\<close> says that every call between the two worlds was done,
  \<open>stopped_by s w w'\<close> that all were but the last, which ended with \<open>s\<close>; \<open>write_op_traced\<close> says that a write below the
  size limits succeeds in the first case and fails in the second, with the error of that call and no other.
  \<open>space_for\<close> is a bound on the files under which a given number of writes keeps them below the largest size.

  Unlink_Failure, which builds on theory Phases: what a failed unlink of a compaction costs. The set drops
  the inputs before it unlinks them; a later compaction to nothing then leaves them uncovered, and the next
  process opens them as live tables.

  Memtable, Db, Db_Refine, Store: \<open>src/src/db.rs\<close> and \<open>src/src/config.rs\<close>. \<open>view\<close> is the abstract
  specification of a store: the map from keys to values that its tables and its memtable stand for. \<open>db_inv\<close> is
  the invariant, \<open>disk_view\<close> says which map a directory stands for. The main theorems say that get, put
  and delete are lookup and update of this map, that reopening keeps it, that compaction does not change it,
  and that a write that is cut off at any system call leaves the old map or the new one.

  Shutdown: \<open>Drop for Db\<close>. \<open>compactor_thread\<close> works off the rings left in the channel, \<open>db_drop\<close> waits for it.
  \<open>no_errors\<close> is an environment that may kill the process but returns no errors; theory Unlink_Failure shows why
  the theorem about a drop needs it.

  Phases, Flushing, Interleaving: the compactor thread beside the writer. \<open>phase\<close> is how far a compaction has
  come: idle, writing its temporary file (\<open>stage\<close> is the next system call of \<open>write_table\<close>), merged, or unlinking
  its inputs; \<open>phase_inv\<close> is the invariant of each phase. \<open>writing\<close> is how far the writer has come: ready, with a full
  memtable, writing its table, about to push it, or about to cut the log. \<open>joint\<close> is the invariant of the two: the
  set as it is going to be, with the table of a flush that has its name already, is in the phase of the compactor.
  \<open>step\<close> is a relation on the store, both phases and the world: a write to the log, each system call of a flush or a
  compaction, the push, the cut of the log, the choice of a run, a merge that fails, the swap, each unlink, the
  end of a compaction, and a ring with nothing to do are one step each. An attempt is the next call with any
  outcome. \<open>write_as_steps\<close> and \<open>compact_as_steps\<close> say that the steps in a row are a write and \<open>compact\<close>.

  Disk, Opening, Power_Loss, First_Write: loss of power. Disk has the invariant \<open>disk_inv\<close> of what may remain (a
  property of the table files of every directory that may remain, the files whose contents are on the disk for certain,
  and what the log may hold), and for each system call how it changes; its lemmas are in the locale \<open>synced_tables\<close>,
  interpreted for the two properties that a flush needs. Opening shows that \<open>with_config\<close>, which only removes
  files, can fail or be killed anywhere. Power_Loss shows that a step relation of which every state satisfies \<open>power_inv\<close>
  loses nothing that was acknowledged: \<open>durable\<close> is a store with \<open>sync\<close> on whose log and tables are on the
  disk with their names, and a store that is opened with \<open>sync\<close> on what remained is durable again. The theorems about
  the loss of power start from a durable store. First_Write shows what the start of a new store lacks: nothing
  syncs the name of its log, so that it is not durable and its first puts can be lost.

  Utf8, Resp: \<open>src/src/resp.rs\<close> and what it and the others use of the strings of the standard library. A \<open>reader\<close>
  is the bytes that will arrive and whether an error or the end of the connection follows.
  \<open>read_command\<close> has the limits \<open>MAX_ARGS\<close> and \<open>MAX_BULK_LEN\<close> of the protocol, \<open>write_to\<close> writes a reply.

  Server, Clients: \<open>src/src/server.rs\<close>. \<open>locked\<close> is the store behind its lock with its poison flag; \<open>dispatch\<close> carries
  out a command; \<open>serve\<close> is the loop of one connection, whose peer accepts \<open>capacity\<close> bytes at most. \<open>redis\<close> is the
  specification of the commands on a map, \<open>session\<close> of a sequence of them. A thread holds the lock for one command,
  so that \<open>turns\<close> of several connections follow each other in any order (a schedule); \<open>serial\<close> is the server that
  handles the commands of all clients in that order. \<open>refusal s\<close> is what \<open>dispatch\<close> answers when the store ends with \<open>s\<close>.
  The theorems allow it for a well-formed \<open>SET\<close> or \<open>DEL\<close> (\<open>is_write\<close>) that was \<open>stopped_by\<close> a call of the system, and for
  nothing else: no error reply is excused otherwise. \<open>dispatch_leaves\<close> says what such a command leaves on the disk. \<open>accept_loop\<close> is the loop that starts the threads.
  Reply_Types shows that the replies, which are bytes and unbounded integers here, fit \<open>String\<close> and \<open>i64\<close>.

  Listener: the life of a server, from \<open>Server::bind\<close> and \<open>fn serve\<close> of \<open>src/src/main.rs\<close> to its end.
  \<open>listener_step\<close> is a step relation of the accept loop, the clients that connect and the shutdown handles, whose store
  to the flag and connection to the own port are two steps; a shutdown stops the loop, and a server that is started
  again has the map that the one before it has left.

  Client, Load, Bench: \<open>src/src/bin/ycsb.rs\<close>. Client has the requests and the reading of replies; Load the random numbers,
  the uniform and the Zipfian distribution of keys, the commands of the loader and the workers, the arguments,
  and the percentiles of the report; Bench the run: calls over a connection, the loop of a worker with its samples, the
  joining of the workers and the report. The workers' runs of random numbers never meet, their reads find what the
  loader wrote in whatever order the server takes them, and the report stays inside its samples and counts every
  call. \<open>powf\<close> and the clock are parameters, about which nothing is assumed.

  Cli, Prompt: \<open>src/src/cli/mod.rs\<close>, \<open>src/src/error.rs\<close> and \<open>src/src/main.rs\<close>. The prompt loop \<open>repl\<close> is a function of the
  events of the line editor (a line, an interrupt, the end of the input, an error), which is a dependency; \<open>run_repl\<close> is
  the whole process, with the open before and the drop after the loop. \<open>shell\<close> is its specification on a map, and
  \<open>rested\<close> says which map a directory stands for between two processes.

  How the lemmas are organised. Interfaces are locales: \<open>codec\<close> and \<open>eager_codec\<close> (encoders and
  decoders, interpreted for words, length-prefixed bytes and commands), \<open>approx_set\<close> (the filter),
  \<open>ordered_map\<close> (the memtable), \<open>entry_source\<close> (the iterators that the merge consumes), \<open>keeps_tables\<close> (an
  invariant of the set and the directory under which writes and flushes are what they should be; interpreted
  for the set at rest and for every phase of a compaction), and \<open>synced_tables\<close> (a property of the tables on the disk). The collections \<open>res_simps\<close>, \<open>codec_simps\<close>
  and \<open>wf_simps\<close> carry most component proofs. For each operation there is a lemma named \<open>_effect\<close> that says
  what it leaves under any faults, and one named \<open>_calm\<close> that says that it succeeds without faults.

  Bounds. A log record fits (\<open>write_fits\<close>) when its key and value are together shorter than
  \<open>2 ^ 32 - 13\<close> bytes; beyond that the code truncates the length to 32 bits. Sequence numbers are below
  \<open>2 ^ 64\<close> (\<open>room\<close>), files below \<open>2 ^ 63\<close> bytes (\<open>MAX_FILE_SIZE\<close>); \<open>ample\<close> says
  both for the writes that a command, a connection or all clients can make. \<open>small_table\<close> is a sufficient bound on the entries
  of a table to stay below that size. No fuel is used: every loop is a function with a proof of
  termination, by the bytes left to read, the blocks left to visit or the tables left to merge.

  Decisions of the model. Files are lists of bytes; one append stands for the several writes of a
  buffered writer, since both leave a prefix. Reads of the disk do not fail, nor does the opening of a file that is
  there (the table that \<open>write_table\<close> has just written, the directory for its sync), nor \<open>try_clone\<close> at the start of
  \<open>serve_connection\<close>. A call that changes the disk
  is atomic or, for appends, stops at any byte. What has been written survives the process. It survives a loss of
  power as follows: a file that was not synced has some contents that it had since it was last synced, whatever the
  other files have; changes of the directory reach the disk in their order, some of them or all; a sync of the
  directory makes them certain. Blocks of a file that it never had do not appear, and the data path itself is taken to be
  on the disk. The theorems about the death of a process alone do not look at the disk. The checksum of the log is a parameter \<open>crc\<close> of the definitions, since crc32fast is
  a dependency; nothing is assumed about it. \<open>BTreeMap\<close> is a sorted association list, \<open>Peekable\<close> and the parsing
  and printing of integers are modelled after their documentation.

  Concurrency. Each system call of a flush and of a compaction, the push, the swap and each unlink are steps of
  their own; writes have the store to themselves, as the lock of the server or the exclusive borrow of the code
  gives it. The append to the log with its sync is one step, and so is the cut of the log, since only the writer
  touches it. The merge of the inputs is one step; it reads tables that never change. A lookup is one step on one
  snapshot of the tables. A compaction that fails before the directory is synced for its table is given up, and the
  interleaving goes on. A write or a flush that fails is the last action of an interleaving, as is a compaction
  that fails at that sync or at an unlink: the store that is opened afterwards is covered, a process that goes on is not.

  Not modelled: sockets below what they deliver and accept (that an address can be bound or a connection be made is an
  input), the standard streams, and the memory model below the locks; allocation failure; a size ratio that is not a
  finite number; the layout of the report and the throughput of the load generator \<open>src/src/bin/ycsb.rs\<close>; a server
  with \<open>--no-sync\<close> after a loss of power, of which the code promises nothing; the benchmark
  \<open>src/benches/read_path.rs\<close> and the tests.
\<close>

end
